(* ===== verification/Prelude.thy ===== *)
theory Prelude
  imports Main "HOL-Library.AList" "HOL-Library.Word" "HOL-Library.Sublist"
begin

text \<open>
  Shared ground of the development: the outcome of a Go call that may panic, Go maps,
  the key/value interface that Go maps and the repository database both provide, and the
  lemma collections the component theories extend.

  A Go map is an association list whose keys are distinct (\<open>gm_ok\<close>). The order of the list is
  the order in which a \<open>range\<close> loop of that run visits the entries; Go leaves it open, so
  properties are stated through the lookup function \<^const>\<open>map_of\<close> and for every list.
\<close>

named_theorems go_defs \<open>definitions of small helpers, unfolded together\<close>
named_theorems go_maps \<open>lookups in updated maps\<close>
named_theorems go_wf \<open>well-formedness preserved by the operations\<close>

section \<open>Outcomes of calls\<close>

datatype 'a outcome = Returns 'a | Panics string

primrec returns :: "'a outcome \<Rightarrow> bool" where
  "returns (Returns x) = True"
| "returns (Panics s) = False"

lemma option_eqI: "(\<And>v. x = Some v \<longleftrightarrow> y = Some v) \<Longrightarrow> x = y"
  by (cases x; cases y) auto

section \<open>Machine integers\<close>

type_synonym uint64 = "64 word"

text \<open>\<open>time.Duration\<close> is a signed 64-bit count of nanoseconds; its sums wrap.\<close>

type_synonym duration = "64 word"

section \<open>Go maps\<close>

type_synonym ('k, 'v) gomap = "('k \<times> 'v) list"

definition gm_ok :: "('k, 'v) gomap \<Rightarrow> bool" where
  "gm_ok m \<longleftrightarrow> distinct (map fst m)"

definition gm_put :: "'k \<Rightarrow> 'v \<Rightarrow> ('k, 'v) gomap \<Rightarrow> ('k, 'v) gomap" where
  "gm_put k v m = AList.update k v m"

definition gm_delete :: "'k \<Rightarrow> ('k, 'v) gomap \<Rightarrow> ('k, 'v) gomap" where
  "gm_delete k m = AList.delete k m"

text \<open>The value read at an absent key is the zero value of the type (the empty string).\<close>

definition gm_str :: "('k, string) gomap \<Rightarrow> 'k \<Rightarrow> string" where
  "gm_str m k = (case map_of m k of None \<Rightarrow> '''' | Some v \<Rightarrow> v)"

text \<open>\<open>for k, v := range other { m[k] = v }\<close>\<close>

definition gm_copy :: "('k, 'v) gomap \<Rightarrow> ('k, 'v) gomap \<Rightarrow> ('k, 'v) gomap" where
  "gm_copy other m = fold (\<lambda>(k, v). gm_put k v) other m"

text \<open>Two maps with the same content, whatever the order in which a range visits them.\<close>

definition gm_eq :: "('k, 'v) gomap \<Rightarrow> ('k, 'v) gomap \<Rightarrow> bool" where
  "gm_eq m m' \<longleftrightarrow> gm_ok m \<and> gm_ok m' \<and> map_of m = map_of m'"

lemma gm_ok_Nil [simp]: "gm_ok []"
  by (simp add: gm_ok_def)

lemma gm_ok_Cons: "gm_ok ((k, v) # m) \<longleftrightarrow> k \<notin> fst ` set m \<and> gm_ok m"
  by (auto simp: gm_ok_def)

lemma gm_ok_tl: "gm_ok (p # m) \<Longrightarrow> gm_ok m"
  by (simp add: gm_ok_def)

lemma map_of_gm_put [simp, go_maps]: "map_of (gm_put k v m) = (map_of m)(k \<mapsto> v)"
  by (simp add: gm_put_def update_conv')

lemma map_of_gm_delete [simp, go_maps]: "map_of (gm_delete k m) = (map_of m)(k := None)"
  by (simp add: gm_delete_def delete_conv')

lemma gm_ok_put [simp, intro, go_wf]: "gm_ok m \<Longrightarrow> gm_ok (gm_put k v m)"
  by (simp add: gm_ok_def gm_put_def distinct_update)

lemma gm_ok_delete [simp, intro, go_wf]: "gm_ok m \<Longrightarrow> gm_ok (gm_delete k m)"
  by (simp add: gm_ok_def gm_delete_def distinct_delete)

lemma keys_gm_put: "fst ` set (gm_put k v m) = insert k (fst ` set m)"
  by (simp add: gm_put_def dom_update)

lemma keys_gm_delete: "fst ` set (gm_delete k m) = fst ` set m - {k}"
  by (metis (no_types, lifting) Diff_insert_absorb delete_keys gm_delete_def image_set
      insert_absorb insert_Diff_single set_removeAll)

lemma map_of_in_set: "gm_ok m \<Longrightarrow> map_of m k = Some v \<longleftrightarrow> (k, v) \<in> set m"
  by (simp add: gm_ok_def)

lemma gm_eq_refl: "gm_ok m \<Longrightarrow> gm_eq m m"
  by (simp add: gm_eq_def)

lemma gm_eq_set: "gm_eq m m' \<Longrightarrow> set m = set m'"
  by (auto simp: gm_eq_def map_of_in_set [symmetric])

lemma gm_eq_length: "gm_eq m m' \<Longrightarrow> length m = length m'"
  by (metis distinct_card gm_eq_def gm_eq_set gm_ok_def length_map set_map)

lemma map_of_rev_distinct: "gm_ok m \<Longrightarrow> map_of (rev m) = map_of m"
  by (rule map_of_eqI) (auto simp: gm_ok_def rev_map [symmetric] map_of_in_set)

section \<open>The key/value interface\<close>

text \<open>
  What \<open>KeyValueStorer\<close> (and a Go map) promises its clients: a lookup after a store or a
  deletion, and that both keep the store well formed. Clients reason with the two bulk
  lemmas: a sequence of stores, and one pass that stores, deletes or skips each key.
\<close>

locale keyed_store =
  fixes get :: "'s \<Rightarrow> 'k \<Rightarrow> 'v option"
    and put :: "'k \<Rightarrow> 'v \<Rightarrow> 's \<Rightarrow> 's"
    and del :: "'k \<Rightarrow> 's \<Rightarrow> 's"
    and wf :: "'s \<Rightarrow> bool"
  assumes get_put: "get (put k v s) = (get s)(k \<mapsto> v)"
    and get_del: "get (del k s) = (get s)(k := None)"
    and wf_put: "wf s \<Longrightarrow> wf (put k v s)"
    and wf_del: "wf s \<Longrightarrow> wf (del k s)"
begin

lemma get_put_del: "get (del k (put k v s)) = (get s)(k := None)"
  by (simp add: get_put get_del)

lemma fold_put: "get (fold (\<lambda>(k, v). put k v) kvs s) = get s ++ map_of (rev kvs)"
proof (induction kvs arbitrary: s)
  case Nil
  show ?case by simp
next
  case (Cons kv kvs)
  obtain k v where kv: "kv = (k, v)" by (cases kv)
  have "get (fold (\<lambda>(k, v). put k v) (kv # kvs) s) = get (put k v s) ++ map_of (rev kvs)"
    by (simp add: kv Cons.IH)
  also have "\<dots> = get s ++ map_of (rev (kv # kvs))"
    by (auto simp: kv get_put fun_eq_iff map_add_def map_of_append split: option.splits)
  finally show ?case .
qed

lemma fold_put_distinct:
  "gm_ok kvs \<Longrightarrow> get (fold (\<lambda>(k, v). put k v) kvs s) = get s ++ map_of kvs"
  by (simp add: fold_put map_of_rev_distinct)

lemma wf_fold_put: "wf s \<Longrightarrow> wf (fold (\<lambda>(k, v). put k v) kvs s)"
  by (induction kvs arbitrary: s) (auto intro: wf_put)

text \<open>
  One pass over \<open>kws\<close>: \<open>act k w\<close> is \<open>None\<close> to leave the key alone, \<open>Some None\<close> to delete
  it and \<open>Some (Some v)\<close> to store \<open>v\<close>.
\<close>

lemma fold_act:
  assumes "gm_ok kws"
    and step: "\<And>k w s. f (k, w) s =
      (case act k w of None \<Rightarrow> s | Some None \<Rightarrow> del k s | Some (Some v) \<Rightarrow> put k v s)"
  shows "get (fold f kws s) k =
    (case map_of kws k of None \<Rightarrow> get s k
     | Some w \<Rightarrow> (case act k w of None \<Rightarrow> get s k | Some r \<Rightarrow> r))"
  using assms(1)
proof (induction kws arbitrary: s)
  case Nil
  show ?case by simp
next
  case (Cons kw kws)
  obtain k' w where kw: "kw = (k', w)" by (cases kw)
  from Cons.prems have fresh: "map_of kws k' = None" and ok: "gm_ok kws"
    by (auto simp: kw gm_ok_Cons map_of_eq_None_iff)
  have "get (f (k', w) s) k = (if k = k' then
      (case act k w of None \<Rightarrow> get s k | Some r \<Rightarrow> r) else get s k)"
    by (auto simp: step get_put get_del split: option.splits)
  with Cons.IH [OF ok, of "f (k', w) s"] fresh show ?case
    by (auto simp: kw split: option.splits)
qed

lemma wf_fold_act:
  assumes "wf s"
    and step: "\<And>k w s. f (k, w) s =
      (case act k w of None \<Rightarrow> s | Some None \<Rightarrow> del k s | Some (Some v) \<Rightarrow> put k v s)"
  shows "wf (fold f kws s)"
  using assms(1)
proof (induction kws arbitrary: s)
  case (Cons kw kws)
  obtain k' w where kw: "kw = (k', w)" by (cases kw)
  from Cons.prems have "wf (f (k', w) s)"
    by (auto simp: step wf_put wf_del split: option.splits)
  with Cons.IH show ?case by (simp add: kw)
qed simp

end

interpretation gomap: keyed_store map_of gm_put gm_delete gm_ok
  by unfold_locales auto

lemma map_of_gm_copy: "gm_ok other \<Longrightarrow> map_of (gm_copy other m) = map_of m ++ map_of other"
  unfolding gm_copy_def by (rule gomap.fold_put_distinct)

lemma gm_ok_copy [simp, intro, go_wf]: "gm_ok m \<Longrightarrow> gm_ok (gm_copy other m)"
  unfolding gm_copy_def by (rule gomap.wf_fold_put)

lemma gm_str_put [simp, go_maps]: "gm_str (gm_put k v m) k' = (if k' = k then v else gm_str m k')"
  by (simp add: gm_str_def)

lemma gm_str_Nil [simp]: "gm_str [] k = ''''"
  by (simp add: gm_str_def)

end
