(* ===== verification/Go_Strings.thy ===== *)
theory Go_Strings
  imports Prelude
begin

text \<open>
  The parts of Go's \<open>strings\<close>, \<open>bytes\<close>, \<open>strconv\<close> and \<open>path\<close> packages the program calls.
  A Go string or byte slice is a list of bytes, which is what \<^typ>\<open>string\<close> is. An index
  function returns \<open>-1\<close> where Go does, so its result is an \<^typ>\<open>int\<close>.
\<close>

section \<open>strings and bytes\<close>

definition HasPrefix :: "string \<Rightarrow> string \<Rightarrow> bool" where
  "HasPrefix s p \<longleftrightarrow> prefix p s"

definition HasSuffix :: "string \<Rightarrow> string \<Rightarrow> bool" where
  "HasSuffix s p \<longleftrightarrow> suffix p s"

definition TrimPrefix :: "string \<Rightarrow> string \<Rightarrow> string" where
  "TrimPrefix s p = (if HasPrefix s p then drop (length p) s else s)"

definition TrimSuffix :: "string \<Rightarrow> string \<Rightarrow> string" where
  "TrimSuffix s p = (if HasSuffix s p then take (length s - length p) s else s)"

fun index_from :: "nat \<Rightarrow> char \<Rightarrow> string \<Rightarrow> int" where
  "index_from i c [] = -1"
| "index_from i c (x # xs) = (if x = c then int i else index_from (Suc i) c xs)"

definition IndexByte :: "string \<Rightarrow> char \<Rightarrow> int" where
  "IndexByte s c = index_from 0 c s"

definition LastIndexByte :: "string \<Rightarrow> char \<Rightarrow> int" where
  "LastIndexByte s c =
     (let i = index_from 0 c (rev s) in if i < 0 then -1 else int (length s) - 1 - i)"

definition slice :: "string \<Rightarrow> nat \<Rightarrow> nat \<Rightarrow> string" where
  "slice b i j = take (j - i) (drop i b)"

text \<open>\<open>strings.Split(s, sep)\<close> for a separator of one byte.\<close>

fun Split :: "char \<Rightarrow> string \<Rightarrow> string list" where
  "Split sep [] = [[]]"
| "Split sep (x # xs) =
     (if x = sep then [] # Split sep xs
      else (case Split sep xs of [] \<Rightarrow> [[x]] | w # ws \<Rightarrow> (x # w) # ws))"

fun Join :: "string \<Rightarrow> string list \<Rightarrow> string" where
  "Join sep [] = []"
| "Join sep [w] = w"
| "Join sep (w # ws) = w @ sep @ Join sep ws"

lemma index_from_bounds:
  "index_from i c s = -1 \<and> c \<notin> set s \<or>
   (\<exists>n < length s. index_from i c s = int (i + n) \<and> s ! n = c \<and> c \<notin> set (take n s))"
proof (induction s arbitrary: i)
  case (Cons x xs)
  show ?case
  proof (cases "x = c")
    case True
    then show ?thesis by (auto intro: exI [of _ 0])
  next
    case False
    from Cons.IH [of "Suc i"] show ?thesis
    proof
      assume "\<exists>n < length xs. index_from (Suc i) c xs = int (Suc i + n) \<and> xs ! n = c \<and>
        c \<notin> set (take n xs)"
      then obtain n where "n < length xs" "index_from (Suc i) c xs = int (Suc i + n)"
        "xs ! n = c" "c \<notin> set (take n xs)" by blast
      with False show ?thesis by (intro disjI2 exI [of _ "Suc n"]) auto
    qed (use False in simp)
  qed
qed simp

lemma IndexByte_cases:
  obtains "IndexByte s c = -1" "c \<notin> set s"
  | n where "IndexByte s c = int n" "n < length s" "s ! n = c" "c \<notin> set (take n s)"
  using index_from_bounds [of 0 c s] by (auto simp: IndexByte_def)

lemma IndexByte_none [simp]: "c \<notin> set s \<Longrightarrow> IndexByte s c = -1"
  by (cases rule: IndexByte_cases [of s c]) auto

lemma IndexByte_append:
  "c \<notin> set u \<Longrightarrow> IndexByte (u @ c # v) c = int (length u)"
proof -
  assume u: "c \<notin> set u"
  have "index_from i c (u @ c # v) = int (i + length u)" for i
    using u by (induction u arbitrary: i) auto
  from this [of 0] show ?thesis by (simp add: IndexByte_def)
qed

lemma LastIndexByte_none [simp]: "c \<notin> set s \<Longrightarrow> LastIndexByte s c = -1"
  using IndexByte_none [of c "rev s"] by (simp add: LastIndexByte_def IndexByte_def)

lemma LastIndexByte_append:
  "c \<notin> set v \<Longrightarrow> LastIndexByte (u @ c # v) c = int (length u)"
  using IndexByte_append [of c "rev v" "rev u"]
  by (simp add: LastIndexByte_def IndexByte_def)

lemma LastIndexByte_le: "LastIndexByte s c < int (length s)"
  using index_from_bounds [of 0 c "rev s"] by (auto simp: LastIndexByte_def Let_def)

lemma length_slice [simp]: "length (slice b i j) = min (j - i) (length b - i)"
  by (simp add: slice_def)

lemma slice_all [simp]: "slice b 0 (length b) = b"
  by (simp add: slice_def)

lemma slice_empty [simp]: "j \<le> i \<Longrightarrow> slice b i j = []"
  by (simp add: slice_def)

lemma slice_append: "i \<le> j \<Longrightarrow> j \<le> k \<Longrightarrow> slice b i j @ slice b j k = slice b i k"
proof -
  assume "i \<le> j" "j \<le> k"
  then have "slice b i k = take ((j - i) + (k - j)) (drop i b)"
    by (simp add: slice_def)
  also have "\<dots> = take (j - i) (drop i b) @ take (k - j) (drop (j - i) (drop i b))"
    by (rule take_add)
  finally show ?thesis using \<open>i \<le> j\<close> by (simp add: slice_def)
qed

lemma Split_nonempty [simp]: "Split sep s \<noteq> []"
  by (induction s) (auto split: list.splits)

lemma Join_Cons: "ws \<noteq> [] \<Longrightarrow> Join sep (w # ws) = w @ sep @ Join sep ws"
  by (cases ws) auto

lemma Join_Split: "Join [sep] (Split sep s) = s"
proof (induction s)
  case (Cons x xs)
  obtain w ws where sp: "Split sep xs = w # ws"
    by (cases "Split sep xs") auto
  show ?case
  proof (cases "x = sep")
    case True
    with Cons sp show ?thesis by (simp add: Join_Cons)
  next
    case False
    with Cons sp show ?thesis by (cases ws) (auto simp: Join_Cons)
  qed
qed simp

lemma Split_no_sep: "w \<in> set (Split sep s) \<Longrightarrow> sep \<notin> set w"
  by (induction s arbitrary: w) (auto split: list.splits if_splits)

lemma Split_word: "sep \<notin> set w \<Longrightarrow> Split sep w = [w]"
  by (induction w) auto

lemma Split_append: "sep \<notin> set w \<Longrightarrow> Split sep (w @ sep # s) = w # Split sep s"
  by (induction w) (auto split: list.splits)

lemma Split_Join:
  "ws \<noteq> [] \<Longrightarrow> (\<And>w. w \<in> set ws \<Longrightarrow> sep \<notin> set w) \<Longrightarrow> Split sep (Join [sep] ws) = ws"
proof (induction ws rule: induct_list012)
  case (2 w)
  then show ?case by (simp add: Split_word)
next
  case (3 w w' ws)
  then show ?case by (simp add: Split_append)
qed simp

section \<open>strconv\<close>

definition digit :: "nat \<Rightarrow> char" where
  "digit d = char_of (48 + d)"

definition is_digit :: "char \<Rightarrow> bool" where
  "is_digit c \<longleftrightarrow> 48 \<le> (of_char c :: nat) \<and> (of_char c :: nat) \<le> 57"

definition digit_val :: "char \<Rightarrow> nat" where
  "digit_val c = of_char c - 48"

fun Itoa_nat :: "nat \<Rightarrow> string" where
  "Itoa_nat n = (if n < 10 then [digit n] else Itoa_nat (n div 10) @ [digit (n mod 10)])"

declare Itoa_nat.simps [simp del]

definition Itoa :: "int \<Rightarrow> string" where
  "Itoa i = (if i < 0 then CHR ''-'' # Itoa_nat (nat (- i)) else Itoa_nat (nat i))"

definition digits_val :: "string \<Rightarrow> nat" where
  "digits_val s = foldl (\<lambda>n c. 10 * n + digit_val c) 0 s"

text \<open>\<open>strconv.Atoi\<close>: \<open>None\<close> is its error (no digits, another byte, or out of the range of int64).\<close>

definition Atoi :: "string \<Rightarrow> int option" where
  "Atoi s =
     (let (neg, ds) = (case s of
        [] \<Rightarrow> (False, [])
      | c # cs \<Rightarrow> if c = CHR ''-'' then (True, cs) else if c = CHR ''+'' then (False, cs)
                 else (False, s))
      in if ds = [] \<or> \<not> list_all is_digit ds then None
         else (let v = (if neg then - int (digits_val ds) else int (digits_val ds))
               in if - (2 ^ 63) \<le> v \<and> v < 2 ^ 63 then Some v else None))"

lemma digit_val_digit: "d < 10 \<Longrightarrow> digit_val (digit d) = d"
  by (simp add: digit_def digit_val_def of_char_of)

lemma is_digit_digit: "d < 10 \<Longrightarrow> is_digit (digit d)"
  by (simp add: digit_def is_digit_def of_char_of)

lemma Itoa_nat_digits: "list_all is_digit (Itoa_nat n)"
  by (induction n rule: Itoa_nat.induct) (subst Itoa_nat.simps, auto simp: is_digit_digit)

lemma Itoa_nat_nonempty [simp]: "Itoa_nat n \<noteq> []"
  by (subst Itoa_nat.simps) simp

lemma digits_val_Itoa_nat: "digits_val (Itoa_nat n) = n"
proof (induction n rule: Itoa_nat.induct)
  case (1 n)
  show ?case
  proof (cases "n < 10")
    case True
    then show ?thesis by (subst Itoa_nat.simps) (simp add: digits_val_def digit_val_digit)
  next
    case False
    with 1 have "digits_val (Itoa_nat (n div 10)) = n div 10" by simp
    with False show ?thesis
      by (subst Itoa_nat.simps) (simp add: digits_val_def digit_val_digit)
  qed
qed

lemma Itoa_nat_inj: "Itoa_nat m = Itoa_nat n \<Longrightarrow> m = n"
  by (metis digits_val_Itoa_nat)

lemma Itoa_nat_no_dash: "Itoa_nat n \<noteq> CHR ''-'' # s"
proof
  assume "Itoa_nat n = CHR ''-'' # s"
  with Itoa_nat_digits [of n] have "is_digit (CHR ''-'')" by simp
  then show False by (simp add: is_digit_def)
qed

lemma Itoa_inj:
  assumes "Itoa i = Itoa j"
  shows "i = j"
proof (cases "i < 0"; cases "j < 0")
  assume "i < 0" "j < 0"
  with assms have "Itoa_nat (nat (- i)) = Itoa_nat (nat (- j))" by (simp add: Itoa_def)
  then have "nat (- i) = nat (- j)" by (rule Itoa_nat_inj)
  with \<open>i < 0\<close> \<open>j < 0\<close> show "i = j" by simp
next
  assume "\<not> i < 0" "\<not> j < 0"
  with assms have "Itoa_nat (nat i) = Itoa_nat (nat j)" by (simp add: Itoa_def)
  then have "nat i = nat j" by (rule Itoa_nat_inj)
  with \<open>\<not> i < 0\<close> \<open>\<not> j < 0\<close> show "i = j" by simp
next
  assume "i < 0" "\<not> j < 0"
  with assms have "Itoa_nat (nat j) = CHR ''-'' # Itoa_nat (nat (- i))" by (simp add: Itoa_def)
  then show "i = j" using Itoa_nat_no_dash by blast
next
  assume "\<not> i < 0" "j < 0"
  with assms have "Itoa_nat (nat i) = CHR ''-'' # Itoa_nat (nat (- j))" by (simp add: Itoa_def)
  then show "i = j" using Itoa_nat_no_dash by blast
qed

lemma Itoa_eq_iff [simp]: "Itoa i = Itoa j \<longleftrightarrow> i = j"
  using Itoa_inj by blast

lemma Itoa_nonempty [simp]: "Itoa i \<noteq> []"
  by (simp add: Itoa_def)

lemma Atoi_Itoa:
  assumes "- (2 ^ 63) \<le> i" and "i < 2 ^ 63"
  shows "Atoi (Itoa i) = Some i"
proof (cases "i < 0")
  case True
  with assms show ?thesis
    by (simp add: Atoi_def Itoa_def Itoa_nat_digits digits_val_Itoa_nat)
next
  case False
  obtain c cs where cs: "Itoa_nat (nat i) = c # cs" by (cases "Itoa_nat (nat i)") auto
  with Itoa_nat_digits [of "nat i"] have "is_digit c" by simp
  then have "c \<noteq> CHR ''-''" "c \<noteq> CHR ''+''" by (auto simp: is_digit_def)
  with False assms Itoa_nat_digits [of "nat i"] digits_val_Itoa_nat [of "nat i"] show ?thesis
    by (simp add: Atoi_def Itoa_def cs)
qed

section \<open>path\<close>

text \<open>
  \<open>path.Clean\<close> keeps a stack of elements: empty and \<open>.\<close> elements go, \<open>..\<close> removes the
  element before it, is dropped at the root, and stays in front of a relative path.
\<close>

fun clean_elems :: "bool \<Rightarrow> string list \<Rightarrow> string list \<Rightarrow> string list" where
  "clean_elems rooted st [] = rev st"
| "clean_elems rooted st (e # es) =
     (if e = '''' \<or> e = ''.'' then clean_elems rooted st es
      else if e = ''..'' then
        (case st of
           [] \<Rightarrow> if rooted then clean_elems rooted [] es else clean_elems rooted [''..''] es
         | t # st' \<Rightarrow> if t = ''..'' then clean_elems rooted (''..'' # st) es
                      else clean_elems rooted st' es)
      else clean_elems rooted (e # st) es)"

definition IsAbs :: "string \<Rightarrow> bool" where
  "IsAbs p \<longleftrightarrow> HasPrefix p ''/''"

definition path_Clean :: "string \<Rightarrow> string" where
  "path_Clean p =
     (if p = '''' then ''.''
      else let rooted = IsAbs p;
               body = Join ''/'' (clean_elems rooted [] (Split CHR ''/'' p))
           in if rooted then ''/'' @ body else if body = '''' then ''.'' else body)"

definition path_Join :: "string list \<Rightarrow> string" where
  "path_Join elems =
     (case dropWhile (\<lambda>e. e = '''') elems of [] \<Rightarrow> '''' | es \<Rightarrow> path_Clean (Join ''/'' es))"

text \<open>An element that stays: not empty, not \<open>.\<close> and not \<open>..\<close>.\<close>

definition proper_elem :: "string \<Rightarrow> bool" where
  "proper_elem e \<longleftrightarrow> e \<noteq> '''' \<and> e \<noteq> ''.'' \<and> e \<noteq> ''..''"

lemma clean_elems_snoc:
  assumes "proper_elem e"
  shows "clean_elems rooted st (es @ [e]) = clean_elems rooted st es @ [e]"
proof (induction es arbitrary: st)
  case Nil
  from assms show ?case by (simp add: proper_elem_def)
next
  case (Cons x xs)
  then show ?case by (cases rooted) (auto split: list.splits)
qed

lemma Split_app: "Split sep (u @ sep # v) = Split sep u @ Split sep v"
  by (induction u) (auto split: list.splits)

lemma Split_snoc_word:
  "sep \<notin> set v \<Longrightarrow> Split sep (u @ v) = butlast (Split sep u) @ [last (Split sep u) @ v]"
proof (induction u)
  case Nil
  then show ?case by (simp add: Split_word)
next
  case (Cons x u)
  obtain w ws where "Split sep u = w # ws" by (cases "Split sep u") auto
  with Cons show ?case by auto
qed

lemma Join_snoc: "Join sep (ws @ [w]) = (if ws = [] then w else Join sep ws @ sep @ w)"
  by (induction ws rule: induct_list012) auto

text \<open>A path whose last element is proper keeps that element through \<open>path.Clean\<close>.\<close>

lemma path_Clean_last:
  assumes "Split CHR ''/'' p = es @ [e]" and "proper_elem e"
  shows "path_Clean p = (if IsAbs p then ''/'' else '''') @
    (let st = clean_elems (IsAbs p) [] es in if st = [] then e else Join ''/'' st @ ''/'' @ e)"
proof -
  from assms have "p \<noteq> ''''" by (auto simp: proper_elem_def Cons_eq_append_conv)
  moreover have "clean_elems (IsAbs p) [] (Split CHR ''/'' p) = clean_elems (IsAbs p) [] es @ [e]"
    using assms by (simp add: clean_elems_snoc)
  moreover from assms(2) have "e \<noteq> ''''" by (simp add: proper_elem_def)
  ultimately show ?thesis
    by (cases "IsAbs p") (simp_all add: path_Clean_def Join_snoc)
qed

text \<open>Joining a directory with a name that ends in \<open>v\<close>: the tail \<open>v\<close> comes out unchanged.\<close>

lemma path_Join_tail:
  assumes "\<And>v. P v \<Longrightarrow> CHR ''/'' \<notin> set v \<and> 2 < length v \<and> hd v \<noteq> CHR ''/''"
  obtains pre where "\<And>v. P v \<Longrightarrow> path_Join [dir, key @ v] = pre @ v"
proof -
  define q where "q = (if dir = '''' then key else dir @ ''/'' @ key)"
  define es where "es = butlast (Split CHR ''/'' q)"
  define w where "w = last (Split CHR ''/'' q)"
  define st where "st = clean_elems (IsAbs q) [] es"
  have "path_Join [dir, key @ v] = ((if IsAbs q then ''/'' else '''') @
      (if st = [] then w else Join ''/'' st @ ''/'' @ w)) @ v" if "P v" for v
  proof -
    have v: "CHR ''/'' \<notin> set v" "2 < length v" "hd v \<noteq> CHR ''/''" using assms [OF that] by auto
    then have "v \<noteq> ''''" by auto
    then have "path_Join [dir, key @ v] = path_Clean (q @ v)"
      by (simp add: path_Join_def q_def)
    moreover have "IsAbs (q @ v) = IsAbs q"
      using v by (cases q; cases v) (auto simp: IsAbs_def HasPrefix_def)
    moreover have "Split CHR ''/'' (q @ v) = es @ [w @ v]"
      unfolding es_def w_def using v(1) by (rule Split_snoc_word)
    moreover have "proper_elem (w @ v)"
      using v(2) by (auto simp: proper_elem_def dest!: arg_cong [where f = length])
    ultimately show ?thesis by (simp add: path_Clean_last st_def Let_def)
  qed
  then show thesis by (rule that)
qed

end
