(* ===== verification/Errs.thy ===== *)
theory Errs
  imports Go_Strings
begin

text \<open>
  The package \<open>errs\<close>: the typed errors, their messages, the \<open>Is\<close> predicates and the
  structured error that travels in JSON and RPC replies.

  A Go error is an interface value: its dynamic type is a pointer or a value of an error
  type. The type switches of \<open>NewStructError\<close> and of the predicates only match pointers, so
  \<^term>\<open>Ptr\<close> and \<^term>\<open>Val\<close> are part of the error (\<open>*RepoExistsError\<close> alone has no value form:
  its method has a pointer receiver). Errors of other packages are kept by what the program
  asks of them: a network error (\<open>net.Error\<close>, with its \<open>Temporary\<close> answer), a missing file,
  a denied file, and any other, each with its message.
\<close>

section \<open>Error types\<close>

record struct_error =
  se_T :: string
  se_M :: string

datatype receiver = Ptr | Val

datatype go_error =
    RepoExistsError string
  | ValueError receiver string string
  | RepoUnavailableError receiver
  | NoRpcClientError receiver
  | TimeoutError receiver string
  | InternalError receiver string
  | InvalidRequestError receiver string
  | StructError receiver struct_error
  | NetError bool string
  | NotExistError string
  | PermissionError string
  | OtherError string

definition NewRepoExistsError :: "string \<Rightarrow> go_error" where
  "NewRepoExistsError key = RepoExistsError key"

definition NewValueError :: "string \<Rightarrow> string \<Rightarrow> go_error" where
  "NewValueError arg msg = ValueError Ptr arg msg"

definition NewRepoUnavailableError :: go_error where
  "NewRepoUnavailableError = RepoUnavailableError Ptr"

definition NewNoRpcClientError :: go_error where
  "NewNoRpcClientError = NoRpcClientError Ptr"

definition NewTimeoutError :: "string \<Rightarrow> go_error" where
  "NewTimeoutError what = TimeoutError Ptr what"

definition NewInternalError :: "string \<Rightarrow> go_error" where
  "NewInternalError s = InternalError Ptr s"

definition NewInvalidRequestError :: "string \<Rightarrow> go_error" where
  "NewInvalidRequestError s = InvalidRequestError Ptr s"

lemmas new_error_defs [go_defs] =
  NewRepoExistsError_def NewValueError_def NewRepoUnavailableError_def NewNoRpcClientError_def
  NewTimeoutError_def NewInternalError_def NewInvalidRequestError_def

section \<open>Messages\<close>

definition StructError_Error :: "struct_error \<Rightarrow> string" where
  "StructError_Error e =
     (let s = '''';
          s = (if se_T e \<noteq> '''' then s @ se_T e else s)
      in if se_M e \<noteq> '''' then (if s \<noteq> '''' then s @ '': '' else s) @ se_M e else s)"

definition TimeoutError_Error :: "string \<Rightarrow> string" where
  "TimeoutError_Error what =
     (let s = ''timed out'' in if what \<noteq> '''' then s @ '' waiting for '' @ what else s)"

text \<open>The \<open>Error\<close> method. The byte 39 is the single quote of the messages.\<close>

fun Error :: "go_error \<Rightarrow> string" where
  "Error (RepoExistsError key) =
     ''Cannot replace existing repository with key '' @ [char_of (39::nat)] @ key
       @ [char_of (39::nat)]"
| "Error (ValueError _ arg msg) =
     ''Argument '' @ [char_of (39::nat)] @ arg @ [char_of (39::nat)] @ '' value is invalid: '' @ msg"
| "Error (RepoUnavailableError _) = ''Repo not available''"
| "Error (NoRpcClientError _) = ''No local RPC client to perform remote requests''"
| "Error (TimeoutError _ what) = TimeoutError_Error what"
| "Error (InternalError _ s) = s"
| "Error (InvalidRequestError _ s) = s"
| "Error (StructError _ e) = StructError_Error e"
| "Error (NetError _ s) = s"
| "Error (NotExistError s) = s"
| "Error (PermissionError s) = s"
| "Error (OtherError s) = s"

section \<open>Predicates\<close>

fun IsRepoExistsError :: "go_error \<Rightarrow> bool" where
  "IsRepoExistsError (RepoExistsError _) = True"
| "IsRepoExistsError _ = False"

fun IsValueError :: "go_error \<Rightarrow> bool" where
  "IsValueError (ValueError Ptr _ _) = True"
| "IsValueError _ = False"

fun IsRepoUnavailableError :: "go_error \<Rightarrow> bool" where
  "IsRepoUnavailableError (RepoUnavailableError Ptr) = True"
| "IsRepoUnavailableError _ = False"

fun IsNoRpcClientError :: "go_error \<Rightarrow> bool" where
  "IsNoRpcClientError (NoRpcClientError Ptr) = True"
| "IsNoRpcClientError _ = False"

fun IsTimeoutError :: "go_error \<Rightarrow> bool" where
  "IsTimeoutError (TimeoutError Ptr _) = True"
| "IsTimeoutError _ = False"

fun IsInternalError :: "go_error \<Rightarrow> bool" where
  "IsInternalError (InternalError Ptr _) = True"
| "IsInternalError _ = False"

fun IsInvalidRequestError :: "go_error \<Rightarrow> bool" where
  "IsInvalidRequestError (InvalidRequestError Ptr _) = True"
| "IsInvalidRequestError _ = False"

text \<open>\<open>os.IsNotExist\<close>, \<open>os.IsPermission\<close> and the assertion to \<open>net.Error\<close>.\<close>

fun IsNotExist :: "go_error \<Rightarrow> bool" where
  "IsNotExist (NotExistError _) = True"
| "IsNotExist _ = False"

fun IsPermission :: "go_error \<Rightarrow> bool" where
  "IsPermission (PermissionError _) = True"
| "IsPermission _ = False"

fun IsNetError :: "go_error \<Rightarrow> bool" where
  "IsNetError (NetError _ _) = True"
| "IsNetError _ = False"

section \<open>Structured errors\<close>

fun NewStructError :: "go_error \<Rightarrow> struct_error" where
  "NewStructError e =
     (case e of
        NetError _ _ \<Rightarrow> \<lparr>se_T = ''network_error'', se_M = Error e\<rparr>
      | InternalError Ptr _ \<Rightarrow> \<lparr>se_T = ''internal_error'', se_M = Error e\<rparr>
      | InvalidRequestError Ptr _ \<Rightarrow> \<lparr>se_T = ''invalid_request'', se_M = Error e\<rparr>
      | TimeoutError Ptr _ \<Rightarrow> \<lparr>se_T = ''timeout'', se_M = Error e\<rparr>
      | NoRpcClientError Ptr \<Rightarrow> \<lparr>se_T = ''rpc_client_unavailable'', se_M = Error e\<rparr>
      | RepoUnavailableError Ptr \<Rightarrow> \<lparr>se_T = ''no_repo_found'', se_M = Error e\<rparr>
      | RepoExistsError _ \<Rightarrow> \<lparr>se_T = ''repo_exists'', se_M = Error e\<rparr>
      | ValueError Ptr _ _ \<Rightarrow> \<lparr>se_T = ''value_error'', se_M = Error e\<rparr>
      | _ \<Rightarrow> \<lparr>se_T = ''unknown_error'', se_M = Error e\<rparr>)"

text \<open>
  What every \<open>SetError\<close> does with the error it is given: a \<open>*StructError\<close> is kept, any other
  error is wrapped, and \<open>nil\<close> leaves the field as it is.
\<close>

definition set_error :: "go_error option \<Rightarrow> struct_error option \<Rightarrow> struct_error option" where
  "set_error err old =
     (case err of
        Some (StructError Ptr e) \<Rightarrow> Some e
      | Some e \<Rightarrow> Some (NewStructError e)
      | None \<Rightarrow> old)"

lemma NewStructError_message [simp]: "se_M (NewStructError e) = Error e"
  by (cases e) (auto split: receiver.splits)

lemma NewStructError_typed [simp]: "se_T (NewStructError e) \<noteq> ''''"
  by (cases e) (auto split: receiver.splits)

lemma StructError_Error_typed:
  "se_T e \<noteq> '''' \<Longrightarrow> StructError_Error e = (if se_M e = '''' then se_T e else se_T e @ '': '' @ se_M e)"
  by (simp add: StructError_Error_def)

lemma StructError_Error_nonempty:
  "se_T e \<noteq> '''' \<Longrightarrow> StructError_Error e \<noteq> ''''"
  by (simp add: StructError_Error_typed)

text \<open>
  The type tag of a structured error classifies the error exactly: each tag is given to
  the errors its \<open>Is\<close> predicate (or \<open>net.Error\<close>) accepts and to no other, and every remaining
  error is tagged \<open>unknown_error\<close>.
\<close>

theorem NewStructError_classifies:
  "(se_T (NewStructError e) = ''value_error'') = IsValueError e \<and>
   (se_T (NewStructError e) = ''repo_exists'') = IsRepoExistsError e \<and>
   (se_T (NewStructError e) = ''no_repo_found'') = IsRepoUnavailableError e \<and>
   (se_T (NewStructError e) = ''rpc_client_unavailable'') = IsNoRpcClientError e \<and>
   (se_T (NewStructError e) = ''timeout'') = IsTimeoutError e \<and>
   (se_T (NewStructError e) = ''invalid_request'') = IsInvalidRequestError e \<and>
   (se_T (NewStructError e) = ''internal_error'') = IsInternalError e \<and>
   (se_T (NewStructError e) = ''network_error'') = IsNetError e"
  by (cases e) (auto split: receiver.splits)

end
