(* ===== verification/Repo.thy ===== *)
theory Repo
  imports Errs
begin

text \<open>
  \<open>afind/repo.go\<close>: a repository record, its metadata, metadata filters and shard names
  (\<open>shardName\<close> of \<open>afind/index.go\<close>), with \<open>afind/db.go\<close>'s users left to the theory \<open>Db\<close>.

  The state of a repository is one of the four strings the code names; only \<open>OK\<close> is searched.
  Byte sizes (\<open>ByteSize\<close>, a float64 holding a count of bytes) are counts; times are opaque
  counts of nanoseconds.
\<close>

section \<open>Data\<close>

type_synonym meta = "(string, string) gomap"

record repo =
  r_Key :: string
  r_IndexPath :: string
  r_Root :: string
  r_Meta :: meta
  r_State :: string
  r_NumFiles :: int
  r_SizeIndex :: nat
  r_SizeData :: nat
  r_NumShards :: int
  r_ElapsedIndexing :: duration
  r_TimeUpdated :: int

definition st_NULL :: string where "st_NULL = ''NULL''"
definition st_INDEXING :: string where "st_INDEXING = ''INDEXING''"
definition st_OK :: string where "st_OK = ''OK''"
definition st_ERROR :: string where "st_ERROR = ''ERROR''"

lemmas state_defs [go_defs] = st_NULL_def st_INDEXING_def st_OK_def st_ERROR_def

lemma states_distinct [simp]:
  "st_OK \<noteq> st_ERROR" "st_ERROR \<noteq> st_OK" "st_OK \<noteq> st_INDEXING" "st_INDEXING \<noteq> st_OK"
  "st_ERROR \<noteq> st_INDEXING" "st_INDEXING \<noteq> st_ERROR"
  "st_OK \<noteq> ''''" "st_ERROR \<noteq> ''''" "st_INDEXING \<noteq> ''''"
  by (simp_all add: state_defs)

definition NewRepo :: repo where
  "NewRepo = \<lparr>r_Key = '''', r_IndexPath = '''', r_Root = '''', r_Meta = [], r_State = '''',
     r_NumFiles = 0, r_SizeIndex = 0, r_SizeData = 0, r_NumShards = 0, r_ElapsedIndexing = 0,
     r_TimeUpdated = 0\<rparr>"

section \<open>Metadata\<close>

definition Meta_Host :: "meta \<Rightarrow> string" where
  "Meta_Host m = gm_str m ''host''"

definition Meta_SetHost :: "string \<Rightarrow> meta \<Rightarrow> meta" where
  "Meta_SetHost host m = gm_put ''host'' host m"

definition Meta_Update :: "meta \<Rightarrow> meta \<Rightarrow> meta" where
  "Meta_Update other m = gm_copy other m"

text \<open>The loop of \<open>Matches\<close> over the local map, with its early return.\<close>

fun Meta_Matches :: "meta \<Rightarrow> meta \<Rightarrow> bool" where
  "Meta_Matches [] other = True"
| "Meta_Matches ((k, v) # m) other =
     (case map_of other k of
        Some ov \<Rightarrow> if v \<noteq> ov then False else Meta_Matches m other
      | None \<Rightarrow> Meta_Matches m other)"

text \<open>
  \<open>MatchesRegexp\<close> compiles each filter with \<open>regexp.Compile\<close>, the parameter
  \<open>compile\<close>: \<open>None\<close> is its error, \<open>Some f\<close> an expression with its \<open>MatchString\<close>. The variable
  \<open>err\<close> is declared outside the loop, so it is threaded through the iterations.
\<close>

type_synonym regexp_compile = "string \<Rightarrow> (string \<Rightarrow> bool) option"

fun Meta_MatchesRegexp_loop :: "regexp_compile \<Rightarrow> bool \<Rightarrow> meta \<Rightarrow> meta \<Rightarrow> bool" where
  "Meta_MatchesRegexp_loop compile err [] other = True"
| "Meta_MatchesRegexp_loop compile err ((k, v) # m) other =
     (let ov = gm_str other k;
          (nomatch, reg, err') =
            (if HasPrefix ov ''!'' then
               (True, compile (drop 1 ov), compile (drop 1 ov) = None)
             else if ov \<noteq> '''' then (False, compile ov, compile ov = None)
             else (False, None, err))
      in if err' then Meta_MatchesRegexp_loop compile err' m other
         else (case reg of
             None \<Rightarrow> Meta_MatchesRegexp_loop compile err' m other
           | Some f \<Rightarrow>
               if nomatch \<and> f v then False
               else if \<not> nomatch \<and> \<not> f v then False
               else Meta_MatchesRegexp_loop compile err' m other))"

definition Meta_MatchesRegexp :: "regexp_compile \<Rightarrow> meta \<Rightarrow> meta \<Rightarrow> bool" where
  "Meta_MatchesRegexp compile m other = Meta_MatchesRegexp_loop compile False m other"

section \<open>Repositories\<close>

definition SetMeta :: "meta \<Rightarrow> meta \<Rightarrow> repo \<Rightarrow> repo" where
  "SetMeta defaults replace r = r\<lparr>r_Meta := gm_copy replace (gm_copy defaults (r_Meta r))\<rparr>"

definition SetHost :: "string \<Rightarrow> repo \<Rightarrow> repo" where
  "SetHost host r = r\<lparr>r_Meta := Meta_SetHost host (r_Meta r)\<rparr>"

definition Host :: "repo \<Rightarrow> string" where
  "Host r = Meta_Host (r_Meta r)"

definition shardName :: "string \<Rightarrow> int \<Rightarrow> string" where
  "shardName key n = key @ ''-'' @ Itoa n @ ''.afindex''"

text \<open>\<open>make\<close> panics on a negative length; otherwise the loop fills every index in turn.\<close>

definition Shards :: "repo \<Rightarrow> string list outcome" where
  "Shards r =
     (if r_NumShards r < 0 then Panics ''makeslice: len out of range''
      else Returns (map (\<lambda>i. path_Join [r_IndexPath r, shardName (r_Key r) (int i)])
                        [0..<nat (r_NumShards r)]))"

section \<open>Filtering by metadata\<close>

lemma Meta_Matches_set:
  "Meta_Matches m other \<longleftrightarrow>
   (\<forall>(k, v) \<in> set m. case map_of other k of Some ov \<Rightarrow> v = ov | None \<Rightarrow> True)"
  by (induction m other rule: Meta_Matches.induct) (auto split: option.splits)

lemma Meta_Matches_iff:
  "gm_ok m \<Longrightarrow> Meta_Matches m other \<longleftrightarrow>
   (\<forall>k v ov. map_of m k = Some v \<and> map_of other k = Some ov \<longrightarrow> v = ov)"
  by (auto simp: Meta_Matches_set map_of_in_set split: option.splits)

text \<open>One filter string against one value, the specification of \<open>MatchesRegexp\<close>.\<close>

definition filter_accepts :: "regexp_compile \<Rightarrow> string \<Rightarrow> string \<Rightarrow> bool" where
  "filter_accepts compile ov v =
     (if HasPrefix ov ''!'' then (case compile (drop 1 ov) of None \<Rightarrow> True | Some f \<Rightarrow> \<not> f v)
      else if ov = '''' then True
      else (case compile ov of None \<Rightarrow> True | Some f \<Rightarrow> f v))"

lemma Meta_MatchesRegexp_loop_iff:
  "Meta_MatchesRegexp_loop compile err m other \<longleftrightarrow>
   (\<forall>(k, v) \<in> set m. filter_accepts compile (gm_str other k) v)"
proof (induction m arbitrary: err)
  case (Cons kv m)
  obtain k v where kv: "kv = (k, v)" by (cases kv)
  let ?ov = "gm_str other k"
  show ?case
  proof (cases "HasPrefix ?ov ''!''")
    case True
    then show ?thesis
      by (cases "compile (drop 1 ?ov)") (simp_all add: kv filter_accepts_def Cons.IH)
  next
    case False
    then show ?thesis
      by (cases "?ov = ''''"; cases "compile ?ov") (simp_all add: kv filter_accepts_def Cons.IH)
  qed
qed simp

text \<open>
  Exact metadata filtering does not depend on which side is asked or on the order in
  which the maps are visited: two maps match iff every key they share has the same value.
\<close>

theorem Matches_agree_on_shared_keys:
  assumes "gm_ok m" and "gm_ok other"
  shows "Meta_Matches m other =
      (\<forall>k \<in> dom (map_of m) \<inter> dom (map_of other). map_of m k = map_of other k) \<and>
    Meta_Matches m other = Meta_Matches other m"
proof -
  have "Meta_Matches m other =
      (\<forall>k \<in> dom (map_of m) \<inter> dom (map_of other). map_of m k = map_of other k)"
    if "gm_ok m" for m other
    unfolding Meta_Matches_iff [OF that]
  proof (intro iffI ballI allI impI)
    fix k
    assume "\<forall>k v ov. map_of m k = Some v \<and> map_of other k = Some ov \<longrightarrow> v = ov"
      and "k \<in> dom (map_of m) \<inter> dom (map_of other)"
    then show "map_of m k = map_of other k" by (cases "map_of m k"; cases "map_of other k") auto
  next
    fix k v ov
    assume agree: "\<forall>k \<in> dom (map_of m) \<inter> dom (map_of other). map_of m k = map_of other k"
      and both: "map_of m k = Some v \<and> map_of other k = Some ov"
    then have "k \<in> dom (map_of m) \<inter> dom (map_of other)" by (simp add: domIff)
    with agree have "map_of m k = map_of other k" by (rule bspec)
    with both show "v = ov" by auto
  qed
  note eq = this
  have "(\<forall>k \<in> dom (map_of m) \<inter> dom (map_of other). map_of m k = map_of other k) =
      (\<forall>k \<in> dom (map_of other) \<inter> dom (map_of m). map_of other k = map_of m k)"
    by (simp only: Int_commute [of "dom (map_of m)"] eq_commute [of "map_of m _"])
  then show ?thesis by (simp only: eq [OF assms(1)] eq [OF assms(2)] simp_thms)
qed

theorem Matches_agree_on_shared_keys_witness:
  "\<not> Meta_Matches [(''host'', ''a''), (''p'', ''x'')] [(''host'', ''b'')] \<and>
   Meta_Matches [(''q'', ''a''), (''p'', ''x'')] [(''host'', ''b'')]"
  using Matches_agree_on_shared_keys
      [of "[(''host'', ''a''), (''p'', ''x'')]" "[(''host'', ''b'')]"]
    Matches_agree_on_shared_keys
      [of "[(''q'', ''a''), (''p'', ''x'')]" "[(''host'', ''b'')]"]
  by (simp add: gm_ok_def)

text \<open>
  Regular-expression filtering accepts a map iff every value passes the filter of its
  key: a key with no filter, an empty filter or one that does not compile passes, a filter
  \<open>e\<close> passes when it matches, and \<open>!e\<close> exactly when \<open>e\<close> does not. A failed compilation does
  not affect the keys visited after it.
\<close>

theorem MatchesRegexp_filters:
  "Meta_MatchesRegexp compile m other =
     (\<forall>kv \<in> set m. let ov = gm_str other (fst kv) in
        if ov = '''' then True
        else if hd ov = CHR ''!'' then
          (case compile (tl ov) of None \<Rightarrow> True | Some f \<Rightarrow> \<not> f (snd kv))
        else (case compile ov of None \<Rightarrow> True | Some f \<Rightarrow> f (snd kv)))"
proof -
  have "filter_accepts compile ov v =
      (if ov = '''' then True
       else if hd ov = CHR ''!'' then (case compile (tl ov) of None \<Rightarrow> True | Some f \<Rightarrow> \<not> f v)
       else (case compile ov of None \<Rightarrow> True | Some f \<Rightarrow> f v))" for ov v
    by (cases ov) (simp_all add: filter_accepts_def HasPrefix_def)
  then show ?thesis
    by (simp add: Meta_MatchesRegexp_def Meta_MatchesRegexp_loop_iff Let_def split_def)
qed

theorem MatchesRegexp_filters_witness:
  "\<not> Meta_MatchesRegexp (\<lambda>e. if e = ''('' then None else Some (\<lambda>v. prefix e v))
      [(''a'', ''1''), (''foo'', ''bar2'')] [(''a'', ''(''), (''foo'', ''!bar'')]"
  using MatchesRegexp_filters
    [of "\<lambda>e. if e = ''('' then None else Some (\<lambda>v. prefix e v)"
      "[(''a'', ''1''), (''foo'', ''bar2'')]" "[(''a'', ''(''), (''foo'', ''!bar'')]"]
  by (simp add: gm_str_def)

section \<open>Repository metadata and shards\<close>

lemma Host_SetHost [simp]: "Host (SetHost h r) = h"
  by (simp add: Host_def SetHost_def Meta_Host_def Meta_SetHost_def gm_str_def)

lemma gm_ok_SetHost [simp, intro, go_wf]: "gm_ok m \<Longrightarrow> gm_ok (Meta_SetHost h m)"
  by (simp add: Meta_SetHost_def)

lemma gm_ok_Meta_Update [simp, intro, go_wf]: "gm_ok m \<Longrightarrow> gm_ok (Meta_Update other m)"
  by (simp add: Meta_Update_def gm_ok_copy)

lemma Meta_Host_Update:
  "gm_ok other \<Longrightarrow> Meta_Host (Meta_Update other m) =
     (if ''host'' \<in> dom (map_of other) then Meta_Host other else Meta_Host m)"
  by (auto simp: Meta_Host_def Meta_Update_def gm_str_def map_of_gm_copy map_add_def
      split: option.splits)

text \<open>
  \<open>SetMeta\<close> merges three layers: a key of the request wins over the daemon's default,
  and the default over what the repository had; no other field changes.
\<close>

theorem SetMeta_layers:
  assumes "gm_ok defaults" and "gm_ok replace"
  shows "map_of (r_Meta (SetMeta defaults replace r)) k =
      (case map_of replace k of Some v \<Rightarrow> Some v
       | None \<Rightarrow> (case map_of defaults k of Some v \<Rightarrow> Some v | None \<Rightarrow> map_of (r_Meta r) k)) \<and>
    r_Key (SetMeta defaults replace r) = r_Key r \<and>
    r_State (SetMeta defaults replace r) = r_State r"
  using assms by (simp add: SetMeta_def map_of_gm_copy map_add_def split: option.splits)

theorem SetMeta_layers_witness:
  "map_of (r_Meta (SetMeta [(''host'', ''d''), (''port'', ''1'')] [(''host'', ''q'')] NewRepo)) ''host''
     = Some ''q''"
  using SetMeta_layers [of "[(''host'', ''d''), (''port'', ''1'')]" "[(''host'', ''q'')]" NewRepo "''host''"]
  by (simp add: gm_ok_def)

lemma shardName_tail: "shardName key n = key @ (CHR ''-'' # Itoa n @ ''.afindex'')"
  by (simp add: shardName_def)

lemma Itoa_no_slash: "CHR ''/'' \<notin> set (Itoa n)"
proof -
  have "CHR ''/'' \<notin> set (Itoa_nat m)" for m
    using Itoa_nat_digits [of m] by (auto simp: list_all_iff is_digit_def)
  then show ?thesis by (simp add: Itoa_def)
qed

lemma shard_path_inj:
  assumes "path_Join [dir, shardName key m] = path_Join [dir, shardName key n]"
  shows "m = n"
proof -
  let ?v = "\<lambda>n. CHR ''-'' # Itoa n @ ''.afindex''"
  obtain pre where pre: "\<And>v. v \<in> range ?v \<Longrightarrow> path_Join [dir, key @ v] = pre @ v"
    by (rule path_Join_tail [of "\<lambda>v. v \<in> range ?v"]) (auto simp: Itoa_no_slash)
  from assms show ?thesis by (simp add: shardName_tail pre)
qed

text \<open>
  A repository with a non-negative shard count has exactly that many shard files, all
  different, whatever its key and index path; a negative count panics.
\<close>

theorem Shards_distinct:
  "if r_NumShards r < 0 then \<not> returns (Shards r)
   else (\<exists>fs. Shards r = Returns fs \<and> length fs = nat (r_NumShards r) \<and> distinct fs)"
  by (auto simp: Shards_def distinct_map inj_on_def dest!: shard_path_inj)

end
