(* ===== verification/Config.thy ===== *)
theory Config
  imports Repo
begin

text \<open>
  \<open>afind/config.go\<close>, \<open>utils/math.go\<close>, \<open>utils/defaults.go\<close> and the helpers of
  \<open>afind/api/server.go\<close>: timeouts with their defaults, the daemon's host name, whether a host
  is this machine, and the address of a remote daemon.

  Several getters write to the configuration they read (a default timeout, the host name), so
  they return the new configuration. \<open>os.Hostname\<close> is the parameter \<open>hostname\<close>: \<open>None\<close> is its
  error. Listening on sockets is not modelled.
\<close>

section \<open>Integers and defaults\<close>

definition MinInt :: "int \<Rightarrow> int \<Rightarrow> int" where
  "MinInt l r = (if l > r then r else l)"

definition MaxInt :: "int \<Rightarrow> int \<Rightarrow> int" where
  "MaxInt l r = (if l < r then r else l)"

definition DefaultRpcPort :: string where
  "DefaultRpcPort = ''30800''"

text \<open>Nanoseconds.\<close>

definition defaultTimeoutIndex :: duration where "defaultTimeoutIndex = 1800 * 1000000000"
definition defaultTimeoutSearch :: duration where "defaultTimeoutSearch = 30 * 1000000000"
definition defaultTimeoutFind :: duration where "defaultTimeoutFind = 500 * 1000000"
definition defaultTimeoutTcpKeepAlive :: duration where
  "defaultTimeoutTcpKeepAlive = 180 * 1000000000"

lemma MinInt_min [simp]: "MinInt l r = min l r"
  by (simp add: MinInt_def min_def)

lemma MaxInt_max [simp]: "MaxInt l r = max l r"
  by (simp add: MaxInt_def max_def)

section \<open>Configuration\<close>

record config =
  c_IndexInRepo :: bool
  c_IndexRoot :: string
  c_HTTPBind :: string
  c_HTTPSBind :: string
  c_RPCBind :: string
  c_NumShards :: int
  c_MaxSearchC :: int
  c_MaxSearchRepo :: int
  c_MaxSearchReqBe :: int
  c_DeleteRepoOnError :: bool
  c_TimeoutIndex :: duration
  c_TimeoutSearch :: duration
  c_TimeoutFind :: duration
  c_TimeoutTcpKeepAlive :: duration
  c_RepoMeta :: meta
  c_DbFile :: string
  c_TLSCertfile :: string
  c_TLSKeyfile :: string
  c_verbose :: bool

text \<open>The zero value of the struct, with an empty metadata map.\<close>

definition zero_config :: config where
  "zero_config = \<lparr>c_IndexInRepo = False, c_IndexRoot = '''', c_HTTPBind = '''', c_HTTPSBind = '''',
     c_RPCBind = '''', c_NumShards = 0, c_MaxSearchC = 0, c_MaxSearchRepo = 0,
     c_MaxSearchReqBe = 0, c_DeleteRepoOnError = False, c_TimeoutIndex = 0, c_TimeoutSearch = 0,
     c_TimeoutFind = 0, c_TimeoutTcpKeepAlive = 0, c_RepoMeta = [], c_DbFile = '''',
     c_TLSCertfile = '''', c_TLSKeyfile = '''', c_verbose = False\<rparr>"

definition SetVerbose :: "bool \<Rightarrow> config \<Rightarrow> config" where
  "SetVerbose v c = c\<lparr>c_verbose := v\<rparr>"

definition Verbose :: "config \<Rightarrow> bool" where
  "Verbose c = c_verbose c"

definition GetTimeoutIndex :: "config \<Rightarrow> duration \<times> config" where
  "GetTimeoutIndex c =
     (let c' = (if c_TimeoutIndex c = 0 then c\<lparr>c_TimeoutIndex := defaultTimeoutIndex\<rparr> else c)
      in (c_TimeoutIndex c', c'))"

definition GetTimeoutSearch :: "config \<Rightarrow> duration \<times> config" where
  "GetTimeoutSearch c =
     (let c' = (if c_TimeoutSearch c = 0 then c\<lparr>c_TimeoutSearch := defaultTimeoutSearch\<rparr> else c)
      in (c_TimeoutSearch c', c'))"

definition GetTimeoutFind :: "config \<Rightarrow> duration \<times> config" where
  "GetTimeoutFind c =
     (let c' = (if c_TimeoutFind c = 0 then c\<lparr>c_TimeoutFind := defaultTimeoutFind\<rparr> else c)
      in (c_TimeoutFind c', c'))"

definition GetTimeoutTcpKeepAlive :: "config \<Rightarrow> duration \<times> config" where
  "GetTimeoutTcpKeepAlive c =
     (let c' = (if c_TimeoutTcpKeepAlive c = 0
                then c\<lparr>c_TimeoutTcpKeepAlive := defaultTimeoutTcpKeepAlive\<rparr> else c)
      in (c_TimeoutTcpKeepAlive c', c'))"

definition PortRpc :: "config \<Rightarrow> string" where
  "PortRpc c =
     (let port = gm_str (c_RepoMeta c) ''port.rpc'' in if port = '''' then DefaultRpcPort else port)"

definition Config_Host :: "string option \<Rightarrow> config \<Rightarrow> string \<times> config" where
  "Config_Host hostname c =
     (let host = gm_str (c_RepoMeta c) ''host''
      in if host \<noteq> '''' then (host, c)
         else (let hn = (case hostname of None \<Rightarrow> ''localhost'' | Some hn \<Rightarrow> hn)
               in (hn, c\<lparr>c_RepoMeta := gm_put ''host'' hn (c_RepoMeta c)\<rparr>)))"

definition localHostnames :: "string list" where
  "localHostnames = ['''', ''localhost'', ''127.0.0.1'', ''::1'']"

definition IsHostLocal :: "string option \<Rightarrow> string \<Rightarrow> config \<Rightarrow> bool \<times> config" where
  "IsHostLocal hostname host c =
     (if host \<in> set localHostnames then (True, c)
      else (let (own, c1) = Config_Host hostname c
            in if host = own then (True, c1)
               else (let (own', c2) = Config_Host hostname c1
                     in (HasPrefix own' (host @ ''.''), c2))))"

section \<open>Server helpers\<close>

text \<open>\<open>isLocal\<close> of the server package, a second copy of the same test.\<close>

definition isLocal :: "string option \<Rightarrow> config \<Rightarrow> string \<Rightarrow> bool \<times> config" where
  "isLocal hostname config h =
     (if h \<in> set localHostnames then (True, config)
      else (let (own, c1) = Config_Host hostname config
            in if h = own then (True, c1)
               else (let (own', c2) = Config_Host hostname c1
                     in (HasPrefix own' (h @ ''.''), c2))))"

definition getAddress :: "meta \<Rightarrow> string \<Rightarrow> string outcome" where
  "getAddress meta port =
     (if Meta_Host meta = '''' \<and> port = '''' then Panics ''empty address passed to getAddress''
      else (let port' = (if port = '''' then '':'' @ DefaultRpcPort
                         else if hd port \<noteq> CHR '':'' then '':'' @ port else port)
            in Returns (Meta_Host meta @ port')))"

section \<open>Lemmas\<close>

lemma Config_Host_stable:
  assumes "Config_Host hostname c = (h, c')" and "hostname \<noteq> Some ''''"
  shows "h \<noteq> '''' \<and> Config_Host hostname c' = (h, c')"
proof (cases "gm_str (c_RepoMeta c) ''host'' = ''''")
  case True
  let ?hn = "case hostname of None \<Rightarrow> ''localhost'' | Some hn \<Rightarrow> hn"
  from True assms(1) have "h = ?hn" "c' = c\<lparr>c_RepoMeta := gm_put ''host'' ?hn (c_RepoMeta c)\<rparr>"
    by (auto simp: Config_Host_def Let_def)
  moreover have "?hn \<noteq> ''''" using assms(2) by (cases hostname) auto
  ultimately show ?thesis by (simp add: Config_Host_def Let_def)
next
  case False
  with assms(1) show ?thesis by (auto simp: Config_Host_def Let_def)
qed

lemma isLocal_eq:
  "isLocal hostname c h =
     (if h \<in> set localHostnames then (True, c)
      else (let (own, c') = Config_Host hostname c
            in (h = own \<or> HasPrefix (fst (Config_Host hostname c')) (h @ ''.''),
                if h = own then c' else snd (Config_Host hostname c'))))"
  by (simp add: isLocal_def split_def Let_def)

lemma isLocal_states:
  assumes "hostname \<noteq> Some ''''" "Config_Host hostname c = (own, c1)" "d \<in> {c, c1}"
  shows "fst (isLocal hostname d h) = (h \<in> set localHostnames \<or> h = own \<or> HasPrefix own (h @ ''.''))"
    and "fst (Config_Host hostname d) = own" and "snd (isLocal hostname d h) \<in> {d, c1}"
  using assms(3) Config_Host_stable [OF assms(2,1)] assms(2) by (auto simp: isLocal_eq)

text \<open>What a daemon takes for local, and its port, do not change by asking.\<close>

lemma isLocal_stable:
  assumes "hostname \<noteq> Some ''''"
  shows "fst (isLocal hostname (snd (isLocal hostname c h)) h') = fst (isLocal hostname c h')"
    and "PortRpc (snd (isLocal hostname c h)) = PortRpc c"
proof -
  obtain own c1 where host: "Config_Host hostname c = (own, c1)" by (cases "Config_Host hostname c")
  have c': "snd (isLocal hostname c h) \<in> {c, c1}" using isLocal_states(3) [OF assms host, of c] by simp
  then show "fst (isLocal hostname (snd (isLocal hostname c h)) h') = fst (isLocal hostname c h')"
    using isLocal_states(1) [OF assms host] by auto
  have "PortRpc c1 = PortRpc c"
    using host by (auto simp: Config_Host_def PortRpc_def Let_def split: if_splits)
  then show "PortRpc (snd (isLocal hostname c h)) = PortRpc c" using c' by auto
qed

text \<open>
  A host is local exactly when it is one of the loop-back names, the daemon's own host
  name, or a prefix of it that ends at a dot (a stripped domain); both copies of the test
  agree; and asking does not change the answer of a later call.
\<close>

theorem isLocal_spec:
  assumes "hostname \<noteq> Some ''''"
  shows "let own = fst (Config_Host hostname c); c' = snd (isLocal hostname c h) in
    (fst (isLocal hostname c h) =
      (h \<in> {'''', ''localhost'', ''127.0.0.1'', ''::1''} \<or> h = own \<or> (\<exists>dom. own = h @ ''.'' @ dom))) \<and>
    IsHostLocal hostname h c = isLocal hostname c h \<and>
    fst (Config_Host hostname c') = own \<and>
    fst (isLocal hostname c' h') = fst (isLocal hostname c h')"
proof -
  obtain own c1 where host: "Config_Host hostname c = (own, c1)" by (cases "Config_Host hostname c")
  note states = isLocal_states [OF assms host]
  have c': "snd (isLocal hostname c h) \<in> {c, c1}" using states(3) [of c] by simp
  have "HasPrefix own (h @ ''.'') = (\<exists>dom. own = h @ ''.'' @ dom)"
    by (auto simp: HasPrefix_def prefix_def)
  moreover have "IsHostLocal hostname h c = isLocal hostname c h"
    by (simp add: isLocal_def IsHostLocal_def)
  ultimately show ?thesis
    using c' states(1,2) host by (auto simp: localHostnames_def Let_def)
qed

theorem isLocal_spec_witness:
  "fst (isLocal (Some ''testhost.location.example.com'') zero_config ''testhost.location'')"
  using isLocal_spec [of "Some ''testhost.location.example.com''" zero_config "''testhost.location''"]
  by (simp add: Config_Host_def zero_config_def gm_str_def Let_def)

text \<open>
  The address of a remote daemon can always be formed from a request's metadata and the
  configured port: \<open>getAddress\<close> panics only when host and port are both empty, which the
  configured port never is, and the address is the host, one colon and the port.
\<close>

theorem getAddress_PortRpc:
  "(\<exists>addr. getAddress meta (PortRpc c) = Returns addr \<and>
     (PortRpc c = '':'' @ p \<or> PortRpc c = p \<and> \<not> HasPrefix p '':'' \<longrightarrow>
        addr = Meta_Host meta @ '':'' @ p)) \<and>
   (returns (getAddress meta port) = (Meta_Host meta \<noteq> '''' \<or> port \<noteq> ''''))"
proof -
  have port: "PortRpc c \<noteq> ''''" by (simp add: PortRpc_def DefaultRpcPort_def Let_def)
  have "PortRpc c = p \<Longrightarrow> \<not> HasPrefix p '':'' \<Longrightarrow> hd p \<noteq> CHR '':''"
    using port by (cases p) (auto simp: HasPrefix_def)
  then show ?thesis using port by (auto simp: getAddress_def Let_def)
qed

theorem getAddress_PortRpc_witness:
  "getAddress [(''host'', ''foobar'')] (PortRpc (zero_config\<lparr>c_RepoMeta := [(''port.rpc'', ''1234'')]\<rparr>))
    = Returns ''foobar:1234''"
  using getAddress_PortRpc [of "[(''host'', ''foobar'')]"
      "zero_config\<lparr>c_RepoMeta := [(''port.rpc'', ''1234'')]\<rparr>" "''1234''" "''''"]
  by (simp add: PortRpc_def gm_str_def Meta_Host_def HasPrefix_def Let_def)

end
