(* ===== verification/Merge.thy ===== *)
theory Merge
  imports Prelude "HOL-Library.Multiset"
begin

text \<open>
  The contract that the result types of searching and finding share: merging another result
  into one overrides its entries. Servers merge the results of shards and of other hosts in
  the order in which they happen to arrive, so what matters is when that order is immaterial.

  \<open>view\<close> reads one entry of a result (a line of a file of a repository, an error, ...).
\<close>

locale result_merge =
  fixes merge :: "'r \<Rightarrow> 'r \<Rightarrow> 'r"
    and view :: "'r \<Rightarrow> 'k \<Rightarrow> 'v option"
    and wf :: "'r \<Rightarrow> bool"
  assumes view_merge: "wf x \<Longrightarrow> wf r \<Longrightarrow> view (merge x r) = view r ++ view x"
    and wf_merge: "wf x \<Longrightarrow> wf r \<Longrightarrow> wf (merge x r)"
begin

definition agree :: "'r list \<Rightarrow> bool" where
  "agree ins \<longleftrightarrow> (\<forall>a \<in> set ins. \<forall>b \<in> set ins. \<forall>k v w.
     view a k = Some v \<longrightarrow> view b k = Some w \<longrightarrow> v = w)"

lemma agree_Cons: "agree (a # ins) \<Longrightarrow> agree ins"
  by (auto simp: agree_def)

lemma wf_fold: "wf r \<Longrightarrow> (\<And>a. a \<in> set ins \<Longrightarrow> wf a) \<Longrightarrow> wf (fold merge ins r)"
  by (induction ins arbitrary: r) (auto intro: wf_merge)

lemma view_fold_none:
  assumes "wf r" "\<And>a. a \<in> set ins \<Longrightarrow> wf a" "\<And>a. a \<in> set ins \<Longrightarrow> view a k = None"
  shows "view (fold merge ins r) k = view r k"
  using assms by (induction ins arbitrary: r) (auto simp: wf_merge view_merge map_add_def)

lemma view_fold_some:
  assumes "wf r" "\<And>a. a \<in> set ins \<Longrightarrow> wf a" "agree ins" "a \<in> set ins" "view a k = Some v"
  shows "view (fold merge ins r) k = Some v"
proof -
  have step: "view (merge b r) k = (case view b k of None \<Rightarrow> view r k | Some w \<Rightarrow> Some w)"
    if "wf b" "wf r" for b r
    using that by (simp add: view_merge map_add_def)
  have same: "view b k = None \<or> view b k = Some v" if "b \<in> set ins" for b
    using assms(3-5) that unfolding agree_def by (metis not_Some_eq)
  have keep: "view (fold merge bs r) k = Some v"
    if "set bs \<subseteq> set ins" "wf r" "view r k = Some v" for bs r
    using that
  proof (induction bs arbitrary: r)
    case (Cons b bs)
    then have "b \<in> set ins" by simp
    with assms(2) same [of b] Cons.prems have "view (merge b r) k = Some v" "wf (merge b r)"
      by (auto simp: step wf_merge)
    with Cons show ?case by simp
  qed simp
  obtain as bs where ins: "ins = as @ a # bs" using assms(4) by (metis split_list)
  have "wf (fold merge as r)" using assms(1,2) by (intro wf_fold) (auto simp: ins)
  with assms(2,4,5) have "wf (merge a (fold merge as r))" "view (merge a (fold merge as r)) k = Some v"
    by (auto simp: wf_merge step)
  then have "view (fold merge bs (merge a (fold merge as r))) k = Some v"
    by (intro keep) (auto simp: ins)
  then show ?thesis by (simp add: ins)
qed

text \<open>The order of arrival is immaterial when the results agree where they overlap.\<close>

lemma view_fold_order:
  assumes "wf r" "\<And>a. a \<in> set ins \<Longrightarrow> wf a" "agree ins" "set ins = set ins'"
  shows "view (fold merge ins r) = view (fold merge ins' r)"
proof
  fix k
  have "agree ins'" using assms(3,4) by (simp add: agree_def)
  then show "view (fold merge ins r) k = view (fold merge ins' r) k"
    using assms view_fold_none [of r ins k] view_fold_none [of r ins' k]
      view_fold_some [of r ins _ k] view_fold_some [of r ins' _ k]
    by (cases "\<exists>a \<in> set ins. view a k \<noteq> None") fastforce+
qed

text \<open>What merging fills in, and how much: results that have no entry in common add up.\<close>

lemma dom_fold:
  "wf r \<Longrightarrow> (\<And>a. a \<in> set ins \<Longrightarrow> wf a) \<Longrightarrow>
    dom (view (fold merge ins r)) = dom (view r) \<union> (\<Union>a \<in> set ins. dom (view a))"
proof (induction ins arbitrary: r)
  case (Cons a ins)
  then have "wf (merge a r)" "dom (view (merge a r)) = dom (view r) \<union> dom (view a)"
    by (auto simp: wf_merge view_merge)
  with Cons.IH [of "merge a r"] Cons.prems(2) show ?case by auto
qed simp

definition apart :: "'r list \<Rightarrow> bool" where
  "apart ins \<longleftrightarrow> (\<forall>a \<in> set ins. finite (dom (view a))) \<and>
     (\<Sum>a\<leftarrow>ins. card (dom (view a))) = card (\<Union>a \<in> set ins. dom (view a))"

lemma card_sum_le:
  "\<forall>a \<in> set ins. finite (dom (view a)) \<Longrightarrow>
    card (\<Union>a \<in> set ins. dom (view a)) \<le> (\<Sum>a\<leftarrow>ins. card (dom (view a)))"
proof (induction ins)
  case (Cons a ins)
  have "card (\<Union>b \<in> set (a # ins). dom (view b)) \<le> card (dom (view a)) + card (\<Union>b \<in> set ins. dom (view b))"
    by (simp add: card_Un_le)
  with Cons show ?case by simp
qed simp

lemma apart_part:
  assumes "apart ins" "mset (as @ bs) = mset ins"
  shows "apart as"
proof -
  have set: "set ins = set as \<union> set bs" using mset_eq_setD [OF assms(2)] by simp
  have fin: "\<forall>a \<in> set as. finite (dom (view a))" "\<forall>a \<in> set bs. finite (dom (view a))"
    using assms(1) by (auto simp: apart_def set)
  have "mset (map f ins) = mset (map f (as @ bs))" for f :: "'r \<Rightarrow> nat" using assms(2) by (metis mset_map)
  then have sum: "(\<Sum>a\<leftarrow>ins. f a) = (\<Sum>a\<leftarrow>as. f a) + (\<Sum>a\<leftarrow>bs. f a)" for f :: "'r \<Rightarrow> nat"
    by (metis map_append sum_list_append sum_mset_sum_list)
  have "card (\<Union>a \<in> set ins. dom (view a)) \<le> card (\<Union>a \<in> set as. dom (view a)) + card (\<Union>a \<in> set bs. dom (view a))"
    unfolding set UN_Un by (rule card_Un_le)
  with card_sum_le [OF fin(1)] card_sum_le [OF fin(2)] assms(1) fin(1) show ?thesis
    unfolding apart_def sum by auto
qed

lemma card_fold:
  assumes "wf r" "\<And>a. a \<in> set ins \<Longrightarrow> wf a" "view r = (\<lambda>_. None)" "apart ins"
  shows "card (dom (view (fold merge ins r))) = (\<Sum>a\<leftarrow>ins. card (dom (view a)))"
  using dom_fold [OF assms(1,2)] assms(3,4) by (simp add: apart_def)

end

end
