(* ===== verification/Grepper.thy ===== *)
theory Grepper
  imports Errs
begin

text \<open>
  The text scanner of \<open>afind/grepper.go\<close>: counting newlines, the lines of context before and
  after a match, and \<open>reader\<close>, which reads a file through a buffer of fixed capacity and
  records the lines that match.

  The compiled expression is a parameter: \<open>rmatch b beginText endText\<close> is \<open>Regexp.Match\<close> of the
  codesearch package. The file is what remains to be read and the error its reads end with.
  Positions in the buffer are natural numbers; every slice the code takes starts at or before
  its end. The reading loop may run for ever, so it is an optional value.
\<close>

section \<open>Newlines\<close>

definition nl :: char where
  "nl = CHR 0x0A"

function countNL_loop :: "int \<Rightarrow> string \<Rightarrow> int" where
  "countNL_loop n b =
     (let i = IndexByte b nl in if i < 0 then n else countNL_loop (n + 1) (drop (nat (i + 1)) b))"
  by pat_completeness auto
termination
proof (relation "measure (\<lambda>(n, b). length b)")
  fix n :: int and b :: string and i
  assume "i = IndexByte b nl" "\<not> i < 0"
  then show "((n + 1, drop (nat (i + 1)) b), n, b) \<in> measure (\<lambda>(n, b). length b)"
    by (cases rule: IndexByte_cases [of b nl]) auto
qed simp

declare countNL_loop.simps [simp del]

definition countNL :: "string \<Rightarrow> int" where
  "countNL b = countNL_loop 0 b"

section \<open>Context lines\<close>

text \<open>The lines before \<open>linestart\<close>, nearest first, at most \<open>n\<close> and none before \<open>chunkstart\<close>.\<close>

function getPreCtx_loop ::
  "string \<Rightarrow> int \<Rightarrow> nat \<Rightarrow> nat \<Rightarrow> string list \<Rightarrow> string list" where
  "getPreCtx_loop b n chunkstart ctxstart result =
     (if n > 0 then
        (if ctxstart \<le> chunkstart \<or> length b < ctxstart - chunkstart then result
         else (let newctxstart =
                 nat (LastIndexByte (slice b chunkstart (ctxstart - 1)) nl + 1) + chunkstart;
                   newb = slice b newctxstart ctxstart;
                   result' = (if length newb > 0 then result @ [newb] else result)
               in getPreCtx_loop b (n - 1) chunkstart newctxstart result'))
      else result)"
  by pat_completeness auto
termination by (relation "measure (\<lambda>(b, n, chunkstart, ctxstart, result). nat n)") auto

declare getPreCtx_loop.simps [simp del]

definition getPreCtx :: "string \<Rightarrow> int \<Rightarrow> nat \<Rightarrow> nat \<Rightarrow> string list" where
  "getPreCtx b n chunkstart linestart = getPreCtx_loop b n chunkstart linestart []"

text \<open>
  The pieces after the match. The search for the end of each piece always looks at
  \<open>b[chunkstart:end]\<close>, also once \<open>ctxstart\<close> has moved on.
\<close>

function getPostCtx_loop ::
  "string \<Rightarrow> int \<Rightarrow> nat \<Rightarrow> nat \<Rightarrow> nat \<Rightarrow> string list \<Rightarrow> string list" where
  "getPostCtx_loop b n chunkstart endp ctxstart result =
     (if n \<ge> 0 then
        (if ctxstart \<ge> endp then result
         else (let newctxstart = nat (IndexByte (slice b chunkstart endp) nl + 1) + ctxstart;
                   newctxstart' = (if newctxstart > endp then endp else newctxstart);
                   result' = result @ [slice b ctxstart newctxstart']
               in getPostCtx_loop b (n - 1) chunkstart endp newctxstart' result'))
      else result)"
  by pat_completeness auto
termination by (relation "measure (\<lambda>(b, n, chunkstart, endp, ctxstart, result). nat (n + 1))") auto

declare getPostCtx_loop.simps [simp del]

definition getPostCtx :: "string \<Rightarrow> int \<Rightarrow> nat \<Rightarrow> nat \<Rightarrow> string list" where
  "getPostCtx b n chunkstart endp =
     (if n = 0 then []
      else (let result = getPostCtx_loop b n chunkstart endp chunkstart []
            in if length result > 0 then tl result else result))"

section \<open>Scanning the buffer\<close>

type_synonym regexp_match = "string \<Rightarrow> bool \<Rightarrow> bool \<Rightarrow> int"

text \<open>The options of a \<open>grep\<close> value: \<open>g_buf\<close> is the capacity of its buffer once allocated.\<close>

record grep =
  g_filename :: string
  g_root :: string
  g_buf :: "nat option"
  g_ctxPre :: int
  g_ctxPost :: int
  g_ctxBoth :: int

definition newGrep :: "string \<Rightarrow> string \<Rightarrow> grep" where
  "newGrep ixfilename root = \<lparr>g_filename = ixfilename, g_root = root, g_buf = None,
     g_ctxPre = 0, g_ctxPost = 0, g_ctxBoth = 0\<rparr>"

text \<open>The local variables of \<open>reader\<close> that live through its loops.\<close>

record scan =
  s_lineno :: int
  s_nmatches :: int
  s_beginText :: bool
  s_Match :: bool
  s_matches :: "(string, string) gomap"

fun put_pre :: "int \<Rightarrow> string list \<Rightarrow> (string, string) gomap \<Rightarrow> (string, string) gomap" where
  "put_pre ctxline [] m = m"
| "put_pre ctxline (b # bs) m = put_pre (ctxline - 1) bs (gm_put (Itoa (ctxline - 1)) b m)"

fun put_post :: "int \<Rightarrow> string list \<Rightarrow> (string, string) gomap \<Rightarrow> (string, string) gomap" where
  "put_post ctxline [] m = m"
| "put_post ctxline (b # bs) m = put_post (ctxline + 1) bs (gm_put (Itoa (ctxline + 1)) b m)"

definition npre :: "grep \<Rightarrow> int" where
  "npre g = (if g_ctxPre g > g_ctxBoth g then g_ctxPre g else g_ctxBoth g)"

definition npost :: "grep \<Rightarrow> int" where
  "npost g = (if g_ctxPost g > g_ctxBoth g then g_ctxPost g else g_ctxBoth g)"

text \<open>The body of the inner loop once a match is found at \<open>m1\<close>; also the next \<open>chunkStart\<close>.\<close>

definition scan_hit :: "grep \<Rightarrow> string \<Rightarrow> nat \<Rightarrow> nat \<Rightarrow> nat \<Rightarrow> scan \<Rightarrow> scan \<times> nat" where
  "scan_hit g buf endp chunkStart m1 s =
     (let lineStart = nat (LastIndexByte (slice buf chunkStart m1) nl + 1) + chunkStart;
          lineEnd = (if m1 + 1 > endp then endp else m1 + 1);
          s = s\<lparr>s_Match := True, s_lineno := s_lineno s + countNL (slice buf chunkStart lineStart)\<rparr>;
          s = (if lineStart \<noteq> lineEnd
               then s\<lparr>s_matches := gm_put (Itoa (s_lineno s)) (slice buf lineStart lineEnd) (s_matches s),
                      s_nmatches := s_nmatches s + 1\<rparr>
               else s\<lparr>s_Match := False\<rparr>);
          s = (if npre g > 0 \<and> s_Match s
               then s\<lparr>s_matches :=
                 put_pre (s_lineno s) (getPreCtx buf 3 chunkStart lineStart) (s_matches s)\<rparr>
               else s);
          s = (if npost g > 0 \<and> s_Match s
               then s\<lparr>s_matches :=
                 put_post (s_lineno s) (getPostCtx buf 3 m1 endp) (s_matches s)\<rparr>
               else s)
      in (s\<lparr>s_lineno := s_lineno s + 1\<rparr>, lineEnd))"

lemma snd_scan_hit: "snd (scan_hit g buf endp chunkStart m1 s) = min endp (m1 + 1)"
  by (simp add: scan_hit_def Let_def)

function scan_chunk ::
  "regexp_match \<Rightarrow> grep \<Rightarrow> string \<Rightarrow> nat \<Rightarrow> bool \<Rightarrow> nat \<Rightarrow> scan \<Rightarrow> scan \<times> nat" where
  "scan_chunk rmatch g buf endp endText chunkStart s =
     (if chunkStart < endp then
        (let m = rmatch (slice buf chunkStart endp) (s_beginText s) endText;
             m1 = m + int chunkStart;
             s = s\<lparr>s_beginText := False\<rparr>
         in if m1 < int chunkStart then (s, chunkStart)
            else (let hit = scan_hit g buf endp chunkStart (nat m1) s
                  in scan_chunk rmatch g buf endp endText (snd hit) (fst hit)))
      else (s, chunkStart))"
  by pat_completeness auto
termination
  by (relation "measure (\<lambda>(rmatch, g, buf, endp, endText, chunkStart, s). endp - chunkStart)")
    (auto simp: snd_scan_hit)

declare scan_chunk.simps [simp del]

section \<open>Reading\<close>

datatype read_error = EOF | UnexpectedEOF | ReadError go_error

record source =
  io_data :: string
  io_err :: read_error

text \<open>\<open>io.ReadFull\<close> into a buffer with room for \<open>k\<close> bytes; a full read reports no error.\<close>

definition ReadFull :: "nat \<Rightarrow> source \<Rightarrow> string \<times> read_error option \<times> source" where
  "ReadFull k r =
     (if k \<le> length (io_data r) then (take k (io_data r), None, r\<lparr>io_data := drop k (io_data r)\<rparr>)
      else (io_data r,
            Some (if io_err r = EOF \<and> io_data r \<noteq> [] then UnexpectedEOF else io_err r),
            r\<lparr>io_data := []\<rparr>))"

partial_function (option) reader_loop ::
  "regexp_match \<Rightarrow> grep \<Rightarrow> nat \<Rightarrow> string \<Rightarrow> source \<Rightarrow> bool \<Rightarrow> scan \<Rightarrow> (scan \<times> read_error) option"
where
  "reader_loop rmatch g bufcap buf r endText s =
     (case ReadFull (bufcap - length buf) r of (chunk, rerr, r') \<Rightarrow>
        (let buf1 = buf @ chunk;
             endp = (if rerr = None then nat (LastIndexByte buf1 nl + 1) else length buf1);
             endText1 = (if rerr = None then endText else True);
             sc = scan_chunk rmatch g buf1 endp endText1 0 s;
             s1 = (if rerr = None
                   then (fst sc)\<lparr>s_lineno := s_lineno (fst sc) + countNL (slice buf1 (snd sc) endp)\<rparr>
                   else fst sc);
             buf2 = drop endp buf1
         in (if buf2 = [] \<and> rerr \<noteq> None then Some (s1, the rerr)
             else reader_loop rmatch g bufcap buf2 r' endText1 s1)))"

definition bufSize :: nat where
  "bufSize = 2 ^ 20"

definition init_scan :: scan where
  "init_scan = \<lparr>s_lineno = 1, s_nmatches = 0, s_beginText = True, s_Match = False, s_matches = []\<rparr>"

text \<open>The number of matches, the lines found and the error, or \<open>None\<close> when it never returns.\<close>

definition reader ::
  "regexp_match \<Rightarrow> grep \<Rightarrow> source \<Rightarrow> (int \<times> (string, string) gomap \<times> go_error option) option" where
  "reader rmatch g r =
     map_option
       (\<lambda>(s, rerr). (s_nmatches s, s_matches s, case rerr of ReadError e \<Rightarrow> Some e | _ \<Rightarrow> None))
       (reader_loop rmatch g (case g_buf g of None \<Rightarrow> bufSize | Some n \<Rightarrow> n) [] r False init_scan)"

end
