(* ===== verification/Grepper_Lines.thy ===== *)
theory Grepper_Lines
  imports Grepper
begin

text \<open>
  The specification side of the text scanner: a text as its list of lines, the position a
  line-oriented expression reports, and what the helper functions of the scanner compute in
  terms of lines. A line keeps its newline; only the last one may lack it.
\<close>

section \<open>Lines of a text\<close>

fun lines :: "string \<Rightarrow> string list" where
  "lines [] = []"
| "lines (c # cs) =
     (if c = nl then [nl] # lines cs
      else (case lines cs of [] \<Rightarrow> [[c]] | l # ls \<Rightarrow> (c # l) # ls))"

definition complete :: "string \<Rightarrow> bool" where
  "complete b \<longleftrightarrow> b = [] \<or> last b = nl"

definition strip :: "string \<Rightarrow> string" where
  "strip l = (if l \<noteq> [] \<and> last l = nl then butlast l else l)"

lemma complete_Nil [simp]: "complete []"
  by (simp add: complete_def)

lemma complete_Cons: "complete (c # cs) \<longleftrightarrow> (if cs = [] then c = nl else complete cs)"
  by (simp add: complete_def)

lemma lines_eq_Nil [simp]: "lines b = [] \<longleftrightarrow> b = []"
  by (cases b) (auto split: list.splits)

lemma concat_lines [simp]: "concat (lines b) = b"
  by (induction b) (auto split: list.splits)

lemma lines_append: "complete a \<Longrightarrow> lines (a @ b) = lines a @ lines b"
  by (induction a) (auto simp: complete_Cons split: list.splits if_splits)

lemma complete_nl [simp]: "complete (a @ nl # b) \<longleftrightarrow> complete b"
  by (cases b) (auto simp: complete_def)

lemma complete_append: "complete a \<Longrightarrow> complete b \<Longrightarrow> complete (a @ b)"
  by (cases b rule: rev_cases) (auto simp: complete_def)

lemma complete_no_nl: "nl \<notin> set a \<Longrightarrow> complete a \<longleftrightarrow> a = []"
  by (metis complete_def last_in_set)

lemma lines_no_nl: "nl \<notin> set a \<Longrightarrow> a \<noteq> [] \<Longrightarrow> lines a = [a]"
proof (induction a)
  case (Cons c a)
  then show ?case by (cases "a = []") auto
qed simp

lemma lines_line: "nl \<notin> set a \<Longrightarrow> lines (a @ nl # b) = (a @ [nl]) # lines b"
  by (induction a) (auto split: list.splits)

text \<open>A line is a text without newlines, followed by one unless it ends the text.\<close>

lemma lines_induct [case_names Nil last line]:
  assumes "P []" and "\<And>a. a \<noteq> [] \<Longrightarrow> nl \<notin> set a \<Longrightarrow> P a"
    and "\<And>a b. nl \<notin> set a \<Longrightarrow> P b \<Longrightarrow> P (a @ nl # b)"
  shows "P b"
proof (induction "length b" arbitrary: b rule: less_induct)
  case less
  show ?case
  proof (cases "nl \<in> set b")
    case True
    then obtain a c where "b = a @ nl # c" "nl \<notin> set a" by (metis split_list_first)
    with less assms(3) show ?thesis by simp
  next
    case False
    with assms(1,2) show ?thesis by (cases "b = []") auto
  qed
qed

lemma lines_nonempty: "l \<in> set (lines b) \<Longrightarrow> l \<noteq> []"
  by (induction b rule: lines_induct) (auto simp: lines_no_nl lines_line)

lemma strip_snoc [simp]: "strip (a @ [nl]) = a"
  by (simp add: strip_def)

lemma strip_id: "nl \<notin> set a \<Longrightarrow> strip a = a"
  unfolding strip_def by (metis last_in_set)

lemma strip_no_nl: "l \<in> set (lines b) \<Longrightarrow> nl \<notin> set (strip l)"
  by (induction b rule: lines_induct) (auto simp: lines_no_nl lines_line strip_id)

lemma complete_concat: "(\<And>l. l \<in> set ls \<Longrightarrow> complete l) \<Longrightarrow> complete (concat ls)"
  by (induction ls) (auto intro: complete_append)

lemma lines_split:
  assumes "lines b = as @ l # bs"
  shows "complete (concat as)" "lines (concat as) = as" "lines (concat bs) = bs"
    "bs \<noteq> [] \<Longrightarrow> complete l" "complete b \<Longrightarrow> complete l"
proof -
  have "complete (concat as) \<and> lines (concat as) = as \<and> lines (concat bs) = bs \<and>
      (bs \<noteq> [] \<or> complete b \<longrightarrow> complete l)"
    using assms
  proof (induction b arbitrary: as rule: lines_induct)
    case (last a)
    then show ?case by (cases as) (auto simp: lines_no_nl)
  next
    case (line a b)
    note eq = line.prems [unfolded lines_line [OF line.hyps(1)]]
    show ?case
    proof (cases as)
      case Nil
      with eq have "l = a @ [nl]" "bs = lines b" by auto
      with Nil show ?thesis by (simp add: complete_def)
    next
      case (Cons a' as')
      with eq have a': "a' = a @ [nl]" and "lines b = as' @ l # bs" by auto
      with line.IH have "complete (concat as') \<and> lines (concat as') = as' \<and>
          lines (concat bs) = bs \<and> (bs \<noteq> [] \<or> complete b \<longrightarrow> complete l)" by blast
      moreover have "complete a'" by (simp add: a' complete_def)
      moreover from this have "lines (a' @ concat as') = lines a' @ lines (concat as')"
        by (rule lines_append)
      moreover have "lines a' = [a']" using line.hyps(1) lines_line [of a "[]"] by (simp add: a')
      ultimately show ?thesis using Cons by (auto intro: complete_append)
    qed
  qed simp
  then show "complete (concat as)" "lines (concat as) = as" "lines (concat bs) = bs"
    "bs \<noteq> [] \<Longrightarrow> complete l" "complete b \<Longrightarrow> complete l" by auto
qed

section \<open>Newlines and positions\<close>

lemma countNL_loop_eq: "countNL_loop n b = n + int (count_list b nl)"
proof (induction n b rule: countNL_loop.induct)
  case (1 n b)
  show ?case
  proof (cases rule: IndexByte_cases [of b nl])
    case a: 1
    then have "count_list b nl = 0" by simp
    with a show ?thesis by (subst countNL_loop.simps) simp
  next
    case (2 k)
    then obtain u v where b: "b = u @ nl # v" and u: "length u = k" "nl \<notin> set u"
      by (metis id_take_nth_drop length_take min.absorb4)
    from 2 "1" [of "int k"] have "countNL_loop (n + 1) (drop (Suc k) b)
        = n + 1 + int (count_list (drop (Suc k) b) nl)" by (simp add: nat_add_distrib)
    moreover have "count_list u nl = 0" using u by simp
    ultimately show ?thesis using 2 u
      by (subst countNL_loop.simps) (simp add: b nat_add_distrib)
  qed
qed

lemma countNL_count: "countNL b = int (count_list b nl)"
  by (simp add: countNL_def countNL_loop_eq)

lemma countNL_append: "countNL (a @ b) = countNL a + countNL b"
  by (simp add: countNL_count)

lemma countNL_complete: "complete b \<Longrightarrow> countNL b = int (length (lines b))"
proof (induction b rule: lines_induct)
  case (last a)
  then show ?case by (simp add: complete_no_nl)
next
  case (line a b)
  have "complete b" using line.prems by simp
  moreover have "count_list a nl = 0" using line.hyps(1) by simp
  ultimately show ?case using line.IH by (simp add: countNL_count lines_line line.hyps(1))
qed (simp add: countNL_count)

text \<open>The start of the last, unfinished line of a text.\<close>

lemma LastIndexByte_complete:
  "complete a \<Longrightarrow> nl \<notin> set b \<Longrightarrow> LastIndexByte (a @ b) nl + 1 = int (length a)"
  by (cases a rule: rev_cases) (auto simp: complete_def LastIndexByte_append)

lemma split_last_nl:
  obtains a b where "buf = a @ b" "complete a" "nl \<notin> set b"
proof (cases "nl \<in> set buf")
  case True
  then obtain a b where "buf = a @ nl # b" "nl \<notin> set b" by (metis split_list_last)
  then show thesis by (intro that [of "a @ [nl]" b]) (auto simp: complete_def)
next
  case False
  then show thesis by (intro that [of "[]" buf]) auto
qed

section \<open>Context\<close>

text \<open>
  \<open>getPreCtx\<close> started at the end of a complete chunk returns its last lines, nearest first.
\<close>

lemma getPreCtx_loop_lines:
  assumes "chunkstart \<le> ctxstart" "ctxstart \<le> length b" "complete (slice b chunkstart ctxstart)"
  shows "getPreCtx_loop b n chunkstart ctxstart result
    = result @ take (nat n) (rev (lines (slice b chunkstart ctxstart)))"
  using assms
proof (induction b n chunkstart ctxstart result rule: getPreCtx_loop.induct)
  case (1 b n cs ctxstart result)
  show ?case
  proof (cases "n > 0 \<and> cs < ctxstart")
    case False
    then show ?thesis using "1.prems" by (subst getPreCtx_loop.simps) auto
  next
    case True
    let ?t = "slice b cs ctxstart"
    have len: "length ?t = ctxstart - cs" using "1.prems" by simp
    with True have "?t \<noteq> []" by (metis list.size(3) zero_less_diff less_numeral_extra(3))
    with "1.prems"(3) obtain t where t: "?t = t @ [nl]"
      by (metis append_butlast_last_id complete_def)
    with len have lt: "length t = ctxstart - 1 - cs" by (metis diff_commute length_append_singleton
        diff_Suc_1)
    obtain u v where uv: "t = u @ v" "complete u" "nl \<notin> set v" by (rule split_last_nl)
    have sl: "slice b cs (ctxstart - 1) = t"
    proof -
      have "slice b cs (ctxstart - 1) = take (ctxstart - 1 - cs) ?t"
        by (simp add: slice_def min_def)
      then show ?thesis using t lt by simp
    qed
    define new where "new = nat (LastIndexByte (slice b cs (ctxstart - 1)) nl + 1) + cs"
    have new: "new = cs + length u"
      unfolding new_def sl uv(1) using LastIndexByte_complete [OF uv(2,3)] by simp
    have "length u \<le> ctxstart - Suc cs" using lt uv(1) by simp
    with True have bounds: "new < ctxstart" unfolding new by linarith
    have "cs \<le> new" using new by simp
    have pre: "slice b cs new = u"
    proof -
      have "slice b cs new = take (length u) ?t"
        using bounds by (simp add: slice_def new min_def)
      then show ?thesis by (simp add: t uv(1))
    qed
    have newb: "slice b new ctxstart = v @ [nl]"
    proof -
      have "slice b cs new @ slice b new ctxstart = ?t"
        using bounds new by (intro slice_append) auto
      then show ?thesis by (simp add: pre t uv(1))
    qed
    have lines: "lines ?t = lines u @ [v @ [nl]]"
      using lines_append [OF uv(2), of "v @ [nl]"] lines_line [OF uv(3), of "[]"]
      by (simp add: t uv(1))
    from True have "\<not> (ctxstart \<le> cs \<or> length b < ctxstart - cs)" using "1.prems" by auto
    then have "getPreCtx_loop b n cs ctxstart result
        = getPreCtx_loop b (n - 1) cs new (result @ [v @ [nl]])"
      using True by (subst getPreCtx_loop.simps) (simp only: Let_def new_def [symmetric] newb, simp)
    also have "\<dots> = (result @ [v @ [nl]]) @ take (nat (n - 1)) (rev (lines (slice b cs new)))"
      using True \<open>\<not> (ctxstart \<le> cs \<or> length b < ctxstart - cs)\<close> "1.prems" bounds uv(2)
        \<open>cs \<le> new\<close>
      by (intro "1.IH" [OF _ _ new_def refl]) (simp_all add: newb pre new_def [symmetric])
    also have "\<dots> = result @ take (nat n) (rev (lines ?t))"
      using True by (simp add: lines pre nat_diff_distrib take_Cons' )
    finally show ?thesis .
  qed
qed

lemma getPreCtx_lines:
  "chunkstart \<le> linestart \<Longrightarrow> linestart \<le> length b \<Longrightarrow> complete (slice b chunkstart linestart) \<Longrightarrow>
   getPreCtx b n chunkstart linestart = take (nat n) (rev (lines (slice b chunkstart linestart)))"
  by (simp add: getPreCtx_def getPreCtx_loop_lines)

end
