(* ===== verification/Grepper_Correct.thy ===== *)
theory Grepper_Correct
  imports Grepper_Lines
begin

text \<open>
  Correctness of the text scanner: whatever the capacity of its buffer, \<open>reader\<close> reports the
  lines of the file that match, by number and text, and it returns on exactly the files whose
  lines fit the buffer.
\<close>

section \<open>Line-oriented expressions\<close>

text \<open>
  What the code relies on in \<open>Regexp.Match\<close> for an expression that looks at one line at a time,
  with the predicate \<open>P\<close> on lines: on a text that ends with a line end, or is flagged as the end
  of the file, it returns the position where the first matching line ends (its newline, or
  the end of the text), and \<open>-1\<close> without one. At the end of the file the empty rest
  after the last newline can match too.
\<close>

fun first_hit :: "(string \<Rightarrow> bool) \<Rightarrow> nat \<Rightarrow> string list \<Rightarrow> int" where
  "first_hit P pos [] = -1"
| "first_hit P pos (l # ls) =
     (if P (strip l) then int (pos + length (strip l)) else first_hit P (pos + length l) ls)"

definition line_match :: "(string \<Rightarrow> bool) \<Rightarrow> string \<Rightarrow> bool \<Rightarrow> int" where
  "line_match P b endText =
     (let m = first_hit P 0 (lines b)
      in if m < 0 \<and> endText \<and> complete b \<and> P [] then int (length b) else m)"

definition line_matcher :: "(string \<Rightarrow> bool) \<Rightarrow> regexp_match \<Rightarrow> bool" where
  "line_matcher P rmatch \<longleftrightarrow>
     (\<forall>b beginText endText. endText \<or> complete b \<longrightarrow>
        rmatch b beginText endText = line_match P b endText)"

lemma first_hit_cases:
  obtains "first_hit P pos ls = -1" "\<And>l. l \<in> set ls \<Longrightarrow> \<not> P (strip l)"
  | as l bs where "ls = as @ l # bs" "\<And>l. l \<in> set as \<Longrightarrow> \<not> P (strip l)" "P (strip l)"
      "first_hit P pos ls = int (pos + length (concat as) + length (strip l))"
proof -
  have "first_hit P pos ls = -1 \<and> (\<forall>l \<in> set ls. \<not> P (strip l)) \<or>
    (\<exists>as l bs. ls = as @ l # bs \<and> (\<forall>l \<in> set as. \<not> P (strip l)) \<and> P (strip l) \<and>
      first_hit P pos ls = int (pos + length (concat as) + length (strip l)))"
  proof (induction ls arbitrary: pos)
    case (Cons k ls)
    show ?case
    proof (cases "P (strip k)")
      case True
      then show ?thesis by (intro disjI2 exI [of _ "[]"] exI [of _ k] exI [of _ ls]) simp
    next
      case False
      from Cons.IH [of "pos + length k"] show ?thesis
      proof (elim disjE exE conjE)
        fix as l bs
        assume *: "ls = as @ l # bs" "\<forall>l \<in> set as. \<not> P (strip l)" "P (strip l)"
          "first_hit P (pos + length k) ls
            = int (pos + length k + length (concat as) + length (strip l))"
        with False show ?thesis
          by (intro disjI2 exI [of _ "k # as"] exI [of _ l] exI [of _ bs]) simp
      qed (use False in simp)
    qed
  qed simp
  then show thesis using that by blast
qed

section \<open>Reported lines\<close>

text \<open>The map \<open>m\<close> holds exactly the lines of \<open>L\<close> whose indices are in \<open>S\<close>, numbered from 1.\<close>

definition entries :: "string list \<Rightarrow> nat set \<Rightarrow> (string, string) gomap \<Rightarrow> bool" where
  "entries L S m \<longleftrightarrow>
     (\<forall>k v. map_of m k = Some v \<longleftrightarrow> (\<exists>i \<in> S. i < length L \<and> k = Itoa (int i + 1) \<and> v = L ! i))"

definition hits :: "(string \<Rightarrow> bool) \<Rightarrow> string list \<Rightarrow> nat \<Rightarrow> nat \<Rightarrow> nat set" where
  "hits P L a b = {i. a \<le> i \<and> i < b \<and> P (strip (L ! i))}"

text \<open>Lines up to three above one of \<open>H\<close>, when lines before a match were asked for.\<close>

definition above :: "grep \<Rightarrow> nat set \<Rightarrow> nat set" where
  "above g H = (if npre g > 0 then {j. \<exists>i \<in> H. j < i \<and> i \<le> j + 3} else {})"

lemma entries_empty [simp]: "entries L {} []"
  by (simp add: entries_def)

lemma entries_put:
  assumes "entries L S m" "i < length L"
  shows "entries L (insert i S) (gm_put (Itoa (int i + 1)) (L ! i) m)"
proof -
  have "map_of (gm_put (Itoa (int i + 1)) (L ! i) m) k = Some v \<longleftrightarrow>
      (\<exists>j \<in> insert i S. j < length L \<and> k = Itoa (int j + 1) \<and> v = L ! j)" for k v
  proof (cases "k = Itoa (int i + 1)")
    case True
    then show ?thesis using assms(2) by auto
  next
    case False
    then show ?thesis using assms(1) by (auto simp: entries_def)
  qed
  then show ?thesis by (simp add: entries_def)
qed

lemma entries_put_pre:
  assumes "entries L S m" "i \<le> length L" "n \<le> i" "bs = map (\<lambda>j. L ! (i - 1 - j)) [0..<n]"
  shows "entries L ({i - n..<i} \<union> S) (put_pre (int i + 1) bs m)"
  using assms
proof (induction n arbitrary: i m S bs)
  case (Suc n)
  then obtain i' where i: "i = Suc i'" by (cases i) auto
  have bs: "bs = L ! i' # map (\<lambda>j. L ! (i' - 1 - j)) [0..<n]"
    by (simp add: Suc.prems(4) i map_upt_Suc del: upt_Suc)
  have "entries L ({i' - n..<i'} \<union> insert i' S)
      (put_pre (int i' + 1) (map (\<lambda>j. L ! (i' - 1 - j)) [0..<n]) (gm_put (Itoa (int i' + 1)) (L ! i') m))"
    using Suc.prems i by (intro Suc.IH entries_put) auto
  moreover have "{i' - n..<i'} \<union> insert i' S = {i - Suc n..<i} \<union> S"
    using Suc.prems(3) by (auto simp: i)
  ultimately show ?case by (simp add: bs i add.commute)
qed simp

lemma above_Un: "above g (A \<union> B) = above g A \<union> above g B"
  by (auto simp: above_def)

lemma above_mono: "A \<subseteq> B \<Longrightarrow> above g A \<subseteq> above g B"
  by (auto simp: above_def)

lemma hits_split:
  assumes "a \<le> i" "i < b" "\<And>j. a \<le> j \<Longrightarrow> j < i \<Longrightarrow> \<not> P (strip (L ! j))" "P (strip (L ! i))"
  shows "hits P L a b = insert i (hits P L (Suc i) b)"
proof -
  have "j \<in> hits P L a b \<longleftrightarrow> j \<in> insert i (hits P L (Suc i) b)" for j
    using assms(1,2,4) assms(3) [of j] by (cases "j < i"; cases "j = i") (auto simp: hits_def)
  then show ?thesis by blast
qed

lemma hits_empty: "(\<And>j. a \<le> j \<Longrightarrow> j < b \<Longrightarrow> \<not> P (strip (L ! j))) \<Longrightarrow> hits P L a b = {}"
  by (auto simp: hits_def)

lemma hits_join: "a \<le> b \<Longrightarrow> b \<le> c \<Longrightarrow> hits P L a b \<union> hits P L b c = hits P L a c"
  by (auto simp: hits_def)

section \<open>One match\<close>

lemma slice_sub:
  assumes "slice b i j = x @ y @ z" "i \<le> j" "j \<le> length b"
  shows "slice b (i + length x) (i + length x + length y) = y"
proof -
  have len: "length x + length y + length z = j - i"
    using assms by (metis diff_le_mono length_append length_slice min.absorb1 add.assoc)
  have "slice b (i + length x) (i + length x + length y)
      = take (length y) (drop (length x) (take (j - i) (drop i b)))"
    using len by (simp add: slice_def drop_take add.commute min_def)
  also have "\<dots> = y" using assms(1) by (simp add: slice_def)
  finally show ?thesis .
qed

lemma strip_length:
  "l \<noteq> [] \<Longrightarrow> length l = (if complete l then length (strip l) + 1 else length (strip l))"
  by (cases l rule: rev_cases) (auto simp: strip_def complete_def)

text \<open>
  A match at the end of the line \<open>l\<close>, after the lines \<open>as\<close> of the chunk: the line is recorded
  under its number, and the lines above it when they were asked for.
\<close>

lemma scan_hit_line:
  assumes slice: "slice buf cs endp = concat as @ l @ concat bs" "cs \<le> endp" "endp \<le> length buf"
    and split: "lines (slice buf cs endp) = as @ l # bs"
    and m1: "m1 = cs + length (concat as) + length (strip l)"
    and post: "npost g \<le> 0"
  shows "scan_hit g buf endp cs m1 s =
    (s\<lparr>s_Match := True, s_lineno := s_lineno s + int (length as) + 1, s_nmatches := s_nmatches s + 1,
       s_matches := (let m = gm_put (Itoa (s_lineno s + int (length as))) l (s_matches s)
         in if npre g > 0 then put_pre (s_lineno s + int (length as)) (take 3 (rev as)) m else m)\<rparr>,
     cs + length (concat as) + length l)"
proof -
  note sp = lines_split [OF split]
  have "l \<noteq> []" using lines_nonempty [of l "slice buf cs endp"] by (simp add: split)
  have strip: "nl \<notin> set (strip l)" using strip_no_nl [of l "slice buf cs endp"] by (simp add: split)
  obtain rest where rest: "l = strip l @ rest"
    using that [of "if complete l then [nl] else []"]
    by (cases l rule: rev_cases) (auto simp: strip_def complete_def split: if_splits)
  have endp: "endp = cs + length (concat as) + length l + length (concat bs)"
    using slice by (metis add.assoc le_add_diff_inverse length_append length_slice diff_le_mono min.absorb1)
  have to_m1: "slice buf cs m1 = concat as @ strip l"
    using slice_sub [of buf cs endp "[]" "concat as @ strip l" "rest @ concat bs"] slice rest
    by (simp add: m1 add.assoc)
  have lineStart: "nat (LastIndexByte (slice buf cs m1) nl + 1) + cs = cs + length (concat as)"
    unfolding to_m1 using LastIndexByte_complete [OF sp(1) strip] by simp
  have lineEnd: "(if m1 + 1 > endp then endp else m1 + 1) = cs + length (concat as) + length l"
  proof (cases "complete l")
    case True
    with strip_length [OF \<open>l \<noteq> []\<close>] show ?thesis by (simp add: endp m1)
  next
    case False
    with sp(4) have "bs = []" by blast
    with False strip_length [OF \<open>l \<noteq> []\<close>] show ?thesis by (simp add: endp m1)
  qed
  have before: "slice buf cs (cs + length (concat as)) = concat as"
    using slice_sub [of buf cs endp "[]" "concat as" "l @ concat bs"] slice by simp
  have body: "slice buf (cs + length (concat as)) (cs + length (concat as) + length l) = l"
    using slice_sub [of buf cs endp "concat as" l "concat bs"] slice by simp
  have count: "countNL (concat as) = int (length as)"
    using countNL_complete [OF sp(1)] sp(2) by simp
  have pre: "getPreCtx buf 3 cs (cs + length (concat as)) = take 3 (rev as)"
    using sp(1,2) endp slice(3) by (subst getPreCtx_lines) (simp_all add: before)
  have "length l > 0" using \<open>l \<noteq> []\<close> by simp
  then show ?thesis
    unfolding scan_hit_def Let_def lineStart lineEnd body before count
    using post by (simp add: pre)
qed

text \<open>A match of the empty rest at the end of the file records nothing.\<close>

lemma scan_hit_rest:
  assumes "cs \<le> endp" "endp \<le> length buf" "complete (slice buf cs endp)"
  shows "\<exists>s'. scan_hit g buf endp cs endp s = (s', endp) \<and> s_matches s' = s_matches s \<and>
    s_nmatches s' = s_nmatches s"
proof -
  have "LastIndexByte (slice buf cs endp) nl + 1 = int (endp - cs)"
    using LastIndexByte_complete [OF assms(3), of "[]"] assms(1,2) by simp
  then have "nat (LastIndexByte (slice buf cs endp) nl + 1) + cs = endp"
    using assms(1) by simp
  then show ?thesis unfolding scan_hit_def Let_def by simp
qed

section \<open>One buffer\<close>

lemma nth_middle: "L = pre @ (as @ l # bs) @ post \<Longrightarrow> L ! (length pre + length as) = l"
  by (simp add: nth_append)

lemma nth_before:
  "L = pre @ (as @ bs) @ post \<Longrightarrow> length pre \<le> j \<Longrightarrow> j < length pre + length as \<Longrightarrow> L ! j \<in> set as"
  by (auto simp: nth_append)

lemma take_rev_above:
  assumes "L = pre @ (as @ bs) @ post"
  shows "take 3 (rev as) =
    map (\<lambda>j. L ! (length pre + length as - 1 - j)) [0..<min 3 (length as)]"
  using assms by (intro nth_equalityI) (auto simp: rev_nth nth_append)

text \<open>
  The inner loop over one buffer whose lines are the middle part of the lines \<open>L\<close> of the file,
  the line counter being at its first line.
\<close>

lemma scan_chunk_lines:
  assumes "line_matcher P rmatch" and "npost g \<le> 0"
    and "cs \<le> endp" "endp \<le> length buf" "et \<or> complete (slice buf cs endp)"
    and "L = pre @ lines (slice buf cs endp) @ post"
    and "s_lineno s = int (length pre) + 1" "entries L S (s_matches s)"
    and "b = length pre + length (lines (slice buf cs endp))"
  shows "\<exists>S' s' cs'. scan_chunk rmatch g buf endp et cs s = (s', cs') \<and>
    entries L S' (s_matches s') \<and>
    S \<union> hits P L (length pre) b \<subseteq> S' \<and>
    S' \<subseteq> S \<union> hits P L (length pre) b \<union> above g (hits P L (length pre) b) \<and>
    s_nmatches s' = s_nmatches s + int (card (hits P L (length pre) b)) \<and>
    (\<not> et \<longrightarrow> s_lineno s' + countNL (slice buf cs' endp) = int b + 1)"
  using assms(3-)
proof (induction "endp - cs" arbitrary: cs s pre S rule: less_induct)
  case less
  let ?t = "slice buf cs endp"
  let ?s = "s\<lparr>s_beginText := False\<rparr>"
  have len: "length ?t = endp - cs" using less.prems by simp
  show ?case
  proof (cases "cs < endp")
    case False
    then have "?t = []" by simp
    then have "hits P L (length pre) b = {}" using less.prems by (auto simp: hits_def)
    with False \<open>?t = []\<close> less.prems show ?thesis
      by (subst scan_chunk.simps) (auto simp: countNL_count above_def)
  next
    case True
    with len have "?t \<noteq> []" by (metis list.size(3) zero_less_diff less_numeral_extra(3))
    have rm: "rmatch ?t (s_beginText s) et = line_match P ?t et"
      using assms(1) less.prems(3) unfolding line_matcher_def by blast
    have unfold: "scan_chunk rmatch g buf endp et cs s =
        (if line_match P ?t et < 0 then (?s, cs)
         else (let hit = scan_hit g buf endp cs (nat (line_match P ?t et + int cs)) ?s
               in scan_chunk rmatch g buf endp et (snd hit) (fst hit)))"
      using True by (subst scan_chunk.simps) (simp add: rm Let_def)
    show ?thesis
    proof (cases rule: first_hit_cases [of P 0 "lines ?t"])
      case miss: 1
      have no: "hits P L (length pre) b = {}"
        using less.prems(4,7) miss(2) by (intro hits_empty) (auto simp: nth_append)
      show ?thesis
      proof (cases "line_match P ?t et < 0")
        case True
        have "complete ?t \<Longrightarrow> countNL ?t = int (length (lines ?t))" by (rule countNL_complete)
        with True no less.prems show ?thesis by (auto simp: unfold)
      next
        case False
        then have et: "et" "complete ?t" "line_match P ?t et = int (endp - cs)"
          using miss(1) len by (auto simp: line_match_def Let_def split: if_splits)
        obtain s' where s': "scan_hit g buf endp cs endp ?s = (s', endp)"
          "s_matches s' = s_matches s" "s_nmatches s' = s_nmatches s"
          using scan_hit_rest [of cs endp buf g ?s] less.prems et(2) by auto
        have "scan_chunk rmatch g buf endp et endp s' = (s', endp)"
          by (subst scan_chunk.simps) simp
        moreover have "nat (line_match P ?t et + int cs) = endp"
          using et(3) less.prems(1) by simp
        ultimately have "scan_chunk rmatch g buf endp et cs s = (s', endp)"
          unfolding unfold Let_def using False s'(1) by simp
        moreover have "s_matches s' = s_matches s" "s_nmatches s' = s_nmatches s" using s' by simp_all
        ultimately show ?thesis
          using less.prems(6) et(1) by (intro exI [of _ S] exI) (auto simp: no above_def)
      qed
    next
      case (2 as l bs)
      note split = "2"(1) and miss = "2"(2) and hit = "2"(3)
      have t: "?t = concat as @ l @ concat bs" using split concat_lines [of ?t] by simp
      have "l \<noteq> []" using lines_nonempty [of l ?t] by (simp add: split)
      have pos: "line_match P ?t et = int (length (concat as) + length (strip l))"
        using "2"(4) by (simp add: line_match_def)
      then have m1: "nat (line_match P ?t et + int cs) = cs + length (concat as) + length (strip l)"
        by simp
      define cs1 where "cs1 = cs + length (concat as) + length l"
      define i where "i = length pre + length as"
      define m where "m = gm_put (Itoa (int i + 1)) l (s_matches s)"
      define s1 where "s1 = ?s\<lparr>s_Match := True, s_lineno := int i + 2,
        s_nmatches := s_nmatches s + 1,
        s_matches := (if npre g > 0 then put_pre (int i + 1) (take 3 (rev as)) m else m)\<rparr>"
      have lineno: "s_lineno s + int (length as) = int i + 1"
        using less.prems(5) by (simp add: i_def)
      have hit1: "scan_hit g buf endp cs (nat (line_match P ?t et + int cs)) ?s = (s1, cs1)"
        using scan_hit_line [OF t less.prems(1,2) split m1 assms(2), of ?s] lineno
        by (simp add: s1_def cs1_def m_def Let_def)
      have len': "length (concat as) + length l + length (concat bs) = endp - cs"
        using len t by simp
      have rest: "slice buf cs1 endp = concat bs"
        using slice_sub [of buf cs endp "concat as @ l" "concat bs" "[]"] t less.prems(1,2) len'
        by (simp add: cs1_def add.assoc)
      note sp = lines_split [OF split]
      have L: "L = (pre @ as @ [l]) @ lines (slice buf cs1 endp) @ post"
        using less.prems(4) split sp(3) by (simp add: rest)
      have Li: "L ! i = l" "i < length L"
        using less.prems(4) by (simp_all add: i_def split nth_append)
      define S1 where "S1 = (if npre g > 0 then {i - min 3 (length as)..<i} else {}) \<union> insert i S"
      have entries1: "entries L S1 (s_matches s1)"
      proof -
        have put: "entries L (insert i S) m"
          using entries_put [OF less.prems(6) Li(2)] by (simp add: m_def Li(1))
        have "take 3 (rev as) = map (\<lambda>j. L ! (i - 1 - j)) [0..<min 3 (length as)]"
          using take_rev_above [of L pre as "l # bs" post] less.prems(4) by (simp add: i_def split)
        then have "entries L ({i - min 3 (length as)..<i} \<union> insert i S)
            (put_pre (int i + 1) (take 3 (rev as)) m)"
          using Li(2) by (intro entries_put_pre [OF put]) (auto simp: i_def)
        with put show ?thesis by (simp add: s1_def S1_def)
      qed
      have ok: "et \<or> complete (slice buf cs1 endp)"
        using less.prems(3) sp(5) t by (cases "concat bs = []") (auto simp: rest complete_def)
      have "endp - cs1 < endp - cs" "cs1 \<le> endp"
        using len' True length_greater_0_conv [THEN iffD2, OF \<open>l \<noteq> []\<close>] unfolding cs1_def
        by linarith+
      from less.hyps [OF this less.prems(2) ok L _ entries1]
      obtain S' s' cs' where rec: "scan_chunk rmatch g buf endp et cs1 s1 = (s', cs')"
        "entries L S' (s_matches s')" "S1 \<union> hits P L (Suc i) b \<subseteq> S'"
        "S' \<subseteq> S1 \<union> hits P L (Suc i) b \<union> above g (hits P L (Suc i) b)"
        "s_nmatches s' = s_nmatches s1 + int (card (hits P L (Suc i) b))"
        "\<not> et \<longrightarrow> s_lineno s' + countNL (slice buf cs' endp) = int b + 1"
        using less.prems(7) split sp(3) by (auto simp: s1_def i_def rest)
      have hs: "hits P L (length pre) b = insert i (hits P L (Suc i) b)"
        using less.prems(4,7) split hit Li miss nth_before [of L pre as "l # bs" post]
        by (intro hits_split) (auto simp: i_def)
      have fin: "finite (hits P L (Suc i) b)" "i \<notin> hits P L (Suc i) b" by (auto simp: hits_def)
      have S1: "S1 \<subseteq> insert i S \<union> above g (hits P L (length pre) b)"
        by (auto simp: S1_def above_def hs)
      have "scan_chunk rmatch g buf endp et cs s = (s', cs')"
        using rec(1) hit1 pos by (simp add: unfold Let_def)
      moreover have "S \<union> hits P L (length pre) b \<subseteq> S'"
        using rec(3) by (auto simp: hs S1_def)
      moreover have "S' \<subseteq> S \<union> hits P L (length pre) b \<union> above g (hits P L (length pre) b)"
        using rec(4) S1 above_mono [of "hits P L (Suc i) b" "hits P L (length pre) b" g] unfolding hs
        by blast
      ultimately show ?thesis
        using rec(2,5,6) fin by (auto simp: hs s1_def)
    qed
  qed
qed

section \<open>A whole file\<close>



lemma slice_prefix [simp]: "slice (a @ b) 0 (length a) = a"
  by (simp add: slice_def)

lemma hits_append:
  "card (hits P L a b) + card (hits P L b c) = card (hits P L a c)" if "a \<le> b" "b \<le> c"
proof -
  have "finite (hits P L i j)" for i j by (simp add: hits_def)
  moreover have "hits P L a b \<inter> hits P L b c = {}" by (auto simp: hits_def)
  ultimately show ?thesis using hits_join [OF that] by (metis card_Un_disjoint)
qed

lemma first_line_carries:
  assumes "nl \<notin> set b" "b @ rest \<noteq> []"
  shows "\<exists>l \<in> set (lines (b @ rest)). length b \<le> length (strip l)"
proof (cases "nl \<in> set rest")
  case True
  then obtain u v where "rest = u @ nl # v" "nl \<notin> set u" by (metis split_list_first)
  with assms(1) have "lines (b @ rest) = ((b @ u) @ [nl]) # lines v"
    using lines_line [of "b @ u" v] by simp
  then show ?thesis using strip_snoc [of "b @ u"] by simp
next
  case False
  with assms have "lines (b @ rest) = [b @ rest]" "strip (b @ rest) = b @ rest"
    using lines_no_nl [of "b @ rest"] strip_id [of "b @ rest"] by auto
  then show ?thesis by simp
qed

definition fits :: "nat \<Rightarrow> string \<Rightarrow> bool" where
  "fits cap b \<longleftrightarrow> (\<forall>l \<in> set (lines b). length (strip l) < cap)"

lemma fits_append: "complete a \<Longrightarrow> fits cap (a @ b) \<longleftrightarrow> fits cap a \<and> fits cap b"
  by (auto simp: fits_def lines_append)

lemma fits_length: "length b < cap \<Longrightarrow> fits cap b"
proof -
  assume "length b < cap"
  moreover have "length (strip l) \<le> length b" if "l \<in> set (lines b)" for l
  proof -
    have "length (strip l) \<le> length l" by (simp add: strip_def)
    also have "\<dots> \<le> length (concat (lines b))"
      using that by (metis concat.simps(2) concat_append length_append split_list trans_le_add1
          trans_le_add2 order_refl)
    finally show ?thesis by simp
  qed
  ultimately show ?thesis unfolding fits_def by (meson le_less_trans)
qed

lemma fits_complete: "complete a \<Longrightarrow> length a \<le> cap \<Longrightarrow> 0 < cap \<Longrightarrow> fits cap a"
proof (induction a rule: lines_induct)
  case (line a b)
  then show ?case by (auto simp: fits_def lines_line)
qed (auto simp: fits_def lines_no_nl complete_no_nl)

text \<open>The error \<open>reader\<close> sees at the end of a file whose reads end with \<open>e\<close>.\<close>

definition ends_with :: "read_error \<Rightarrow> read_error \<Rightarrow> bool" where
  "ends_with e e' \<longleftrightarrow> e' = e \<or> e = EOF \<and> e' = UnexpectedEOF"

lemma reader_loop_last:
  assumes "bufcap - length buf > length (io_data r)"
  shows "\<exists>e. ends_with (io_err r) e \<and> reader_loop rmatch g bufcap buf r et s =
    Some (fst (scan_chunk rmatch g (buf @ io_data r) (length (buf @ io_data r)) True 0 s), e)"
  using assms
  by (subst reader_loop.simps) (auto simp: ReadFull_def Let_def ends_with_def)

lemma reader_loop_full:
  assumes "bufcap - length buf \<le> length (io_data r)"
    and "buf @ take (bufcap - length buf) (io_data r) = a @ b" "complete a" "nl \<notin> set b"
  shows "reader_loop rmatch g bufcap buf r et s =
    (let sc = scan_chunk rmatch g (a @ b) (length a) et 0 s
     in reader_loop rmatch g bufcap b (r\<lparr>io_data := drop (bufcap - length buf) (io_data r)\<rparr>) et
       ((fst sc)\<lparr>s_lineno := s_lineno (fst sc) + countNL (slice (a @ b) (snd sc) (length a))\<rparr>))"
  using assms LastIndexByte_complete [OF assms(3,4)]
  by (subst reader_loop.simps) (simp add: ReadFull_def Let_def)

lemma reader_loop_lines:
  assumes "line_matcher P rmatch" "npost g \<le> 0" "0 < bufcap"
    and "fits bufcap (buf @ io_data r)" "nl \<notin> set buf"
    and "L = pre @ lines (buf @ io_data r)"
    and "s_lineno s = int (length pre) + 1" "entries L S (s_matches s)"
  shows "\<exists>S' s' e. reader_loop rmatch g bufcap buf r False s = Some (s', e) \<and>
    ends_with (io_err r) e \<and> entries L S' (s_matches s') \<and>
    S \<union> hits P L (length pre) (length L) \<subseteq> S' \<and>
    S' \<subseteq> S \<union> hits P L (length pre) (length L) \<union> above g (hits P L (length pre) (length L)) \<and>
    s_nmatches s' = s_nmatches s + int (card (hits P L (length pre) (length L)))"
  using assms(4-)
proof (induction "length (io_data r)" arbitrary: buf r s pre S rule: less_induct)
  case less
  let ?k = "bufcap - length buf"
  show ?case
  proof (cases "?k > length (io_data r)")
    case True
    from reader_loop_last [OF this, of rmatch g False s] obtain e where
      e: "ends_with (io_err r) e" "reader_loop rmatch g bufcap buf r False s =
        Some (fst (scan_chunk rmatch g (buf @ io_data r) (length (buf @ io_data r)) True 0 s), e)"
      by blast
    let ?b = "buf @ io_data r"
    have "slice ?b 0 (length ?b) = ?b" by (rule slice_all)
    with less.prems(3) have "L = pre @ lines (slice ?b 0 (length ?b)) @ []"
      "length L = length pre + length (lines (slice ?b 0 (length ?b)))"
      by simp_all
    from scan_chunk_lines [OF assms(1,2) le0 order_refl disjI1 [OF TrueI] this(1)
        less.prems(4,5) this(2)]
    obtain S' s' cs' where sc: "scan_chunk rmatch g ?b (length ?b) True 0 s = (s', cs')"
      "entries L S' (s_matches s')" "S \<union> hits P L (length pre) (length L) \<subseteq> S'"
      "S' \<subseteq> S \<union> hits P L (length pre) (length L) \<union> above g (hits P L (length pre) (length L))"
      "s_nmatches s' = s_nmatches s + int (card (hits P L (length pre) (length L)))"
      by blast
    have "reader_loop rmatch g bufcap buf r False s = Some (s', e)"
      unfolding e(2) sc(1) by simp
    with e(1) sc(2-) show ?thesis by blast
  next
    case False
    obtain a b where ab: "buf @ take ?k (io_data r) = a @ b" "complete a" "nl \<notin> set b"
      by (rule split_last_nl)
    let ?r = "r\<lparr>io_data := drop ?k (io_data r)\<rparr>"
    have data: "buf @ io_data r = a @ b @ io_data ?r"
    proof -
      have "buf @ io_data r = (buf @ take ?k (io_data r)) @ drop ?k (io_data r)" by simp
      also have "\<dots> = (a @ b) @ drop ?k (io_data r)" by (simp only: ab(1))
      finally show ?thesis by simp
    qed
    let ?c = "length pre + length (lines a)"
    have L: "L = pre @ lines a @ lines (b @ io_data ?r)"
      using less.prems(3) lines_append [OF ab(2)] by (simp only: data)
    have "0 < ?k"
    proof (cases "buf = []")
      case False
      then show ?thesis using first_line_carries [of buf "io_data r"] less.prems(1,2)
        by (fastforce simp: fits_def)
    qed (use assms(3) in simp)
    with False have dec: "length (io_data ?r) < length (io_data r)" by simp
    obtain S1 s1 cs1 where sc: "scan_chunk rmatch g (a @ b) (length a) False 0 s = (s1, cs1)"
      "entries L S1 (s_matches s1)" "S \<union> hits P L (length pre) ?c \<subseteq> S1"
      "S1 \<subseteq> S \<union> hits P L (length pre) ?c \<union> above g (hits P L (length pre) ?c)"
      "s_nmatches s1 = s_nmatches s + int (card (hits P L (length pre) ?c))"
      "s_lineno s1 + countNL (slice (a @ b) cs1 (length a)) = int ?c + 1"
      using scan_chunk_lines [OF assms(1,2), of 0 "length a" "a @ b" False L pre _ s S ?c]
        ab(2) less.prems(4,5) L by auto
    let ?s1 = "s1\<lparr>s_lineno := s_lineno s1 + countNL (slice (a @ b) cs1 (length a))\<rparr>"
    have loop: "reader_loop rmatch g bufcap buf r False s = reader_loop rmatch g bufcap b ?r False ?s1"
      using False reader_loop_full [OF _ ab] sc(1) by simp
    have "fits bufcap (b @ io_data ?r)"
      using less.prems(1) fits_append [OF ab(2)] unfolding data by blast
    from less.hyps [OF dec this ab(3), of "pre @ lines a" ?s1 S1]
    obtain S' s' e where IH: "reader_loop rmatch g bufcap b ?r False ?s1 = Some (s', e)"
      "ends_with (io_err r) e" "entries L S' (s_matches s')"
      "S1 \<union> hits P L ?c (length L) \<subseteq> S'"
      "S' \<subseteq> S1 \<union> hits P L ?c (length L) \<union> above g (hits P L ?c (length L))"
      "s_nmatches s' = s_nmatches s1 + int (card (hits P L ?c (length L)))"
      using L sc(2,6) by auto
    have "?c \<le> length L" using L by simp
    then have join: "hits P L (length pre) (length L) =
        hits P L (length pre) ?c \<union> hits P L ?c (length L)"
      and card: "card (hits P L (length pre) ?c) + card (hits P L ?c (length L))
        = card (hits P L (length pre) (length L))"
      by (simp_all add: hits_join hits_append)
    have "S \<union> hits P L (length pre) (length L) \<subseteq> S'" using IH(4) sc(3) unfolding join by blast
    moreover have "S' \<subseteq> S \<union> hits P L (length pre) (length L) \<union>
        above g (hits P L (length pre) (length L))"
      using IH(5) sc(4) unfolding join above_Un by blast
    ultimately show ?thesis using IH(1-3,6) sc(5) card by (simp add: loop) (metis of_nat_add)
  qed
qed

section \<open>When reading ends\<close>

lemma reader_loop_ends:
  assumes "0 < bufcap" "fits bufcap (buf @ io_data r)" "nl \<notin> set buf"
  shows "reader_loop rmatch g bufcap buf r et s \<noteq> None"
  using assms(2,3)
proof (induction "length (io_data r)" arbitrary: buf r s rule: less_induct)
  case less
  let ?k = "bufcap - length buf"
  show ?case
  proof (cases "?k > length (io_data r)")
    case True
    then show ?thesis using reader_loop_last [OF True, of rmatch g et s] by auto
  next
    case False
    obtain a b where ab: "buf @ take ?k (io_data r) = a @ b" "complete a" "nl \<notin> set b"
      by (rule split_last_nl)
    let ?r = "r\<lparr>io_data := drop ?k (io_data r)\<rparr>"
    have data: "buf @ io_data r = a @ b @ io_data ?r"
      using arg_cong [OF ab(1), of "\<lambda>x. x @ io_data ?r"] by simp
    have "0 < ?k"
    proof (cases "buf = []")
      case False
      then show ?thesis using first_line_carries [of buf "io_data r"] less.prems(1,2)
        by (fastforce simp: fits_def)
    qed (use assms(1) in simp)
    with False have "length (io_data ?r) < length (io_data r)" by simp
    moreover have "fits bufcap (b @ io_data ?r)"
      using less.prems(1) fits_append [OF ab(2)] unfolding data by blast
    ultimately show ?thesis
      using less.hyps [of ?r b] ab(3) reader_loop_full [OF _ ab, of rmatch g et s] False
      by (simp add: Let_def)
  qed
qed

lemma reader_loop_fits:
  assumes "reader_loop rmatch g bufcap buf r et s = Some res"
  shows "0 < bufcap \<longrightarrow> nl \<notin> set buf \<longrightarrow> length buf \<le> bufcap \<longrightarrow> fits bufcap (buf @ io_data r)"
  using assms
proof (induction rule: reader_loop.raw_induct [rotated, consumes 1, case_names step])
  case (step f rmatch g bufcap buf r et s res)
  show ?case
  proof (intro impI)
  assume prems: "0 < bufcap" "nl \<notin> set buf" "length buf \<le> bufcap"
  let ?k = "bufcap - length buf"
  show "fits bufcap (buf @ io_data r)"
  proof (cases "?k > length (io_data r)")
    case True
    then have "length (buf @ io_data r) < bufcap" by simp
    then show ?thesis by (rule fits_length)
  next
    case False
    obtain a b where ab: "buf @ take ?k (io_data r) = a @ b" "complete a" "nl \<notin> set b"
      by (rule split_last_nl)
    let ?r = "r\<lparr>io_data := drop ?k (io_data r)\<rparr>"
    have data: "buf @ io_data r = a @ b @ io_data ?r"
      using arg_cong [OF ab(1), of "\<lambda>x. x @ io_data ?r"] by simp
    have "length (a @ b) = bufcap"
      using arg_cong [OF ab(1), of length] False prems(3) by simp
    then have len: "length a \<le> bufcap" "length b \<le> bufcap" by auto
    from False obtain sc where "f rmatch g bufcap b ?r et sc = Some res"
      using step(2) LastIndexByte_complete [OF ab(2,3)] ab(1)
      by (simp add: ReadFull_def Let_def)
    from step(1) [OF this] prems(1) ab(3) len(2) have "fits bufcap (b @ io_data ?r)" by blast
    with fits_complete [OF ab(2) len(1) prems(1)] show ?thesis
      unfolding data fits_append [OF ab(2)] by blast
  qed
  qed
qed

section \<open>The claims\<close>

definition buf_cap :: "grep \<Rightarrow> nat" where
  "buf_cap g = (case g_buf g of None \<Rightarrow> bufSize | Some n \<Rightarrow> n)"

lemma reader_reports_lines:
  assumes "line_matcher P rmatch" "npost g \<le> 0" "0 < buf_cap g" "fits (buf_cap g) (io_data r)"
  shows "\<exists>n m e. reader rmatch g r = Some (n, m, e) \<and>
    (let L = lines (io_data r); H = {i. i < length L \<and> P (strip (L ! i))}
     in n = int (card H) \<and> (\<exists>S. H \<subseteq> S \<and> S \<subseteq> H \<union> above g H \<and> entries L S m)) \<and>
    (case io_err r of ReadError err \<Rightarrow> e = Some err | _ \<Rightarrow> e = None)"
proof -
  let ?L = "lines (io_data r)"
  have H: "hits P ?L 0 (length ?L) = {i. i < length ?L \<and> P (strip (?L ! i))}"
    by (auto simp: hits_def)
  obtain S s' e where loop:
    "reader_loop rmatch g (buf_cap g) [] r False init_scan = Some (s', e)" "ends_with (io_err r) e"
    "entries ?L S (s_matches s')" "hits P ?L 0 (length ?L) \<subseteq> S"
    "S \<subseteq> hits P ?L 0 (length ?L) \<union> above g (hits P ?L 0 (length ?L))"
    "s_nmatches s' = int (card (hits P ?L 0 (length ?L)))"
    using reader_loop_lines [OF assms(1-3), of "[]" r ?L "[]" init_scan "{}"] assms(4)
    by (auto simp: init_scan_def)
  then have "reader rmatch g r = Some (s_nmatches s', s_matches s',
      case e of ReadError err \<Rightarrow> Some err | _ \<Rightarrow> None)"
    by (simp add: reader_def buf_cap_def)
  moreover have "case io_err r of
      ReadError err \<Rightarrow> (case e of ReadError err \<Rightarrow> Some err | _ \<Rightarrow> None) = Some err
    | _ \<Rightarrow> (case e of ReadError err \<Rightarrow> Some err | _ \<Rightarrow> None) = None"
    using loop(2) by (auto simp: ends_with_def split: read_error.splits)
  ultimately show ?thesis
    using loop(3-) unfolding Let_def H by (intro exI conjI) assumption+
qed

text \<open>C5. With a line-oriented expression and no lines after a match asked for, \<open>reader\<close> returns
  on every file whose lines fit its buffer, whatever the chunks it is read in. It counts the
  matching lines and records each of them under its line number with its full text, no other line
  except, when lines before a match are asked for, lines at most three above a match; and the
  error is the one the file's reads end with, the end of the file aside.\<close>

theorem reader_reports_matching_lines:
  assumes "line_matcher P rmatch" "npost g \<le> 0" "0 < buf_cap g" "fits (buf_cap g) (io_data r)"
  shows "\<exists>n m e. reader rmatch g r = Some (n, m, e) \<and>
    (let L = lines (io_data r); H = {i. i < length L \<and> P (strip (L ! i))}
     in n = int (card H) \<and> (\<exists>S. H \<subseteq> S \<and> S \<subseteq> H \<union> above g H \<and> entries L S m)) \<and>
    (case io_err r of ReadError err \<Rightarrow> e = Some err | _ \<Rightarrow> e = None)"
  using assms by (rule reader_reports_lines)

lemma reader_reports_matching_lines_witness:
  "\<exists>n m e. reader (\<lambda>b _ e. line_match (\<lambda>l. CHR ''x'' \<in> set l) b e)
      ((newGrep [] [])\<lparr>g_buf := Some 3\<rparr>)
      \<lparr>io_data = ''ax'' @ [nl] @ ''b'' @ [nl] @ ''x'', io_err = EOF\<rparr> = Some (n, m, e) \<and> n = 2 \<and> e = None"
proof -
  let ?r = "\<lparr>io_data = ''ax'' @ [nl] @ ''b'' @ [nl] @ ''x'', io_err = EOF\<rparr>"
  let ?g = "(newGrep [] [])\<lparr>g_buf := Some 3\<rparr>"
  let ?P = "\<lambda>l :: string. CHR ''x'' \<in> set l"
  have "lines (io_data ?r) = [''ax'' @ [nl], ''b'' @ [nl], ''x'']"
    by (simp add: nl_def)
  moreover have "{i. i < length [''ax'' @ [nl], ''b'' @ [nl], ''x''] \<and>
      ?P (strip ([''ax'' @ [nl], ''b'' @ [nl], ''x''] ! i))} = {0, 2}"
    by (auto simp: less_Suc_eq strip_def nl_def)
  ultimately show ?thesis
    using reader_reports_matching_lines [of ?P "\<lambda>b _ e. line_match ?P b e" ?g ?r]
    by (auto simp: line_matcher_def npost_def newGrep_def buf_cap_def fits_def strip_def nl_def Let_def)
qed

text \<open>C20. Whatever the expression, \<open>reader\<close> returns on exactly the files all of whose lines, without
  their newline, are shorter than the buffer (one mebibyte for the buffer \<open>reader\<close> allocates
  itself): on a longer line the buffer is full, nothing is read into it and the loop
  repeats for ever.\<close>

theorem reader_returns_iff_lines_fit:
  "reader rmatch (newGrep f root) r \<noteq> None \<longleftrightarrow>
     (\<forall>l \<in> set (lines (io_data r)). length (strip l) < 2 ^ 20)"
proof -
  have "reader_loop rmatch (newGrep f root) bufSize [] r False init_scan \<noteq> None \<longleftrightarrow>
      fits bufSize (io_data r)"
    using reader_loop_ends [of bufSize "[]" r] reader_loop_fits [of rmatch _ bufSize "[]" r]
    by (auto simp: bufSize_def)
  then show ?thesis by (auto simp: reader_def newGrep_def fits_def bufSize_def)
qed

lemma reader_returns_iff_lines_fit_witness:
  "reader (\<lambda>_ _ _. -1) (newGrep [] []) \<lparr>io_data = ''ab'' @ [nl] @ ''c'', io_err = EOF\<rparr> \<noteq> None \<and>
   reader (\<lambda>_ _ _. -1) (newGrep [] []) \<lparr>io_data = replicate (2 ^ 20) CHR ''x'', io_err = EOF\<rparr> = None"
proof
  have "lines (''ab'' @ [nl] @ ''c'') = [''ab'' @ [nl], ''c'']"
    by (simp add: nl_def)
  then show "reader (\<lambda>_ _ _. -1) (newGrep [] [])
      \<lparr>io_data = ''ab'' @ [nl] @ ''c'', io_err = EOF\<rparr> \<noteq> None"
    unfolding reader_returns_iff_lines_fit by (auto simp: strip_def nl_def)
next
  let ?long = "replicate (2 ^ 20) CHR ''x''"
  have "lines ?long = [?long]" by (rule lines_no_nl) (simp_all add: nl_def)
  moreover have "strip ?long = ?long" by (rule strip_id) (simp add: nl_def)
  ultimately show "reader (\<lambda>_ _ _. -1) (newGrep [] []) \<lparr>io_data = ?long, io_err = EOF\<rparr> = None"
    using reader_returns_iff_lines_fit [of "\<lambda>_ _ _. -1" "[]" "[]" "\<lparr>io_data = ?long, io_err = EOF\<rparr>"]
    by (simp del: replicate.simps not_None_eq not_Some_eq)
qed

section \<open>The pieces after a match\<close>

lemma IndexByte_hd [simp]: "IndexByte (c # s) c = 0"
  using IndexByte_append [of c "[]" s] by simp

lemma slice_Cons: "i < j \<Longrightarrow> j \<le> length b \<Longrightarrow> slice b i j = b ! i # slice b (Suc i) j"
  by (simp add: slice_def Cons_nth_drop_Suc [symmetric] Suc_diff_Suc [symmetric] del: Cons_nth_drop_Suc)

lemma getPostCtx_loop_bytes:
  assumes "b ! cs = nl" "cs < endp" "endp \<le> length b"
  shows "getPostCtx_loop b n cs endp i result
    = result @ map (\<lambda>c. [c]) (take (nat (n + 1)) (slice b i endp))"
proof -
  have first: "IndexByte (slice b cs endp) nl = 0"
    using assms by (simp add: slice_Cons)
  show ?thesis
  proof (induction "nat (n + 1)" arbitrary: n i result)
    case 0
    then show ?case by (subst getPostCtx_loop.simps) simp
  next
    case (Suc k)
    then have n: "n \<ge> 0" "k = nat (n - 1 + 1)" by simp_all
    show ?case
    proof (cases "i < endp")
      case True
      then have "slice b i (Suc i) = [b ! i]" using assms(3) by (simp add: slice_Cons)
      then have "getPostCtx_loop b n cs endp i result =
          getPostCtx_loop b (n - 1) cs endp (Suc i) (result @ [[b ! i]])"
        using n(1) True by (subst getPostCtx_loop.simps) (simp add: first)
      also have "\<dots> = result @ map (\<lambda>c. [c]) (take (Suc k) (slice b i endp))"
        using Suc.hyps(1) [OF n(2)] n(2) True assms(3) by (simp add: slice_Cons [of i])
      finally show ?thesis by (simp only: Suc.hyps(2))
    qed (use n in \<open>subst getPostCtx_loop.simps, simp\<close>)
  qed
qed

text \<open>Started at the newline that ends a matching line, as \<open>reader\<close> starts it, \<open>getPostCtx\<close>
  returns no lines: it returns the next \<open>n\<close> bytes of the text, each as a piece of its own.\<close>

theorem getPostCtx_returns_bytes:
  assumes "0 < n" "b ! m1 = nl" "m1 < endp" "endp \<le> length b"
  shows "getPostCtx b n m1 endp = map (\<lambda>c. [c]) (take (nat n) (slice b (Suc m1) endp))"
proof -
  have "nat (n + 1) = Suc (nat n)" using assms(1) by simp
  then show ?thesis
    using assms getPostCtx_loop_bytes [OF assms(2-), of n m1 "[]"] slice_Cons [OF assms(3,4)]
    by (simp add: getPostCtx_def)
qed

lemma getPostCtx_returns_bytes_witness:
  "getPostCtx (''m'' @ [nl] @ ''abc'' @ [nl] @ ''d'') 3 1 7 = [''a'', ''b'', ''c'']"
  using getPostCtx_returns_bytes [of 3 "''m'' @ [nl] @ ''abc'' @ [nl] @ ''d''" 1 7]
  by (simp add: slice_def nl_def)

section \<open>The scanner's map is a well-formed Go map\<close>

lemma put_pre_wf [go_wf]: "gm_ok m \<Longrightarrow> gm_ok (put_pre i bs m)"
  by (induction i bs m rule: put_pre.induct) simp_all

lemma put_post_wf [go_wf]: "gm_ok m \<Longrightarrow> gm_ok (put_post i bs m)"
  by (induction i bs m rule: put_post.induct) simp_all

lemma scan_hit_wf [go_wf]:
  "gm_ok (s_matches s) \<Longrightarrow> gm_ok (s_matches (fst (scan_hit g buf endp chunkStart m1 s)))"
  by (simp add: scan_hit_def Let_def go_wf)

lemma scan_chunk_wf [go_wf]:
  "gm_ok (s_matches s) \<Longrightarrow> gm_ok (s_matches (fst (scan_chunk rmatch g buf endp endText chunkStart s)))"
proof (induction rmatch g buf endp endText chunkStart s rule: scan_chunk.induct)
  case (1 rmatch g buf endp endText chunkStart s)
  then show ?case
    by (subst scan_chunk.simps) (simp add: Let_def scan_hit_wf)
qed

lemma reader_loop_wf:
  assumes "reader_loop rmatch g bufcap buf r et s = Some res"
  shows "gm_ok (s_matches s) \<longrightarrow> gm_ok (s_matches (fst res))"
  using assms
proof (induction rule: reader_loop.raw_induct [rotated, consumes 1, case_names step])
  case (step f rmatch g bufcap buf r et s res)
  show ?case
  proof
    assume ok: "gm_ok (s_matches s)"
    obtain chunk rerr r' where rd: "ReadFull (bufcap - length buf) r = (chunk, rerr, r')"
      by (cases "ReadFull (bufcap - length buf) r") auto
    define endp where "endp = (if rerr = None then nat (LastIndexByte (buf @ chunk) nl + 1) else length (buf @ chunk))"
    define sc where "sc = scan_chunk rmatch g (buf @ chunk) endp (if rerr = None then et else True) 0 s"
    define s1 where "s1 = (if rerr = None
      then (fst sc)\<lparr>s_lineno := s_lineno (fst sc) + countNL (slice (buf @ chunk) (snd sc) endp)\<rparr> else fst sc)"
    have ok1: "gm_ok (s_matches s1)"
      using scan_chunk_wf [OF ok] by (simp add: s1_def sc_def)
    have "(if drop endp (buf @ chunk) = [] \<and> rerr \<noteq> None then Some (s1, the rerr)
        else f rmatch g bufcap (drop endp (buf @ chunk)) r' (if rerr = None then et else True) s1) = Some res"
      using step(2) unfolding rd prod.case Let_def s1_def sc_def endp_def .
    then show "gm_ok (s_matches (fst res))"
      using ok1 by (auto split: if_split_asm dest!: step(1))
  qed
qed

lemma reader_wf: "reader rmatch g r = Some (n, m, e) \<Longrightarrow> gm_ok m"
  using reader_loop_wf [of rmatch g "case g_buf g of None \<Rightarrow> bufSize | Some n \<Rightarrow> n" "[]" r False init_scan]
  by (auto simp: reader_def init_scan_def)

end
