(* ===== verification/Search.thy ===== *)
theory Search
  imports Config Merge Grepper_Correct
begin

text \<open>
  \<open>afind/search.go\<close> and the search of one index file in \<open>afind/grepper.go\<close>: queries, results
  and how results are merged, the search of one shard, and the searcher that starts one
  goroutine per shard of a repository and merges what they send.

  The regular-expression compiler, the index reader and the file system are parameters
  (\<open>grep_env\<close>); whether the request's context has expired is asked at the points where the
  code polls it.
\<close>

section \<open>Queries and results\<close>

record search_context =
  sc_Both :: int
  sc_Pre :: int
  sc_Post :: int

record search_query =
  sq_Re :: string
  sq_PathRe :: string
  sq_IgnoreCase :: bool
  sq_RepoKeys :: "string list"
  sq_Meta :: meta
  sq_MetaRegexpMatch :: bool
  sq_MetaReplicaKey :: string
  sq_MetaReplicaMax :: int
  sq_Context :: search_context
  sq_MaxMatches :: uint64
  sq_Timeout :: duration
  sq_Recurse :: bool

definition NewSearchQuery :: "string \<Rightarrow> string \<Rightarrow> bool \<Rightarrow> string list \<Rightarrow> search_query" where
  "NewSearchQuery re pathRe ignore repoKeys = \<lparr>sq_Re = re, sq_PathRe = pathRe,
     sq_IgnoreCase = ignore, sq_RepoKeys = repoKeys, sq_Meta = [], sq_MetaRegexpMatch = False,
     sq_MetaReplicaKey = '''', sq_MetaReplicaMax = 0,
     sq_Context = \<lparr>sc_Both = 0, sc_Pre = 0, sc_Post = 0\<rparr>, sq_MaxMatches = 0, sq_Timeout = 0,
     sq_Recurse = False\<rparr>"

definition firstKey :: "search_query \<Rightarrow> string" where
  "firstKey q = (if length (sq_RepoKeys q) > 0 then sq_RepoKeys q ! 0 else '''')"

definition SearchQuery_Normalize :: "search_query \<Rightarrow> go_error option" where
  "SearchQuery_Normalize q =
     (if length (sq_Re q) < 3 then Some (NewValueError ''re'' ''must be at least 3 characters'')
      else None)"

type_synonym fileMap = "(string, string) gomap"
type_synonym repoMatchMap = "(string, fileMap) gomap"
type_synonym matchMap = "(string, repoMatchMap) gomap"

record search_durations =
  sd_PostingQuery :: duration
  sd_GetRepos :: duration
  sd_Search :: duration
  sd_CombinedPostingQuery :: duration
  sd_CombinedSearch :: duration

record search_result =
  sr_Matches :: matchMap
  sr_Errors :: "(string, struct_error) gomap"
  sr_Error :: string
  sr_NumMatches :: uint64
  sr_Repos :: "(string, repo) gomap"
  sr_MaxMatches :: uint64
  sr_Durations :: search_durations

definition NewSearchResult :: search_result where
  "NewSearchResult = \<lparr>sr_Matches = [], sr_Errors = [], sr_Error = '''', sr_NumMatches = 0,
     sr_Repos = [], sr_MaxMatches = 0,
     sr_Durations = \<lparr>sd_PostingQuery = 0, sd_GetRepos = 0, sd_Search = 0,
       sd_CombinedPostingQuery = 0, sd_CombinedSearch = 0\<rparr>\<rparr>"

definition EnoughResults :: "search_result \<Rightarrow> bool" where
  "EnoughResults r \<longleftrightarrow> sr_MaxMatches r > 0 \<and> sr_NumMatches r \<ge> sr_MaxMatches r"

definition SearchResult_SetError :: "go_error option \<Rightarrow> search_result \<Rightarrow> search_result" where
  "SearchResult_SetError err sr =
     (case err of
        Some (StructError Ptr e) \<Rightarrow> sr\<lparr>sr_Error := StructError_Error e\<rparr>
      | Some e \<Rightarrow> sr\<lparr>sr_Error := StructError_Error (NewStructError e)\<rparr>
      | None \<Rightarrow> sr)"

definition kSearchTimeoutError :: struct_error where
  "kSearchTimeoutError = NewStructError (NewTimeoutError ''search'')"

definition kRepoUnavailableError :: struct_error where
  "kRepoUnavailableError = NewStructError NewRepoUnavailableError"

definition kRepoKeyEmptyError :: struct_error where
  "kRepoKeyEmptyError = NewStructError (NewValueError ''RepoKeys'' ''Must not be empty'')"

section \<open>Merging results\<close>

text \<open>\<open>m[k]\<close> of a map of maps or slices, an absent entry being made empty first.\<close>

definition gm_sub :: "('k, 'a list) gomap \<Rightarrow> 'k \<Rightarrow> 'a list" where
  "gm_sub m k = (case map_of m k of None \<Rightarrow> [] | Some x \<Rightarrow> x)"

definition AddFileRepoMatches ::
  "string \<Rightarrow> string \<Rightarrow> fileMap \<Rightarrow> search_result \<Rightarrow> search_result" where
  "AddFileRepoMatches fname repokey matches r =
     (if length matches = 0 then r
      else (let repos = gm_sub (sr_Matches r) fname;
                ms = gm_sub repos repokey
            in r\<lparr>sr_Matches := gm_put fname (gm_put repokey (gm_copy matches ms) repos) (sr_Matches r),
                 sr_NumMatches := sr_NumMatches r + of_nat (length matches)\<rparr>))"

definition SearchResult_Update :: "search_result \<Rightarrow> search_result \<Rightarrow> search_result" where
  "SearchResult_Update other r =
     (let r = r\<lparr>sr_Errors := gm_copy (sr_Errors other) (sr_Errors r)\<rparr>;
          r = r\<lparr>sr_Repos := gm_copy (sr_Repos other) (sr_Repos r)\<rparr>;
          r = (if sr_Error r = '''' then r\<lparr>sr_Error := sr_Error other\<rparr>
               else r\<lparr>sr_Error := sr_Error r @ [CHR 0x0A] @ sr_Error other\<rparr>);
          d = sr_Durations r;
          r = r\<lparr>sr_Durations := d\<lparr>
            sd_CombinedSearch := sd_CombinedSearch d + sd_Search (sr_Durations other),
            sd_CombinedPostingQuery :=
              sd_CombinedPostingQuery d + sd_PostingQuery (sr_Durations other)\<rparr>\<rparr>
      in fold (\<lambda>(file, rmatches). fold (\<lambda>(repo, matches). AddFileRepoMatches file repo matches) rmatches)
           (sr_Matches other) r)"

text \<open>One line of a result: by file, repository key and line number.\<close>

definition match_at :: "search_result \<Rightarrow> string \<times> string \<times> string \<Rightarrow> string option" where
  "match_at r = (\<lambda>(file, repo, line). map_of (gm_sub (gm_sub (sr_Matches r) file) repo) line)"

definition error_at :: "search_result \<Rightarrow> string \<Rightarrow> struct_error option" where
  "error_at r = map_of (sr_Errors r)"

definition repo_at :: "search_result \<Rightarrow> string \<Rightarrow> repo option" where
  "repo_at r = map_of (sr_Repos r)"

definition matches_ok :: "matchMap \<Rightarrow> bool" where
  "matches_ok m \<longleftrightarrow> gm_ok m \<and> (\<forall>(f, rs) \<in> set m. gm_ok rs \<and> (\<forall>(k, ls) \<in> set rs. gm_ok ls))"

definition sr_ok :: "search_result \<Rightarrow> bool" where
  "sr_ok r \<longleftrightarrow> matches_ok (sr_Matches r) \<and> gm_ok (sr_Errors r) \<and> gm_ok (sr_Repos r)"

text \<open>The lines a map of matches holds, over all files and repositories.\<close>

definition count_lines :: "matchMap \<Rightarrow> nat" where
  "count_lines m = sum_list (map (\<lambda>(f, rs). sum_list (map (\<lambda>(k, ls). length ls) rs)) m)"

lemma gm_sub_put [simp]: "gm_sub (gm_put k v m) k' = (if k' = k then v else gm_sub m k')"
  by (simp add: gm_sub_def)

lemma gm_sub_Nil [simp]: "gm_sub [] k = []"
  by (simp add: gm_sub_def)

lemma match_at_Add:
  "gm_ok matches \<Longrightarrow> match_at (AddFileRepoMatches fname repokey matches r) =
     match_at r ++ (\<lambda>(f, k, l). if f = fname \<and> k = repokey then map_of matches l else None)"
  by (auto simp: fun_eq_iff AddFileRepoMatches_def Let_def match_at_def map_add_def map_of_gm_copy
      split: option.splits)

lemma NumMatches_Add:
  "sr_NumMatches (AddFileRepoMatches fname repokey matches r) =
     sr_NumMatches r + of_nat (length matches)"
  by (simp add: AddFileRepoMatches_def Let_def)

lemma Add_other_fields [simp]:
  "sr_Errors (AddFileRepoMatches f k ms r) = sr_Errors r"
  "sr_Error (AddFileRepoMatches f k ms r) = sr_Error r"
  "sr_Repos (AddFileRepoMatches f k ms r) = sr_Repos r"
  "sr_MaxMatches (AddFileRepoMatches f k ms r) = sr_MaxMatches r"
  "sr_Durations (AddFileRepoMatches f k ms r) = sr_Durations r"
  by (simp_all add: AddFileRepoMatches_def Let_def)

lemma gm_sub_ok:
  assumes "matches_ok m"
  shows "gm_ok (gm_sub m f)" "\<forall>(k, ls) \<in> set (gm_sub m f). gm_ok ls"
proof -
  have "gm_ok (gm_sub m f) \<and> (\<forall>(k, ls) \<in> set (gm_sub m f). gm_ok ls)"
  proof (cases "map_of m f")
    case (Some rs)
    then have "(f, rs) \<in> set m" by (rule map_of_SomeD)
    with assms Some show ?thesis by (auto simp: gm_sub_def matches_ok_def)
  qed (simp add: gm_sub_def)
  then show "gm_ok (gm_sub m f)" "\<forall>(k, ls) \<in> set (gm_sub m f). gm_ok ls" by blast+
qed

lemma gm_sub_sub_ok:
  assumes "matches_ok m"
  shows "gm_ok (gm_sub (gm_sub m f) k)"
proof (cases "map_of (gm_sub m f) k")
  case (Some ls)
  then have "(k, ls) \<in> set (gm_sub m f)" by (rule map_of_SomeD)
  with gm_sub_ok(2) [OF assms] have "gm_ok ls" by blast
  with Some show ?thesis by (simp add: gm_sub_def [of "gm_sub m f"])
qed (simp add: gm_sub_def [of "gm_sub m f"])

lemma set_gm_put: "gm_ok m \<Longrightarrow> set (gm_put k v m) = insert (k, v) {(k', v') \<in> set m. k' \<noteq> k}"
  by (auto simp: map_of_in_set [symmetric] split: if_splits)

lemma matches_ok_Add:
  assumes "matches_ok (sr_Matches r)" "gm_ok matches"
  shows "matches_ok (sr_Matches (AddFileRepoMatches fname repokey matches r))"
proof -
  let ?rs = "gm_sub (sr_Matches r) fname"
  have ok: "gm_ok (sr_Matches r)" "gm_ok ?rs"
    using assms(1) gm_sub_ok(1) by (auto simp: matches_ok_def)
  note inner = gm_sub_ok(2) [OF assms(1), of fname]
  have "gm_ok (gm_sub ?rs repokey)" by (rule gm_sub_sub_ok [OF assms(1)])
  with ok inner assms(1) show ?thesis
    by (auto simp: AddFileRepoMatches_def Let_def matches_ok_def set_gm_put)
qed

definition add_repos :: "string \<Rightarrow> repoMatchMap \<Rightarrow> search_result \<Rightarrow> search_result" where
  "add_repos file rmatches r =
     fold (\<lambda>(repo, matches). AddFileRepoMatches file repo matches) rmatches r"

lemma match_at_add_repos:
  assumes "gm_ok rmatches" "\<forall>(k, ls) \<in> set rmatches. gm_ok ls"
  shows "match_at (add_repos file rmatches r) = match_at r ++
    (\<lambda>(f, k, l). if f = file then map_of (gm_sub rmatches k) l else None)"
  using assms unfolding add_repos_def
proof (induction rmatches arbitrary: r)
  case (Cons kls rs)
  obtain k ls where kls: "kls = (k, ls)" by (cases kls)
  with Cons.prems have "map_of rs k = None" by (auto simp: gm_ok_Cons map_of_eq_None_iff)
  with Cons show ?case
    by (auto simp: kls fun_eq_iff gm_ok_Cons match_at_Add map_add_def gm_sub_def
        split: option.splits)
qed (simp add: fun_eq_iff map_add_def split: option.splits)

lemma add_repos_other [simp]:
  "sr_Errors (add_repos f rs r) = sr_Errors r" "sr_Error (add_repos f rs r) = sr_Error r"
  "sr_Repos (add_repos f rs r) = sr_Repos r" "sr_MaxMatches (add_repos f rs r) = sr_MaxMatches r"
  "sr_Durations (add_repos f rs r) = sr_Durations r"
  unfolding add_repos_def by (induction rs arbitrary: r) auto

lemma NumMatches_add_repos:
  "sr_NumMatches (add_repos f rs r) = sr_NumMatches r + of_nat (sum_list (map (\<lambda>(k, ls). length ls) rs))"
  unfolding add_repos_def by (induction rs arbitrary: r) (auto simp: NumMatches_Add)

lemma matches_ok_add_repos:
  "matches_ok (sr_Matches r) \<Longrightarrow> \<forall>(k, ls) \<in> set rs. gm_ok ls \<Longrightarrow> matches_ok (sr_Matches (add_repos f rs r))"
  unfolding add_repos_def by (induction rs arbitrary: r) (auto simp: matches_ok_Add)

definition add_files :: "matchMap \<Rightarrow> search_result \<Rightarrow> search_result" where
  "add_files m r = fold (\<lambda>(f, rs). add_repos f rs) m r"

lemma add_files_other [simp]:
  "sr_Errors (add_files m r) = sr_Errors r" "sr_Error (add_files m r) = sr_Error r"
  "sr_Repos (add_files m r) = sr_Repos r" "sr_MaxMatches (add_files m r) = sr_MaxMatches r"
  "sr_Durations (add_files m r) = sr_Durations r"
  unfolding add_files_def by (induction m arbitrary: r) auto

lemma NumMatches_add_files:
  "sr_NumMatches (add_files m r) = sr_NumMatches r + of_nat (count_lines m)"
  unfolding add_files_def
  by (induction m arbitrary: r) (auto simp: NumMatches_add_repos count_lines_def)

lemma match_at_add_files:
  assumes "matches_ok m"
  shows "match_at (add_files m r) = match_at r ++ (\<lambda>(f, k, l). map_of (gm_sub (gm_sub m f) k) l)"
  unfolding add_files_def using assms
proof (induction m arbitrary: r)
  case (Cons frs m)
  obtain f rs where frs: "frs = (f, rs)" by (cases frs)
  with Cons.prems have *: "gm_ok rs" "\<forall>(k, ls) \<in> set rs. gm_ok ls" "matches_ok m"
    "map_of m f = None"
    by (auto simp: matches_ok_def gm_ok_Cons map_of_eq_None_iff)
  have sub: "gm_sub ((f, rs) # m) f' = (if f' = f then rs else gm_sub m f')" for f'
    by (simp add: gm_sub_def)
  have "gm_sub m f = []" using *(4) by (simp add: gm_sub_def)
  then show ?case
    by (auto simp: frs Cons.IH [OF *(3)] match_at_add_repos [OF *(1,2)] sub fun_eq_iff map_add_def
        split: option.splits)
qed (simp add: fun_eq_iff map_add_def split: option.splits)

lemma matches_ok_add_files:
  "matches_ok (sr_Matches r) \<Longrightarrow> matches_ok m \<Longrightarrow> matches_ok (sr_Matches (add_files m r))"
  unfolding add_files_def
proof (induction m arbitrary: r)
  case (Cons frs m)
  then show ?case
    by (cases frs) (auto simp: matches_ok_def [of "_ # _"] matches_ok_def [of m] gm_ok_Cons
        intro!: Cons.IH matches_ok_add_repos)
qed simp

lemma add_files_eq:
  "fold (\<lambda>(file, rmatches). fold (\<lambda>(repo, matches). AddFileRepoMatches file repo matches) rmatches) m r
    = add_files m r"
proof -
  have "add_repos = (\<lambda>file. fold (\<lambda>(repo, matches). AddFileRepoMatches file repo matches))"
    by (simp add: fun_eq_iff add_repos_def)
  then show ?thesis by (simp only: add_files_def)
qed

lemmas Update_unfold = SearchResult_Update_def [unfolded add_files_eq Let_def]

lemma Update_fields:
  "sr_Errors (SearchResult_Update x r) = gm_copy (sr_Errors x) (sr_Errors r)"
  "sr_Repos (SearchResult_Update x r) = gm_copy (sr_Repos x) (sr_Repos r)"
  "sr_NumMatches (SearchResult_Update x r) = sr_NumMatches r + of_nat (count_lines (sr_Matches x))"
  "sr_MaxMatches (SearchResult_Update x r) = sr_MaxMatches r"
  "sr_Error (SearchResult_Update x r) =
     (if sr_Error r = '''' then sr_Error x else sr_Error r @ [CHR 0x0A] @ sr_Error x)"
  by (simp_all add: Update_unfold NumMatches_add_files)

lemma match_at_Update:
  "sr_ok x \<Longrightarrow> match_at (SearchResult_Update x r) = match_at r ++ match_at x"
  by (simp add: Update_unfold match_at_add_files sr_ok_def) (simp add: match_at_def)

lemma sr_ok_Update: "sr_ok x \<Longrightarrow> sr_ok r \<Longrightarrow> sr_ok (SearchResult_Update x r)"
proof -
  assume *: "sr_ok x" "sr_ok r"
  then have "matches_ok (sr_Matches (SearchResult_Update x r))"
    unfolding Update_unfold by (intro matches_ok_add_files) (simp_all add: sr_ok_def)
  with * show ?thesis by (simp add: sr_ok_def Update_fields gm_ok_copy)
qed

interpretation merged_matches: result_merge SearchResult_Update match_at sr_ok
  by unfold_locales (simp_all add: match_at_Update sr_ok_Update)

interpretation merged_errors: result_merge SearchResult_Update error_at sr_ok
proof unfold_locales
  fix x r assume "sr_ok x" "sr_ok r"
  then show "error_at (SearchResult_Update x r) = error_at r ++ error_at x"
    by (simp add: error_at_def Update_fields map_of_gm_copy sr_ok_def)
qed (rule sr_ok_Update)

interpretation merged_repos: result_merge SearchResult_Update repo_at sr_ok
proof unfold_locales
  fix x r assume "sr_ok x" "sr_ok r"
  then show "repo_at (SearchResult_Update x r) = repo_at r ++ repo_at x"
    by (simp add: repo_at_def Update_fields map_of_gm_copy sr_ok_def)
qed (rule sr_ok_Update)


text \<open>Results that do not contradict each other, as those of different repositories.\<close>

definition results_agree :: "search_result list \<Rightarrow> bool" where
  "results_agree ins \<longleftrightarrow> (\<forall>a \<in> set ins. \<forall>b \<in> set ins.
     (\<forall>k v w. match_at a k = Some v \<longrightarrow> match_at b k = Some w \<longrightarrow> v = w) \<and>
     (\<forall>k v w. error_at a k = Some v \<longrightarrow> error_at b k = Some w \<longrightarrow> v = w) \<and>
     (\<forall>k v w. repo_at a k = Some v \<longrightarrow> repo_at b k = Some w \<longrightarrow> v = w))"

lemma results_agree_views:
  "results_agree ins \<Longrightarrow>
   merged_matches.agree ins \<and> merged_errors.agree ins \<and> merged_repos.agree ins"
  unfolding results_agree_def merged_matches.agree_def merged_errors.agree_def
    merged_repos.agree_def by blast

lemma NumMatches_fold:
  "sr_NumMatches (fold SearchResult_Update ins r) =
     sr_NumMatches r + sum_list (map (\<lambda>x. of_nat (count_lines (sr_Matches x))) ins)"
  by (induction ins arbitrary: r) (simp_all add: Update_fields add.assoc)

text \<open>Merging a result into another overrides entry by entry: a line, an error or a repository
  of the incoming result replaces the one under the same key and nothing else changes; the
  count of matches grows by the number of lines the incoming result holds (lines of context
  included), and two errors are joined by a newline.\<close>

theorem Update_overrides:
  assumes "sr_ok other" "sr_ok r"
  shows "match_at (SearchResult_Update other r) = match_at r ++ match_at other \<and>
    error_at (SearchResult_Update other r) = error_at r ++ error_at other \<and>
    repo_at (SearchResult_Update other r) = repo_at r ++ repo_at other \<and>
    sr_NumMatches (SearchResult_Update other r)
      = sr_NumMatches r + of_nat (count_lines (sr_Matches other)) \<and>
    sr_Error (SearchResult_Update other r) =
      (if sr_Error r = '''' then sr_Error other else sr_Error r @ [CHR 0x0A] @ sr_Error other) \<and>
    sr_ok (SearchResult_Update other r)"
  using assms
  by (simp add: Update_fields merged_matches.view_merge merged_errors.view_merge
      merged_repos.view_merge merged_matches.wf_merge)

lemma Update_overrides_witness:
  "match_at (SearchResult_Update (NewSearchResult\<lparr>sr_Matches := [(''f'', [(''k'', [(''1'', ''b'')])])]\<rparr>)
      (NewSearchResult\<lparr>sr_Matches := [(''f'', [(''k'', [(''1'', ''a''), (''2'', ''c'')])])]\<rparr>))
     (''f'', ''k'', ''1'') = Some ''b''"
  using Update_overrides
    [of "NewSearchResult\<lparr>sr_Matches := [(''f'', [(''k'', [(''1'', ''b'')])])]\<rparr>"
      "NewSearchResult\<lparr>sr_Matches := [(''f'', [(''k'', [(''1'', ''a''), (''2'', ''c'')])])]\<rparr>"]
  by (simp add: sr_ok_def matches_ok_def NewSearchResult_def gm_ok_def match_at_def gm_sub_def)

text \<open>C18. When the results do not contradict each other, the order in which they arrive does not
  show in the merged result: the same lines, errors, repositories and count.\<close>

theorem Update_order_immaterial:
  assumes "sr_ok r" "\<And>a. a \<in> set ins \<Longrightarrow> sr_ok a" "results_agree ins" "mset ins = mset ins'"
  shows "match_at (fold SearchResult_Update ins r) = match_at (fold SearchResult_Update ins' r) \<and>
    error_at (fold SearchResult_Update ins r) = error_at (fold SearchResult_Update ins' r) \<and>
    repo_at (fold SearchResult_Update ins r) = repo_at (fold SearchResult_Update ins' r) \<and>
    sr_NumMatches (fold SearchResult_Update ins r) = sr_NumMatches (fold SearchResult_Update ins' r)"
proof -
  have set: "set ins = set ins'" using assms(4) by (rule mset_eq_setD)
  note agree = results_agree_views [OF assms(3)]
  have "sum_list (map f ins) = sum_list (map f ins')" for f :: "search_result \<Rightarrow> uint64"
    using assms(4) by (metis mset_map sum_mset_sum_list)
  then show ?thesis
    using agree merged_matches.view_fold_order [OF assms(1,2) _ set]
      merged_errors.view_fold_order [OF assms(1,2) _ set]
      merged_repos.view_fold_order [OF assms(1,2) _ set]
    by (simp add: NumMatches_fold)
qed

lemma Update_order_immaterial_witness:
  "let a = NewSearchResult\<lparr>sr_Matches := [(''f'', [(''k'', [(''1'', ''a'')])])]\<rparr>;
       b = NewSearchResult\<lparr>sr_Matches := [(''f'', [(''j'', [(''1'', ''b'')])])]\<rparr>
   in match_at (fold SearchResult_Update [a, b] NewSearchResult)
     = match_at (fold SearchResult_Update [b, a] NewSearchResult)"
proof -
  let ?a = "NewSearchResult\<lparr>sr_Matches := [(''f'', [(''k'', [(''1'', ''a'')])])]\<rparr>"
  let ?b = "NewSearchResult\<lparr>sr_Matches := [(''f'', [(''j'', [(''1'', ''b'')])])]\<rparr>"
  have ok: "sr_ok ?a" "sr_ok ?b" "sr_ok NewSearchResult"
    by (simp_all add: sr_ok_def matches_ok_def NewSearchResult_def gm_ok_def)
  have "results_agree [?a, ?b]"
    by (simp add: results_agree_def match_at_def error_at_def repo_at_def NewSearchResult_def
        gm_sub_def)
  from Update_order_immaterial [OF ok(3) _ this, of "[?b, ?a]"] ok show ?thesis
    by (auto simp: Let_def)
qed

section \<open>Searching one index file\<close>

text \<open>
  \<open>ge_open root name\<close> opens a file of the file system at a repository's root. A compiled
  expression has its \<open>Match\<close> on the file text and its \<open>MatchString\<close> on a file name; \<open>Inl\<close> is an error.
\<close>

record ('re, 'ix) grep_env =
  ge_compile :: "string \<Rightarrow> go_error + 're"
  ge_match :: "'re \<Rightarrow> regexp_match"
  ge_match_name :: "'re \<Rightarrow> string \<Rightarrow> int"
  ge_index_open :: "string \<Rightarrow> go_error + 'ix"
  ge_posting :: "'ix \<Rightarrow> 're \<Rightarrow> nat list"
  ge_name :: "'ix \<Rightarrow> nat \<Rightarrow> string"
  ge_open :: "string \<Rightarrow> string \<Rightarrow> go_error + source"

fun the_regexp :: "go_error + 're \<Rightarrow> 're option" where
  "the_regexp (Inl e) = None"
| "the_regexp (Inr re) = Some re"

fun the_error :: "go_error + 'a \<Rightarrow> go_error option" where
  "the_error (Inl e) = Some e"
| "the_error (Inr re) = None"

definition buildRegexps ::
  "(string \<Rightarrow> go_error + 're) \<Rightarrow> search_query \<Rightarrow> 're option \<times> 're option \<times> go_error option" where
  "buildRegexps compile query =
     (let pattern = ''(?m)'' @ sq_Re query;
          pattern = (if sq_IgnoreCase query then ''(?i)'' @ pattern else pattern);
          c = compile pattern
      in if sq_PathRe query \<noteq> ''''
         then (let p = compile (sq_PathRe query) in (the_regexp c, the_regexp p, the_error p))
         else (the_regexp c, None, the_error c))"

definition readfile ::
  "('re, 'ix) grep_env \<Rightarrow> 're \<Rightarrow> grep \<Rightarrow> string \<Rightarrow> (int \<times> (string, string) gomap \<times> go_error option) option"
where
  "readfile env re g name =
     (case ge_open env (g_root g) name of
        Inl e \<Rightarrow> Some (0, [], Some e)
      | Inr f \<Rightarrow> reader (ge_match env re) g f)"

text \<open>
  The loop over the candidate files, \<open>expired i\<close> being the answer of the \<open>i\<close>-th poll of the
  context. The buffer that the first file allocates is used for the others, with the capacity
  that \<open>reader\<close> gives it. The result is \<open>None\<close> when a file is never read to its end.
\<close>

fun grep_files ::
  "('re, 'ix) grep_env \<Rightarrow> 're \<Rightarrow> grep \<Rightarrow> string \<Rightarrow> (nat \<Rightarrow> bool) \<Rightarrow> nat \<Rightarrow> string list \<Rightarrow>
   search_result \<Rightarrow> go_error option \<Rightarrow> (search_result \<times> go_error option) option" where
  "grep_files env re g key expired i [] resp err = Some (resp, err)"
| "grep_files env re g key expired i (name # names) resp err =
     (if expired i then Some (resp, Some (NewTimeoutError ''search''))
      else (case readfile env re g name of
          None \<Rightarrow> None
        | Some (n, matches, e) \<Rightarrow>
            if n = 0 then grep_files env re g key expired (i + 1) names resp err
            else (case e of
                Some er \<Rightarrow>
                  if \<not> IsNotExist er \<and> \<not> IsPermission er
                  then grep_files env re g key expired (i + 1) names resp (Some er)
                  else grep_files env re g key expired (i + 1) names
                    (resp\<lparr>sr_Matches := gm_put name [(key, matches)] (sr_Matches resp),
                          sr_NumMatches := sr_NumMatches resp + of_int n\<rparr>) err
              | None \<Rightarrow> grep_files env re g key expired (i + 1) names
                    (resp\<lparr>sr_Matches := gm_put name [(key, matches)] (sr_Matches resp),
                          sr_NumMatches := sr_NumMatches resp + of_int n\<rparr>) err)))"

text \<open>
  \<open>grep.search\<close>; \<open>posted\<close> is the time the posting query takes. Without a compiled expression,
  \<open>re.Syntax\<close> reads through a nil pointer.
\<close>

definition grep_search ::
  "('re, 'ix) grep_env \<Rightarrow> grep \<Rightarrow> (nat \<Rightarrow> bool) \<Rightarrow> duration \<Rightarrow> search_query \<Rightarrow>
   (search_result \<times> go_error option) outcome option" where
  "grep_search env g expired posted query =
     (let resp = NewSearchResult; key = firstKey query;
          (re, pathre, err) = buildRegexps (ge_compile env) query
      in if err \<noteq> None then Some (Returns (resp, err))
         else (case ge_index_open env (g_filename g) of
             Inl e \<Rightarrow> Some (Returns (resp, Some e))
           | Inr ix \<Rightarrow>
               (case re of
                  None \<Rightarrow> Some (Panics ''invalid memory address or nil pointer dereference'')
                | Some r \<Rightarrow>
                    (let post = ge_posting env ix r;
                         post = (case pathre of None \<Rightarrow> post
                           | Some p \<Rightarrow> filter (\<lambda>id. \<not> ge_match_name env p (ge_name env ix id) < 0) post);
                         resp = resp\<lparr>sr_Durations := (sr_Durations resp)\<lparr>sd_PostingQuery := posted\<rparr>\<rparr>;
                         g = g\<lparr>g_ctxPre := sc_Pre (sq_Context query),
                               g_ctxPost := sc_Post (sq_Context query),
                               g_ctxBoth := sc_Both (sq_Context query)\<rparr>
                     in map_option Returns
                          (grep_files env r g key expired 0 (map (ge_name env ix) post) resp None)))))"

definition searchLocal ::
  "('re, 'ix) grep_env \<Rightarrow> (nat \<Rightarrow> bool) \<Rightarrow> duration \<Rightarrow> search_query \<Rightarrow> repo \<Rightarrow> string \<Rightarrow>
   (search_result \<times> go_error option) outcome option" where
  "searchLocal env expired posted req repo fname =
     (case grep_search env (newGrep fname (r_Root repo)) expired posted req of
        Some (Returns (sr, err)) \<Rightarrow>
          Some (Returns (sr\<lparr>sr_Repos := gm_put (r_Key repo) repo (sr_Repos sr)\<rparr>, err))
      | res \<Rightarrow> res)"

text \<open>C36. A query whose text expression does not compile but whose path expression does is not
  reported as an error: \<open>buildRegexps\<close> overwrites the first error with the second call's, and
  the search of any index that opens panics.\<close>

theorem invalid_expression_panics:
  assumes "ge_compile env (if sq_IgnoreCase q then ''(?i)(?m)'' @ sq_Re q else ''(?m)'' @ sq_Re q) = Inl e"
    and "sq_PathRe q \<noteq> ''''" and "ge_compile env (sq_PathRe q) = Inr p"
    and "ge_index_open env (g_filename g) = Inr ix"
  shows "snd (snd (buildRegexps (ge_compile env) q)) = None \<and>
    (\<exists>msg. grep_search env g expired posted q = Some (Panics msg))"
proof -
  have "ge_compile env (if sq_IgnoreCase q then ''(?i)'' @ ''(?m)'' @ sq_Re q else ''(?m)'' @ sq_Re q)
      = Inl e"
    using assms(1) by (cases "sq_IgnoreCase q") simp_all
  then have "buildRegexps (ge_compile env) q = (None, Some p, None)"
    using assms(2,3) unfolding buildRegexps_def Let_def by (simp only: the_regexp.simps the_error.simps if_True not_False_eq_True simp_thms)
  then show ?thesis using assms(4) by (simp add: grep_search_def Let_def)
qed

text \<open>An environment with one index file that names its files by number, to instantiate claims:
  an expression is the text it looks for, and an opening parenthesis alone does not compile.\<close>

definition tiny_env :: "(string \<times> string) list \<Rightarrow> (string, string list) grep_env" where
  "tiny_env files = \<lparr>ge_compile = (\<lambda>s. if s = ''(?m)('' then Inl (OtherError ''missing closing )'') else Inr s),
     ge_match = (\<lambda>re b _ e. line_match (\<lambda>l. sublist (drop 4 re) l) b e),
     ge_match_name = (\<lambda>re name. if sublist re name then int (length name) else -1),
     ge_index_open = (\<lambda>_. Inr (map fst files)), ge_posting = (\<lambda>ix _. [0..<length ix]),
     ge_name = (\<lambda>ix i. ix ! i),
     ge_open = (\<lambda>_ name. case map_of files name of None \<Rightarrow> Inl (NotExistError name)
       | Some d \<Rightarrow> Inr \<lparr>io_data = d, io_err = EOF\<rparr>)\<rparr>"

lemma invalid_expression_panics_witness:
  "\<exists>msg. grep_search (tiny_env []) (newGrep ''ix'' ''/'') (\<lambda>_. False) 0 (NewSearchQuery ''('' ''c'' False [''k''])
     = Some (Panics msg)"
  using invalid_expression_panics [of "tiny_env []" "NewSearchQuery ''('' ''c'' False [''k'']"
      "OtherError ''missing closing )''" "''c''" "newGrep ''ix'' ''/''" "[]"]
  by (simp add: tiny_env_def NewSearchQuery_def)

definition file_lines :: "('re, 'ix) grep_env \<Rightarrow> string \<Rightarrow> string \<Rightarrow> string list" where
  "file_lines env root f = (case ge_open env root f of Inl _ \<Rightarrow> [] | Inr src \<Rightarrow> lines (io_data src))"

definition file_hits :: "('re, 'ix) grep_env \<Rightarrow> string \<Rightarrow> (string \<Rightarrow> bool) \<Rightarrow> string \<Rightarrow> nat set" where
  "file_hits env root P f =
     {i. i < length (file_lines env root f) \<and> P (strip (file_lines env root f ! i))}"

text \<open>A file that does not open, or is read to its end and has no line as long as the buffer.\<close>

definition readable :: "('re, 'ix) grep_env \<Rightarrow> string \<Rightarrow> string \<Rightarrow> bool" where
  "readable env root f = (case ge_open env root f of Inl _ \<Rightarrow> True
     | Inr src \<Rightarrow> io_err src = EOF \<and> fits bufSize (io_data src))"

lemma readfile_lines:
  assumes "line_matcher P (ge_match env re)" "npre g \<le> 0" "npost g \<le> 0" "g_buf g = None"
    "readable env (g_root g) f"
  shows "\<exists>m e. readfile env re g f = Some (int (card (file_hits env (g_root g) P f)), m, e) \<and>
    (card (file_hits env (g_root g) P f) \<noteq> 0 \<longrightarrow> e = None) \<and>
    entries (file_lines env (g_root g) f) (file_hits env (g_root g) P f) m"
proof (cases "ge_open env (g_root g) f")
  case (Inl e)
  then show ?thesis by (simp add: readfile_def file_hits_def file_lines_def)
next
  case (Inr src)
  have cap: "buf_cap g = bufSize" "0 < buf_cap g" using assms(4) by (simp_all add: buf_cap_def bufSize_def)
  with assms(5) Inr have "fits (buf_cap g) (io_data src)" "io_err src = EOF"
    by (simp_all add: readable_def)
  with reader_reports_lines [OF assms(1,3) cap(2), of src] assms(2) Inr show ?thesis
    by (auto simp: readfile_def file_hits_def file_lines_def above_def Let_def)
qed

lemma grep_files_lines:
  assumes "line_matcher P (ge_match env re)" "npre g \<le> 0" "npost g \<le> 0" "g_buf g = None"
    and "\<And>f. f \<in> set names \<Longrightarrow> readable env (g_root g) f" "\<And>i. \<not> expired i"
  shows "\<exists>res. grep_files env re g key expired i names resp err = Some (res, err) \<and>
    (\<forall>f k l v. match_at res (f, k, l) = Some v \<longleftrightarrow>
      (if f \<in> set names \<and> file_hits env (g_root g) P f \<noteq> {}
       then k = key \<and> (\<exists>j \<in> file_hits env (g_root g) P f.
         l = Itoa (int j + 1) \<and> v = file_lines env (g_root g) f ! j)
       else match_at resp (f, k, l) = Some v)) \<and>
    sr_NumMatches res = sr_NumMatches resp +
      of_nat (sum_list (map (\<lambda>f. card (file_hits env (g_root g) P f)) names)) \<and>
    sr_Errors res = sr_Errors resp \<and> sr_Repos res = sr_Repos resp"
  using assms(5)
proof (induction names arbitrary: i resp)
  case (Cons f names)
  let ?H = "\<lambda>f. file_hits env (g_root g) P f" and ?L = "\<lambda>f. file_lines env (g_root g) f"
  have fin: "finite (?H f)" for f by (simp add: file_hits_def)
  obtain m e where rd: "readfile env re g f = Some (int (card (?H f)), m, e)"
    "card (?H f) \<noteq> 0 \<longrightarrow> e = None" "entries (?L f) (?H f) m"
    using readfile_lines [OF assms(1-4) Cons.prems [of f]] by auto
  note IH = Cons.IH [OF Cons.prems, simplified]
  show ?case
  proof (cases "?H f = {}")
    case True
    have "grep_files env re g key expired i (f # names) resp err
        = grep_files env re g key expired (i + 1) names resp err"
      using rd(1) True by (simp add: assms(6))
    moreover have "f' \<in> set (f # names) \<and> ?H f' \<noteq> {} \<longleftrightarrow> f' \<in> set names \<and> ?H f' \<noteq> {}" for f'
      using True by auto
    moreover have "sum_list (map (\<lambda>f. card (?H f)) (f # names)) = sum_list (map (\<lambda>f. card (?H f)) names)"
      using True by simp
    ultimately show ?thesis using Cons.IH [OF Cons.prems, of "i + 1" resp]
      by (simp only: list.set_intros(2))
  next
    case False
    then have n: "card (?H f) \<noteq> 0" using fin by simp
    let ?resp = "resp\<lparr>sr_Matches := gm_put f [(key, m)] (sr_Matches resp),
      sr_NumMatches := sr_NumMatches resp + of_int (int (card (?H f)))\<rparr>"
    have step: "grep_files env re g key expired i (f # names) resp err
        = grep_files env re g key expired (i + 1) names ?resp err"
      using rd(1,2) n by (simp add: assms(6))
    have at: "match_at ?resp (f', k, l) = Some v \<longleftrightarrow>
        (if f' = f then k = key \<and> (\<exists>j \<in> ?H f. l = Itoa (int j + 1) \<and> v = ?L f ! j)
         else match_at resp (f', k, l) = Some v)" for f' k l v
    proof (cases "f' = f")
      case True
      have "map_of m l = Some v \<longleftrightarrow> (\<exists>j \<in> ?H f. l = Itoa (int j + 1) \<and> v = ?L f ! j)"
        using rd(3) by (auto simp: entries_def file_hits_def)
      then show ?thesis using True by (simp add: match_at_def gm_sub_def [of "[_]"])
    qed (simp add: match_at_def)
    from IH [of "i + 1" ?resp] obtain res where
      res: "grep_files env re g key expired (i + 1) names ?resp err = Some (res, err)"
      "\<And>f' k l v. match_at res (f', k, l) = Some v \<longleftrightarrow>
        (if f' \<in> set names \<and> ?H f' \<noteq> {}
         then k = key \<and> (\<exists>j \<in> ?H f'. l = Itoa (int j + 1) \<and> v = ?L f' ! j)
         else match_at ?resp (f', k, l) = Some v)"
      "sr_NumMatches res = sr_NumMatches ?resp + of_nat (sum_list (map (\<lambda>f. card (?H f)) names))"
      "sr_Errors res = sr_Errors ?resp" "sr_Repos res = sr_Repos ?resp"
      by auto
    have "match_at res (f', k, l) = Some v \<longleftrightarrow>
        (if f' \<in> set (f # names) \<and> ?H f' \<noteq> {}
         then k = key \<and> (\<exists>j \<in> ?H f'. l = Itoa (int j + 1) \<and> v = ?L f' ! j)
         else match_at resp (f', k, l) = Some v)" for f' k l v
      unfolding res(2) at using False by auto
    with step res(1,3-) show ?thesis by (intro exI [of _ res]) simp
  qed
qed simp

text \<open>What a search of one index returns is well formed: its maps have distinct keys.\<close>

lemma readfile_wf: "readfile env re g f = Some (n, m, e) \<Longrightarrow> gm_ok m"
  by (auto simp: readfile_def dest: reader_wf split: sum.splits)

lemma grep_files_wf:
  "grep_files env re g key expired i names resp err = Some (res, e) \<Longrightarrow> sr_ok resp \<Longrightarrow> sr_ok res"
proof (induction env re g key expired i names resp err rule: grep_files.induct)
  case (2 env re g key expired i name names resp err)
  show ?case
  proof (cases "readfile env re g name")
    case (Some p)
    obtain n m e' where p: "p = (n, m, e')" by (cases p)
    let ?resp = "resp\<lparr>sr_Matches := gm_put name [(key, m)] (sr_Matches resp),
      sr_NumMatches := sr_NumMatches resp + of_int n\<rparr>"
    have "sr_ok ?resp"
      using "2.prems"(2) readfile_wf [of env re g name] Some p
      by (auto simp: sr_ok_def matches_ok_def set_gm_put gm_ok_Cons)
    with 2 Some p show ?thesis by (auto split: if_splits option.splits)
  qed (use 2 in \<open>simp split: if_splits\<close>)
qed simp

lemma grep_search_wf: "grep_search env g expired posted q = Some (Returns (res, e)) \<Longrightarrow> sr_ok res"
  by (auto simp: grep_search_def Let_def NewSearchResult_def sr_ok_def matches_ok_def
      dest!: grep_files_wf split: prod.splits if_splits sum.splits option.splits)

lemma grep_search_lines:
  assumes "buildRegexps (ge_compile env) q = (Some re, pathre, None)"
    and "ge_index_open env ixfile = Inr ix" and "line_matcher P (ge_match env re)"
    and "sq_Context q = \<lparr>sc_Both = 0, sc_Pre = 0, sc_Post = 0\<rparr>" "\<And>i. \<not> expired i"
    and "names = filter (\<lambda>f. pathre = None \<or> \<not> ge_match_name env (the pathre) f < 0)
      (map (ge_name env ix) (ge_posting env ix re))"
    and "\<And>f. f \<in> set names \<Longrightarrow> readable env root f"
  shows "\<exists>res. grep_search env (newGrep ixfile root) expired posted q = Some (Returns (res, None)) \<and>
    (\<forall>f k l v. match_at res (f, k, l) = Some v \<longleftrightarrow> k = firstKey q \<and> f \<in> set names \<and>
      (\<exists>j. j < length (file_lines env root f) \<and> P (strip (file_lines env root f ! j)) \<and>
         l = Itoa (int j + 1) \<and> v = file_lines env root f ! j)) \<and>
    sr_NumMatches res = of_nat (sum_list (map (\<lambda>f. card (file_hits env root P f)) names)) \<and>
    sr_Errors res = []"
proof -
  let ?g = "(newGrep ixfile root)\<lparr>g_ctxPre := 0, g_ctxPost := 0, g_ctxBoth := 0\<rparr>"
  let ?r = "NewSearchResult\<lparr>sr_Durations :=
    (sr_Durations NewSearchResult)\<lparr>sd_PostingQuery := posted\<rparr>\<rparr>"
  have names: "map (ge_name env ix) (case pathre of None \<Rightarrow> ge_posting env ix re
      | Some p \<Rightarrow> filter (\<lambda>id. \<not> ge_match_name env p (ge_name env ix id) < 0) (ge_posting env ix re))
      = names"
    unfolding assms(6) by (cases pathre) (simp_all add: filter_map o_def)
  have run: "grep_search env (newGrep ixfile root) expired posted q
      = map_option Returns (grep_files env re ?g (firstKey q) expired 0 names ?r None)"
    using assms(1,2,4) by (simp add: grep_search_def Let_def names newGrep_def split: option.splits)
  have g: "npre ?g \<le> 0" "npost ?g \<le> 0" "g_buf ?g = None" "g_root ?g = root"
    by (simp_all add: npre_def npost_def newGrep_def)
  from grep_files_lines [OF assms(3) g(1,2,3), unfolded g(4), of names expired, OF assms(7,5)]
  obtain res where res: "grep_files env re ?g (firstKey q) expired 0 names ?r None = Some (res, None)"
    "\<forall>f k l v. match_at res (f, k, l) = Some v \<longleftrightarrow>
      (if f \<in> set names \<and> file_hits env root P f \<noteq> {}
       then k = firstKey q \<and> (\<exists>j \<in> file_hits env root P f.
         l = Itoa (int j + 1) \<and> v = file_lines env root f ! j)
       else match_at ?r (f, k, l) = Some v)"
    "sr_NumMatches res = sr_NumMatches ?r + of_nat (sum_list (map (\<lambda>f. card (file_hits env root P f)) names))"
    "sr_Errors res = sr_Errors ?r"
    by blast
  have "match_at ?r x = None" for x by (simp add: match_at_def NewSearchResult_def split: prod.splits)
  with res show ?thesis unfolding run
    by (intro exI [of _ res]) (auto simp: file_hits_def NewSearchResult_def)
qed

text \<open>The search of one index file is exact: when the expressions compile, the index opens,
  no context lines are asked for and the request does not expire, the result holds, under the
  query's repository key, exactly the matching lines of the files the posting query returns
  whose names match the path expression, with their numbers and full text; \<open>NumMatches\<close> is
  their number and no error is reported.\<close>

theorem grep_search_exact:
  assumes "buildRegexps (ge_compile env) q = (Some re, pathre, None)"
    and "ge_index_open env ixfile = Inr ix" and "line_matcher P (ge_match env re)"
    and "sq_Context q = \<lparr>sc_Both = 0, sc_Pre = 0, sc_Post = 0\<rparr>" "\<And>i. \<not> expired i"
    and "names = filter (\<lambda>f. pathre = None \<or> \<not> ge_match_name env (the pathre) f < 0)
      (map (ge_name env ix) (ge_posting env ix re))"
    and "\<And>f. f \<in> set names \<Longrightarrow> readable env root f"
  shows "\<exists>res. grep_search env (newGrep ixfile root) expired posted q = Some (Returns (res, None)) \<and>
    (\<forall>f k l v. match_at res (f, k, l) = Some v \<longleftrightarrow> k = firstKey q \<and> f \<in> set names \<and>
      (\<exists>j. j < length (file_lines env root f) \<and> P (strip (file_lines env root f ! j)) \<and>
         l = Itoa (int j + 1) \<and> v = file_lines env root f ! j)) \<and>
    sr_NumMatches res = of_nat (sum_list (map (\<lambda>f. card (file_hits env root P f)) names)) \<and>
    sr_Errors res = []"  using assms by (rule grep_search_lines)

lemma grep_search_exact_witness:
  "\<exists>res. grep_search (tiny_env [(''f'', ''ac'' @ [nl] @ ''b'')]) (newGrep ''ix'' ''/'') (\<lambda>_. False) 0
       (NewSearchQuery ''b'' '''' False [''k'']) = Some (Returns (res, None)) \<and>
     match_at res (''f'', ''k'', ''2'') = Some ''b'' \<and> match_at res (''f'', ''k'', ''1'') = None"
proof -
  let ?d = "''ac'' @ [nl] @ ''b''"
  let ?env = "tiny_env [(''f'', ?d)]" and ?q = "NewSearchQuery ''b'' '''' False [''k'']"
  let ?P = "\<lambda>l :: string. sublist ''b'' l"
  have ls: "lines ?d = [''ac'' @ [nl], ''b'']" by (simp add: nl_def)
  have opn: "ge_open ?env ''/'' ''f'' = Inr \<lparr>io_data = ?d, io_err = EOF\<rparr>" by (simp add: tiny_env_def)
  have fl: "file_lines ?env ''/'' ''f'' = [''ac'' @ [nl], ''b'']"
    unfolding file_lines_def opn using ls by simp
  have rd: "readable ?env ''/'' ''f''"
    unfolding readable_def opn by (simp add: fits_def bufSize_def strip_def nl_def)
  have bre: "buildRegexps (ge_compile ?env) ?q = (Some ''(?m)b'', None, None)"
    by (simp add: buildRegexps_def tiny_env_def NewSearchQuery_def)
  have lm: "line_matcher ?P (ge_match ?env ''(?m)b'')"
    by (simp add: line_matcher_def tiny_env_def)
  have post: "[''f''] = filter (\<lambda>f. (None :: string option) = None \<or> \<not> ge_match_name ?env (the None) f < 0)
      (map (ge_name ?env [''f'']) (ge_posting ?env [''f''] ''(?m)b''))"
    by (simp add: tiny_env_def)
  have b: "sublist ''b'' (strip ''b'')" "\<not> sublist ''b'' (strip (''ac'' @ [nl]))"
    by (simp_all add: strip_def nl_def sublist_code)
  have i: "Itoa 1 = ''1''" "Itoa 2 = ''2''" by code_simp+
  obtain res where res: "grep_search ?env (newGrep ''ix'' ''/'') (\<lambda>_. False) 0 ?q = Some (Returns (res, None))"
    "\<And>f k l v. match_at res (f, k, l) = Some v \<longleftrightarrow> k = firstKey ?q \<and> f \<in> set [''f''] \<and>
      (\<exists>j. j < length (file_lines ?env ''/'' f) \<and> ?P (strip (file_lines ?env ''/'' f ! j)) \<and>
         l = Itoa (int j + 1) \<and> v = file_lines ?env ''/'' f ! j)"
    using grep_search_exact [OF bre _ lm _ _ post, of "''ix''" "\<lambda>_. False" "''/''" 0] rd
    by (auto simp: tiny_env_def NewSearchQuery_def)
  have "match_at res (''f'', ''k'', ''2'') = Some ''b''"
    unfolding res(2) fl using b(1) by (auto simp: firstKey_def NewSearchQuery_def i intro!: exI [of _ 1])
  moreover have "match_at res (''f'', ''k'', ''1'') \<noteq> Some v" for v
  proof
    assume "match_at res (''f'', ''k'', ''1'') = Some v"
    then obtain j where "j < length (file_lines ?env ''/'' ''f'')" "?P (strip (file_lines ?env ''/'' ''f'' ! j))"
      "Itoa 1 = Itoa (int j + 1)" unfolding res(2) i(1) by blast
    then have "j = 0" "?P (strip (''ac'' @ [nl]))" unfolding fl by auto
    with b(2) show False by blast
  qed
  ultimately show ?thesis using res(1) by (intro exI [of _ res]) (auto simp: not_None_eq)
qed

end
