(* ===== verification/Db.thy ===== *)
theory Db
  imports Repo
begin

text \<open>
  \<open>afind/db.go\<close>: the repository database, a map in memory that every change writes out to its
  backing file, if it has one; and \<open>ReposMatchingMeta\<close> of \<open>afind/repo.go\<close>, its main client.

  The mutex makes each operation atomic, so an operation is a function of the state. The state
  holds the map, the name of the backing file, whether its reading handle \<open>bs\<close> was opened, and
  the contents of the files (of type \<open>'c\<close>) that \<open>flush\<close> and \<open>read\<close> use. The operating system and
  the JSON codec answer through \<open>fs_env\<close>.
\<close>

section \<open>State\<close>

record 'c db =
  db_R :: "(string, repo) gomap"
  db_bfn :: string
  db_bs :: bool
  db_files :: "string \<Rightarrow> 'c option"

record 'c fs_env =
  fe_create :: "string \<Rightarrow> go_error option"
  fe_open :: "string \<Rightarrow> go_error option"
  fe_encode :: "(string, repo) gomap \<Rightarrow> 'c"
  fe_decode :: "'c \<Rightarrow> (string, repo) gomap \<times> go_error option"

section \<open>Operations\<close>

definition db_flush :: "'c fs_env \<Rightarrow> 'c db \<Rightarrow> 'c db \<times> go_error option" where
  "db_flush env d =
     (if db_bfn d = '''' then (d, None)
      else (case fe_create env (db_bfn d) of
          Some e \<Rightarrow> (d, Some e)
        | None \<Rightarrow> (d\<lparr>db_files := (db_files d)(db_bfn d \<mapsto> fe_encode env (db_R d))\<rparr>, None)))"

definition db_read :: "'c fs_env \<Rightarrow> 'c db \<Rightarrow> 'c db \<times> go_error option" where
  "db_read env d =
     (if db_bfn d = '''' then (d, None)
      else (case fe_open env (db_bfn d) of
          Some e \<Rightarrow> (d, Some e)
        | None \<Rightarrow>
            (case db_files d (db_bfn d) of
               None \<Rightarrow> (d, Some (NotExistError (''open '' @ db_bfn d)))
             | Some c \<Rightarrow>
                 (let (r, err) = fe_decode env c
                  in (d\<lparr>db_bs := True, db_R := gm_copy r (db_R d)\<rparr>, err)))))"

text \<open>Closing calls \<open>bs.Close\<close>, which panics when no backing file was ever opened for reading.\<close>

definition db_close :: "'c fs_env \<Rightarrow> 'c db \<Rightarrow> ('c db \<times> go_error option) outcome" where
  "db_close env d =
     (case db_flush env d of
        (d', Some e) \<Rightarrow> Returns (d', Some e)
      | (d', None) \<Rightarrow>
          if db_bs d' then Returns (d', None)
          else Panics ''invalid memory address or nil pointer dereference'')"

definition db_Size :: "'c db \<Rightarrow> int" where
  "db_Size d = int (length (db_R d))"

definition db_get :: "'c db \<Rightarrow> string \<Rightarrow> repo option" where
  "db_get d key = map_of (db_R d) key"

definition db_Get :: "'c db \<Rightarrow> string \<Rightarrow> repo option" where
  "db_Get d key = db_get d key"

text \<open>The deferred \<open>flush\<close> runs after the change and its error is dropped.\<close>

definition db_Delete :: "'c fs_env \<Rightarrow> string \<Rightarrow> 'c db \<Rightarrow> 'c db \<times> go_error option" where
  "db_Delete env key d =
     (let d' = d\<lparr>db_R := gm_delete key (db_R d)\<rparr> in (fst (db_flush env d'), None))"

definition db_Set :: "'c fs_env \<Rightarrow> string \<Rightarrow> repo option \<Rightarrow> 'c db \<Rightarrow> 'c db \<times> go_error option" where
  "db_Set env key value d =
     (case value of
        None \<Rightarrow> db_Delete env key d
      | Some r \<Rightarrow>
          (let d' = d\<lparr>db_R := gm_put key r (db_R d)\<rparr> in (fst (db_flush env d'), None)))"

text \<open>
  \<open>ForEach\<close> walks the keys and reads each one again; its function returns the accumulated
  state and whether to go on.
\<close>

fun db_ForEach_loop ::
  "string list \<Rightarrow> 'c db \<Rightarrow> (string \<Rightarrow> repo \<Rightarrow> 'a \<Rightarrow> 'a \<times> bool) \<Rightarrow> 'a \<Rightarrow> 'a" where
  "db_ForEach_loop [] d f a = a"
| "db_ForEach_loop (key # keys) d f a =
     (case db_Get d key of
        None \<Rightarrow> db_ForEach_loop keys d f a
      | Some v \<Rightarrow>
          (let (a', go) = f key v a in if \<not> go then a' else db_ForEach_loop keys d f a'))"

definition db_ForEach :: "'c db \<Rightarrow> (string \<Rightarrow> repo \<Rightarrow> 'a \<Rightarrow> 'a \<times> bool) \<Rightarrow> 'a \<Rightarrow> 'a" where
  "db_ForEach d f a = db_ForEach_loop (map fst (db_R d)) d f a"

definition newDb :: "(string \<Rightarrow> 'c option) \<Rightarrow> 'c db" where
  "newDb files = \<lparr>db_R = [], db_bfn = '''', db_bs = False, db_files = files\<rparr>"

definition newJsonBackedDb :: "'c fs_env \<Rightarrow> string \<Rightarrow> (string \<Rightarrow> 'c option) \<Rightarrow> 'c db" where
  "newJsonBackedDb env filename files =
     fst (db_read env \<lparr>db_R = [], db_bfn = filename, db_bs = False, db_files = files\<rparr>)"

definition getSizes :: "'c db \<Rightarrow> nat \<times> nat" where
  "getSizes d =
     fold (\<lambda>(k, v) (index, data). (index + r_SizeIndex v, data + r_SizeData v)) (db_R d) (0, 0)"

section \<open>Matching repositories\<close>

definition ReposMatchingMeta ::
  "regexp_compile \<Rightarrow> 'c db \<Rightarrow> meta \<Rightarrow> bool \<Rightarrow> int \<Rightarrow> repo list" where
  "ReposMatchingMeta compile repos meta metaRegexp maxn =
     db_ForEach repos
       (\<lambda>key r result.
          if r_State r \<noteq> st_OK then (result, True)
          else
            (let result' =
               (if \<not> metaRegexp \<and> Meta_Matches (r_Meta r) meta then result @ [r]
                else if metaRegexp \<and> Meta_MatchesRegexp compile (r_Meta r) meta then result @ [r]
                else result)
             in (result', maxn = 0 \<or> int (length result') < maxn)))
       []"

section \<open>The store behind the interface\<close>

definition db_ok :: "'c db \<Rightarrow> bool" where
  "db_ok d \<longleftrightarrow> gm_ok (db_R d)"

text \<open>The backing file holds the encoding of the map, or there is no backing file.\<close>

definition db_synced :: "'c fs_env \<Rightarrow> 'c db \<Rightarrow> bool" where
  "db_synced env d \<longleftrightarrow>
     db_bfn d = '''' \<or> db_files d (db_bfn d) = Some (fe_encode env (db_R d))"

abbreviation db_put :: "'c fs_env \<Rightarrow> string \<Rightarrow> repo \<Rightarrow> 'c db \<Rightarrow> 'c db" where
  "db_put env key r d \<equiv> fst (db_Set env key (Some r) d)"

abbreviation db_del :: "'c fs_env \<Rightarrow> string \<Rightarrow> 'c db \<Rightarrow> 'c db" where
  "db_del env key d \<equiv> fst (db_Delete env key d)"

lemma db_flush_fields [simp]:
  "db_R (fst (db_flush env d)) = db_R d"
  "db_bfn (fst (db_flush env d)) = db_bfn d"
  "db_bs (fst (db_flush env d)) = db_bs d"
  by (simp_all add: db_flush_def split: option.splits)

lemma db_R_Delete [simp]: "db_R (db_del env key d) = gm_delete key (db_R d)"
  by (simp add: db_Delete_def)

lemma db_R_Set [simp]:
  "db_R (fst (db_Set env key v d)) =
     (case v of None \<Rightarrow> gm_delete key (db_R d) | Some r \<Rightarrow> gm_put key r (db_R d))"
  by (simp add: db_Set_def split: option.splits)

lemma db_bfn_update [simp]:
  "db_bfn (fst (db_Set env key v d)) = db_bfn d" "db_bfn (db_del env key d) = db_bfn d"
  by (simp_all add: db_Set_def db_Delete_def split: option.splits)

lemma db_Get_map: "db_Get d = map_of (db_R d)"
  by (simp add: fun_eq_iff db_Get_def db_get_def)

lemma db_ok_update [simp, intro, go_wf]:
  "db_ok d \<Longrightarrow> db_ok (fst (db_Set env key v d))" "db_ok d \<Longrightarrow> db_ok (db_del env key d)"
  by (auto simp: db_ok_def split: option.splits)

interpretation db: keyed_store db_Get "db_put env" "db_del env" db_ok for env :: "'c fs_env"
  by unfold_locales (auto simp: db_Get_map)

lemma db_synced_flush:
  "fe_create env (db_bfn d) = None \<Longrightarrow> db_synced env (fst (db_flush env d))"
  by (simp add: db_synced_def db_flush_def)

lemma db_synced_update:
  assumes "fe_create env (db_bfn d) = None"
  shows "db_synced env (fst (db_Set env key v d))" "db_synced env (db_del env key d)"
  using assms by (auto simp: db_Set_def db_Delete_def intro!: db_synced_flush split: option.splits)

lemma db_Size_card: "db_ok d \<Longrightarrow> db_Size d = int (card (dom (db_Get d)))"
proof -
  assume "db_ok d"
  then have "card (fst ` set (db_R d)) = length (db_R d)"
    by (metis db_ok_def distinct_card gm_ok_def length_map set_map)
  then show ?thesis by (simp add: db_Size_def db_Get_map dom_map_of_conv_image_fst)
qed

text \<open>
  The store behaves as a map whatever happens to its backing file: after \<open>Set\<close> the key
  reads back the new repository (or nothing, for a nil value), no other key changes, the
  call reports no error and the store stays well formed, even when writing the file fails.
\<close>

theorem Set_then_Get:
  "db_Get (fst (db_Set env key v d)) key' = (if key' = key then v else db_Get d key') \<and>
   snd (db_Set env key v d) = None \<and>
   db_Get (fst (db_Delete env key d)) key' = (if key' = key then None else db_Get d key') \<and>
   db_bfn (fst (db_Set env key v d)) = db_bfn d"
  by (auto simp: db_Get_map db_Set_def db_Delete_def split: option.splits)

section \<open>Persistence\<close>

datatype db_op = OpSet string "repo option" | OpDelete string

fun db_step :: "'c fs_env \<Rightarrow> db_op \<Rightarrow> 'c db \<Rightarrow> 'c db" where
  "db_step env (OpSet key v) d = fst (db_Set env key v d)"
| "db_step env (OpDelete key) d = fst (db_Delete env key d)"

definition db_run :: "'c fs_env \<Rightarrow> db_op list \<Rightarrow> 'c db \<Rightarrow> 'c db" where
  "db_run env ops d = fold (db_step env) ops d"

lemma db_step_ok [simp]: "db_ok d \<Longrightarrow> db_ok (db_step env op d)"
  by (cases op) auto

lemma db_step_bfn [simp]: "db_bfn (db_step env op d) = db_bfn d"
  by (cases op) auto

lemma db_run_ok: "db_ok d \<Longrightarrow> db_ok (db_run env ops d)"
  unfolding db_run_def by (induction ops arbitrary: d) auto

lemma db_run_bfn: "db_bfn (db_run env ops d) = db_bfn d"
  unfolding db_run_def by (induction ops arbitrary: d) auto

lemma db_run_synced:
  assumes "fe_create env (db_bfn d) = None" and "db_synced env d \<or> ops \<noteq> []"
  shows "db_synced env (db_run env ops d)"
  unfolding db_run_def using assms
proof (induction ops arbitrary: d)
  case (Cons op ops)
  have "db_synced env (db_step env op d)"
    using Cons.prems(1) by (cases op) (auto intro: db_synced_update)
  with Cons show ?case by simp
qed simp

text \<open>Opening the file of a database again gives what the codec makes of the map written last.\<close>

lemma reopen_map:
  assumes "ops \<noteq> []" "db_bfn d \<noteq> ''''" "fe_create env (db_bfn d) = None" "fe_open env (db_bfn d) = None"
    and "fe_decode env (fe_encode env (db_R (db_run env ops d))) = (m, err)" "gm_ok m"
  shows "db_Get (newJsonBackedDb env (db_bfn d) (db_files (db_run env ops d))) = map_of m"
proof -
  have "db_synced env (db_run env ops d)"
    using db_run_synced [OF assms(3)] assms(1) by blast
  with assms(2) have "db_files (db_run env ops d) (db_bfn d) = Some (fe_encode env (db_R (db_run env ops d)))"
    by (simp add: db_synced_def db_run_bfn)
  then show ?thesis
    using assms(2,4-6) by (simp add: newJsonBackedDb_def db_read_def db_Get_map map_of_gm_copy)
qed

text \<open>The database survives a restart: after any sequence of stores and deletions on a
  database with a writable backing file, opening that file again gives the same repositories,
  for any codec that decodes what it encoded.\<close>

theorem reopen_after_run:
  assumes "db_ok d" and "ops \<noteq> []" and "db_bfn d \<noteq> ''''"
    and "fe_create env (db_bfn d) = None" and "fe_open env (db_bfn d) = None"
    and codec: "\<And>m. fe_decode env (fe_encode env m) = (m, None)"
  shows "db_Get (newJsonBackedDb env (db_bfn d) (db_files (db_run env ops d)))
    = db_Get (db_run env ops d)"
proof -
  have "gm_ok (db_R (db_run env ops d))"
    using db_run_ok [OF assms(1)] by (simp add: db_ok_def)
  then show ?thesis
    using reopen_map [OF assms(2-5) codec] by (simp add: db_Get_map fun_eq_iff)
qed

text \<open>The codec that stores the map itself, to instantiate the operating system's answers.\<close>

definition plain_env :: "(string, repo) gomap fs_env" where
  "plain_env = \<lparr>fe_create = (\<lambda>_. None), fe_open = (\<lambda>_. None), fe_encode = (\<lambda>m. m),
     fe_decode = (\<lambda>m. (m, None))\<rparr>"

theorem reopen_after_run_witness:
  "db_Get (newJsonBackedDb plain_env ''f'' (db_files
     (db_run plain_env [OpSet ''a'' (Some NewRepo), OpSet ''b'' (Some NewRepo), OpDelete ''a'']
       \<lparr>db_R = [], db_bfn = ''f'', db_bs = False, db_files = (\<lambda>_. None)\<rparr>))) ''b'' = Some NewRepo"
proof -
  let ?d = "\<lparr>db_R = [], db_bfn = ''f'', db_bs = False,
      db_files = (\<lambda>_. None :: (string, repo) gomap option)\<rparr>"
  let ?ops = "[OpSet ''a'' (Some NewRepo), OpSet ''b'' (Some NewRepo), OpDelete ''a'']"
  have "db_Get (newJsonBackedDb plain_env (db_bfn ?d) (db_files (db_run plain_env ?ops ?d)))
      = db_Get (db_run plain_env ?ops ?d)"
    by (rule reopen_after_run) (simp_all add: db_ok_def plain_env_def)
  then show ?thesis by (simp add: db_run_def db_Get_map)
qed

section \<open>Iteration\<close>

lemma db_ForEach_list:
  assumes "db_ok d"
  shows "db_ForEach d f a = db_ForEach_loop (map fst (db_R d)) d f a"
    and "\<And>k r. (k, r) \<in> set (db_R d) \<Longrightarrow> db_Get d k = Some r"
  using assms by (auto simp: db_ForEach_def db_Get_map db_ok_def map_of_in_set)

text \<open>An iteration that never stops early folds over the entries.\<close>

lemma db_ForEach_fold:
  assumes "db_ok d" and "\<And>k r a. f k r a = (g k r a, True)"
  shows "db_ForEach d f a = fold (\<lambda>(k, r). g k r) (db_R d) a"
proof -
  have "db_ForEach_loop (map fst kvs) d f a = fold (\<lambda>(k, r). g k r) kvs a"
    if "set kvs \<subseteq> set (db_R d)" for kvs a
    using that
  proof (induction kvs arbitrary: a)
    case (Cons kv kvs)
    obtain k r where kv: "kv = (k, r)" by (cases kv)
    with Cons.prems have "db_Get d k = Some r"
      by (intro db_ForEach_list(2) [OF assms(1)]) auto
    with Cons show ?case by (simp add: kv assms(2))
  qed simp
  then show ?thesis by (simp add: db_ForEach_def)
qed

text \<open>A repository is selected when it is available and its metadata passes the filter.\<close>

definition selects :: "regexp_compile \<Rightarrow> meta \<Rightarrow> bool \<Rightarrow> repo \<Rightarrow> bool" where
  "selects compile meta metaRegexp r \<longleftrightarrow> r_State r = st_OK \<and>
     (if metaRegexp then Meta_MatchesRegexp compile (r_Meta r) meta
      else Meta_Matches (r_Meta r) meta)"

lemma ReposMatchingMeta_step:
  "(if r_State r \<noteq> st_OK then (result, True)
    else (let result' =
        (if \<not> metaRegexp \<and> Meta_Matches (r_Meta r) meta then result @ [r]
         else if metaRegexp \<and> Meta_MatchesRegexp compile (r_Meta r) meta then result @ [r]
         else result)
      in (result', P result'))) =
   (let result' = (if selects compile meta metaRegexp r then result @ [r] else result)
    in (result', r_State r \<noteq> st_OK \<or> P result'))"
  by (auto simp: selects_def Let_def)

lemma ReposMatchingMeta_loop:
  assumes ok: "db_ok d" and "set kvs \<subseteq> set (db_R d)"
    and room: "maxn = 0 \<or> int (length acc) < maxn"
  shows "db_ForEach_loop (map fst kvs) d
      (\<lambda>key r result. let result' = (if selects compile meta metaRegexp r then result @ [r] else result)
         in (result', r_State r \<noteq> st_OK \<or> (maxn = 0 \<or> int (length result') < maxn))) acc
    = (let all = filter (selects compile meta metaRegexp) (map snd kvs)
       in acc @ (if maxn = 0 then all else take (nat maxn - length acc) all))"
  using assms(2,3)
proof (induction kvs arbitrary: acc)
  case (Cons kv kvs)
  obtain k r where kv: "kv = (k, r)" by (cases kv)
  with Cons.prems have get: "db_Get d k = Some r"
    by (intro db_ForEach_list(2) [OF ok]) auto
  show ?case
  proof (cases "selects compile meta metaRegexp r")
    case False
    with Cons get show ?thesis by (simp add: kv)
  next
    case sel: True
    then have state: "r_State r = st_OK" by (simp add: selects_def)
    show ?thesis
    proof (cases "maxn = 0 \<or> int (length (acc @ [r])) < maxn")
      case True
      moreover have "nat maxn - length acc = Suc (nat maxn - Suc (length acc))" if "maxn \<noteq> 0"
        using Cons.prems that by linarith
      ultimately show ?thesis
        using Cons.IH [of "acc @ [r]"] Cons.prems get sel state by (auto simp: kv Let_def)
    next
      case False
      then have "maxn \<noteq> 0" "maxn \<le> int (length acc) + 1" by auto
      moreover from this Cons.prems(2) have "nat maxn - length acc = 1" by auto
      ultimately show ?thesis using False get sel state by (simp add: kv)
    qed
  qed
qed simp

lemma ReposMatchingMeta_all:
  assumes "db_ok d"
  shows "ReposMatchingMeta compile d meta metaRegexp 0
    = filter (selects compile meta metaRegexp) (map snd (db_R d))"
  using ReposMatchingMeta_loop [OF assms subset_refl, of 0 "[]"]
  by (simp add: ReposMatchingMeta_def db_ForEach_def ReposMatchingMeta_step)

text \<open>
  C25. \<open>ReposMatchingMeta\<close> returns exactly the available repositories whose metadata passes
  the filter, in the order the database is visited, and a positive limit keeps the first
  that many of them; zero means no limit.
\<close>

theorem ReposMatchingMeta_selects:
  assumes "db_ok d" and "0 \<le> maxn"
  shows "ReposMatchingMeta compile d meta metaRegexp maxn =
    (let all = filter (\<lambda>r. r_State r = st_OK \<and>
         (if metaRegexp then Meta_MatchesRegexp compile (r_Meta r) meta
          else Meta_Matches (r_Meta r) meta)) (map snd (db_R d))
     in if maxn = 0 then all else take (nat maxn) all)"
proof -
  have "(\<lambda>r. r_State r = st_OK \<and> (if metaRegexp then Meta_MatchesRegexp compile (r_Meta r) meta
          else Meta_Matches (r_Meta r) meta)) = selects compile meta metaRegexp"
    by (simp add: fun_eq_iff selects_def)
  moreover have "maxn = 0 \<or> int (length []) < maxn" using assms(2) by auto
  note ReposMatchingMeta_loop [OF assms(1) subset_refl this, of compile meta metaRegexp]
  ultimately show ?thesis
    unfolding ReposMatchingMeta_def db_ForEach_def ReposMatchingMeta_step
    by (simp only: append_Nil list.size diff_zero)
qed

theorem ReposMatchingMeta_selects_witness:
  "ReposMatchingMeta (\<lambda>_. None) \<lparr>db_R =
       [(''a'', NewRepo\<lparr>r_State := st_OK, r_Key := ''a'', r_Meta := [(''p'', ''x'')]\<rparr>),
        (''b'', NewRepo\<lparr>r_State := st_ERROR, r_Key := ''b''\<rparr>),
        (''c'', NewRepo\<lparr>r_State := st_OK, r_Key := ''c'', r_Meta := [(''p'', ''y'')]\<rparr>),
        (''d'', NewRepo\<lparr>r_State := st_OK, r_Key := ''d''\<rparr>)],
       db_bfn = '''', db_bs = False, db_files = \<lambda>_. None :: unit option\<rparr>
     [(''p'', ''y'')] False 1
   = [NewRepo\<lparr>r_State := st_OK, r_Key := ''c'', r_Meta := [(''p'', ''y'')]\<rparr>]"
  by (subst ReposMatchingMeta_selects) (simp_all add: db_ok_def gm_ok_def)

end
