(* ===== verification/Dispatch.thy ===== *)
theory Dispatch
  imports Search Db Config
begin

text \<open>
  What \<open>afind/api/search.go\<close> and \<open>afind/api/find.go\<close> share: selecting the repositories a request
  is about, grouping them by host, and turning each host into requests, local ones for this
  daemon's own repositories and one remote request for another daemon's.

  The iteration order of the map of hosts is the parameter \<open>visit\<close>.
\<close>

section \<open>Selection\<close>

fun getReposForKeys :: "'c db \<Rightarrow> string list \<Rightarrow> string \<Rightarrow> repo list" where
  "getReposForKeys kvs [] state = []"
| "getReposForKeys kvs (key # keys) state =
     (case db_Get kvs key of
        None \<Rightarrow> getReposForKeys kvs keys state
      | Some repo \<Rightarrow>
          if r_State repo = state then repo # getReposForKeys kvs keys state
          else getReposForKeys kvs keys state)"

definition genGetReqpos ::
  "regexp_compile \<Rightarrow> 'c db \<Rightarrow> string list \<Rightarrow> meta \<Rightarrow> bool \<Rightarrow> repo list" where
  "genGetReqpos compile kvs keys meta metaRegexpMatch =
     (if length keys > 0 then getReposForKeys kvs keys st_OK
      else ReposMatchingMeta compile kvs meta metaRegexpMatch 0)"

text \<open>The older selection, which looks at a limit before it adds.\<close>

fun getRepos_keys :: "'c db \<Rightarrow> string list \<Rightarrow> int \<Rightarrow> repo list \<Rightarrow> repo list" where
  "getRepos_keys rstore [] maxn repos = repos"
| "getRepos_keys rstore (key # keys) maxn repos =
     (case db_Get rstore key of
        None \<Rightarrow> getRepos_keys rstore keys maxn repos
      | Some repo \<Rightarrow>
          if maxn > 0 \<and> int (length repos) > maxn then repos
          else getRepos_keys rstore keys maxn
            (if r_State repo = st_OK then repos @ [repo] else repos))"

definition getRepos :: "regexp_compile \<Rightarrow> 'c db \<Rightarrow> search_query \<Rightarrow> int \<Rightarrow> repo list" where
  "getRepos compile rstore request maxn =
     (let repos = getRepos_keys rstore (sq_RepoKeys request) maxn []
      in if length (sq_RepoKeys request) > 0 then repos
         else ReposMatchingMeta compile rstore (sq_Meta request) (sq_MetaRegexpMatch request) maxn)"

section \<open>Grouping\<close>

definition group_hosts :: "repo list \<Rightarrow> (string, string list) gomap" where
  "group_hosts repos =
     fold (\<lambda>repo hosts. gm_put (Host repo) (gm_sub hosts (Host repo) @ [r_Key repo]) hosts) repos []"

section \<open>Requests\<close>

datatype 'q request = LocalReq 'q | RemoteReq string 'q

fun request_query :: "'q request \<Rightarrow> 'q" where
  "request_query (LocalReq q) = q"
| "request_query (RemoteReq addr q) = q"

fun is_remote :: "'q request \<Rightarrow> bool" where
  "is_remote (LocalReq q) = False"
| "is_remote (RemoteReq addr q) = True"

text \<open>
  The loop over the hosts: \<open>full n\<close> tells whether \<open>n\<close> backend requests reach the limit,
  \<open>mk_local\<close> and \<open>mk_remote\<close> build the queries from the metadata and the keys. All queries share
  one metadata map, in which each host in turn is set.
\<close>

fun dispatch ::
  "string option \<Rightarrow> (nat \<Rightarrow> bool) \<Rightarrow> (meta \<Rightarrow> string list \<Rightarrow> 'q list) \<Rightarrow> (meta \<Rightarrow> string list \<Rightarrow> 'q) \<Rightarrow>
   config \<Rightarrow> meta \<Rightarrow> nat \<Rightarrow> (string \<times> string list) list \<Rightarrow> 'q request list outcome" where
  "dispatch hostname full mk_local mk_remote c meta countBe [] = Returns []"
| "dispatch hostname full mk_local mk_remote c meta countBe ((host, keys) # hosts) =
     (if full countBe then Returns []
      else
        (let meta = Meta_SetHost host meta; (local, c) = isLocal hostname c host
         in if local then
              (case dispatch hostname full mk_local mk_remote c meta countBe hosts of
                 Panics msg \<Rightarrow> Panics msg
               | Returns reqs \<Rightarrow> Returns (map LocalReq (mk_local meta keys) @ reqs))
            else
              (case getAddress meta (PortRpc c) of
                 Panics msg \<Rightarrow> Panics msg
               | Returns addr \<Rightarrow>
                   (case dispatch hostname full mk_local mk_remote c meta (countBe + 1) hosts of
                      Panics msg \<Rightarrow> Panics msg
                    | Returns reqs \<Rightarrow> Returns (RemoteReq addr (mk_remote meta keys) # reqs)))))"

section \<open>Lemmas\<close>

lemma getReposForKeys_eq:
  "getReposForKeys d keys st = filter (\<lambda>r. r_State r = st) (List.map_filter (db_Get d) keys)"
  by (induction d keys st rule: getReposForKeys.induct)
    (auto simp: List.map_filter_simps split: option.splits)

lemma getRepos_keys_length:
  "int (length repos) \<le> maxn + 1 \<Longrightarrow> 0 < maxn \<Longrightarrow> int (length (getRepos_keys d keys maxn repos)) \<le> maxn + 1"
  by (induction d keys maxn repos rule: getRepos_keys.induct) (auto split: option.splits)

lemma group_hosts_sub:
  "gm_ok (group_hosts repos) \<and>
   gm_sub (group_hosts repos) host = map r_Key (filter (\<lambda>r. Host r = host) repos)"
proof (induction repos rule: rev_induct)
  case (snoc r repos)
  have "group_hosts (repos @ [r]) =
      gm_put (Host r) (gm_sub (group_hosts repos) (Host r) @ [r_Key r]) (group_hosts repos)"
    by (simp add: group_hosts_def)
  with snoc show ?case by auto
qed (simp add: group_hosts_def)

lemma group_hosts_keys: "mset (concat (map snd (group_hosts repos))) = mset (map r_Key repos)"
proof (induction repos rule: rev_induct)
  case (snoc r repos)
  let ?m = "group_hosts repos"
  have eq: "group_hosts (repos @ [r]) = gm_put (Host r) (gm_sub ?m (Host r) @ [r_Key r]) ?m"
    by (simp add: group_hosts_def)
  have "mset (concat (map snd (gm_put h (gm_sub m h @ [k]) m))) = add_mset k (mset (concat (map snd m)))"
    if "gm_ok m" for h k and m :: "(string, string list) gomap"
    using that
  proof (induction m)
    case (Cons p m)
    obtain h' ks where p: "p = (h', ks)" by (cases p)
    show ?case
    proof (cases "h' = h")
      case True
      then show ?thesis by (simp add: p gm_put_def gm_sub_def)
    next
      case False
      with Cons have "mset (concat (map snd (gm_put h (gm_sub m h @ [k]) m))) = add_mset k (mset (concat (map snd m)))"
        by (simp add: gm_ok_tl)
      with False show ?thesis by (simp add: p gm_put_def gm_sub_def)
    qed
  qed (simp add: gm_put_def gm_sub_def)
  from this [of ?m] group_hosts_sub [of repos] snoc show ?case by (simp add: eq)
qed (simp add: group_hosts_def)

lemma getAddress_port: "\<exists>addr. getAddress meta (PortRpc c) = Returns addr"
  by (simp add: getAddress_def PortRpc_def DefaultRpcPort_def Let_def)

lemma dispatch_local:
  assumes "\<not> full n" "isLocal hostname c host = (True, c1)"
    and "dispatch hostname full mk_local mk_remote c1 (Meta_SetHost host meta) n hosts = Returns reqs"
  shows "dispatch hostname full mk_local mk_remote c meta n ((host, keys) # hosts) =
    Returns (map LocalReq (mk_local (Meta_SetHost host meta) keys) @ reqs)"
  using assms by (simp add: Let_def)

lemma dispatch_remote:
  assumes "\<not> full n" "isLocal hostname c host = (False, c1)"
    and "getAddress (Meta_SetHost host meta) (PortRpc c1) = Returns addr"
    and "dispatch hostname full mk_local mk_remote c1 (Meta_SetHost host meta) (n + 1) hosts = Returns reqs"
  shows "dispatch hostname full mk_local mk_remote c meta n ((host, keys) # hosts) =
    Returns (RemoteReq addr (mk_remote (Meta_SetHost host meta) keys) # reqs)"
  using assms by (simp add: Let_def)

text \<open>The keys of all requests are the keys of the hosts, when no limit is reached.\<close>

lemma dispatch_keys:
  assumes full: "\<forall>i < n + length hosts. \<not> full i"
    and loc: "\<forall>meta keys. concat (map keys_of (mk_local meta keys)) = keys"
    and rem: "\<forall>meta keys. keys_of (mk_remote meta keys) = keys"
  shows "\<exists>reqs. dispatch hostname full mk_local mk_remote c meta n hosts = Returns reqs \<and>
    concat (map (keys_of \<circ> request_query) reqs) = concat (map snd hosts)"
  using full
proof (induction hosts arbitrary: c meta n)
  case (Cons p hosts)
  obtain host keys where p: "p = (host, keys)" by (cases p)
  have full: "\<not> full n" "\<forall>i < n + length hosts. \<not> full i" "\<forall>i < n + 1 + length hosts. \<not> full i"
    using Cons.prems by auto
  obtain local c1 where isloc: "isLocal hostname c host = (local, c1)" by (cases "isLocal hostname c host")
  let ?meta = "Meta_SetHost host meta"
  obtain addr where addr: "getAddress ?meta (PortRpc c1) = Returns addr" using getAddress_port by blast
  show ?case
  proof (cases local)
    case True
    from Cons.IH [OF full(2), of c1 ?meta] obtain reqs where
      "dispatch hostname full mk_local mk_remote c1 ?meta n hosts = Returns reqs"
      "concat (map (keys_of \<circ> request_query) reqs) = concat (map snd hosts)" by blast
    then show ?thesis using dispatch_local [of full n, OF full(1), of hostname c host c1] loc True isloc
      by (fastforce simp: p o_def)
  next
    case False
    from Cons.IH [OF full(3), of c1 ?meta] obtain reqs where
      "dispatch hostname full mk_local mk_remote c1 ?meta (n + 1) hosts = Returns reqs"
      "concat (map (keys_of \<circ> request_query) reqs) = concat (map snd hosts)" by blast
    then show ?thesis using dispatch_remote [of full n, OF full(1), of hostname c host c1] rem False isloc addr
      by (fastforce simp: p o_def)
  qed
qed simp

text \<open>The requests made before a limit is reached: at most that many remote ones.\<close>

lemma dispatch_limit:
  assumes "\<forall>n. full n \<longleftrightarrow> m \<le> n" "n \<le> m"
  shows "\<exists>reqs. dispatch hostname full mk_local mk_remote c meta n hosts = Returns reqs \<and>
    n + length (filter is_remote reqs) \<le> m"
  using assms(2)
proof (induction hosts arbitrary: c meta n)
  case (Cons p hosts)
  obtain host keys where p: "p = (host, keys)" by (cases p)
  obtain local c1 where loc: "isLocal hostname c host = (local, c1)" by (cases "isLocal hostname c host")
  let ?meta = "Meta_SetHost host meta"
  obtain addr where addr: "getAddress ?meta (PortRpc c1) = Returns addr" using getAddress_port by blast
  show ?case
  proof (cases "m \<le> n")
    case True
    then show ?thesis using assms(1) Cons.prems by (simp add: p)
  next
    case room: False
    show ?thesis
    proof (cases local)
      case True
      from Cons.IH [of n c1 ?meta] Cons.prems obtain reqs where
        "dispatch hostname full mk_local mk_remote c1 ?meta n hosts = Returns reqs"
        "n + length (filter is_remote reqs) \<le> m" by blast
      moreover have "filter is_remote (map LocalReq qs) = []" for qs :: "'a list"
        by (simp add: filter_empty_conv)
      moreover have "\<not> full n" using assms(1) room by simp
      ultimately show ?thesis using dispatch_local [of full n hostname c host c1] True loc
        by (fastforce simp: p)
    next
      case False
      from Cons.IH [of "n + 1" c1 ?meta] room obtain reqs where
        "dispatch hostname full mk_local mk_remote c1 ?meta (n + 1) hosts = Returns reqs"
        "n + 1 + length (filter is_remote reqs) \<le> m" by auto
      moreover have "\<not> full n" using assms(1) room by simp
      ultimately show ?thesis using dispatch_remote [of full n hostname c host c1] False loc addr
        by (fastforce simp: p)
    qed
  qed
qed simp

lemma dispatch_returns: "\<exists>reqs. dispatch hostname full mk_local mk_remote c meta n hosts = Returns reqs"
proof (induction hosts arbitrary: c meta n)
  case (Cons p hosts)
  obtain host keys where p: "p = (host, keys)" by (cases p)
  obtain local c1 where loc: "isLocal hostname c host = (local, c1)" by (cases "isLocal hostname c host")
  let ?meta = "Meta_SetHost host meta"
  obtain addr where addr: "getAddress ?meta (PortRpc c1) = Returns addr" using getAddress_port by blast
  show ?case
  proof (cases "full n")
    case False
    obtain r1 where r1: "dispatch hostname full mk_local mk_remote c1 ?meta n hosts = Returns r1"
      using Cons.IH by blast
    obtain r2 where r2: "dispatch hostname full mk_local mk_remote c1 ?meta (n + 1) hosts = Returns r2"
      using Cons.IH by blast
    show ?thesis
      using False loc addr r1 r2 by (cases local) (simp_all add: p Let_def)
  qed (simp add: p)
qed simp

section \<open>Where the requests go\<close>

definition host_address :: "config \<Rightarrow> string \<Rightarrow> string" where
  "host_address c host = (case getAddress (Meta_SetHost host []) (PortRpc c) of Returns addr \<Rightarrow> addr)"

lemma getAddress_host: "getAddress (Meta_SetHost host meta) (PortRpc c) = Returns (host_address c host)"
  by (simp add: host_address_def getAddress_def Meta_Host_def Meta_SetHost_def PortRpc_def DefaultRpcPort_def Let_def)

text \<open>A request made for a host: its own for a local one, one at its address for another.\<close>

definition host_requests ::
  "string option \<Rightarrow> config \<Rightarrow> (meta \<Rightarrow> string list \<Rightarrow> 'q list) \<Rightarrow> (meta \<Rightarrow> string list \<Rightarrow> 'q) \<Rightarrow>
   string \<times> string list \<Rightarrow> meta \<Rightarrow> 'q request list" where
  "host_requests hostname c mk_local mk_remote = (\<lambda>(host, keys) meta.
     if fst (isLocal hostname c host) then map LocalReq (mk_local meta keys)
     else [RemoteReq (host_address c host) (mk_remote meta keys)])"

lemma dispatch_requests:
  assumes "\<forall>i < n + length hosts. \<not> full i" "hostname \<noteq> Some ''''"
  shows "\<exists>metas. length metas = length hosts \<and>
    dispatch hostname full mk_local mk_remote c meta n hosts =
      Returns (concat (map2 (host_requests hostname c mk_local mk_remote) hosts metas))"
proof -
  have "\<exists>metas. length metas = length hosts \<and>
      dispatch hostname full mk_local mk_remote c' meta n hosts =
        Returns (concat (map2 (host_requests hostname c mk_local mk_remote) hosts metas))"
    if "\<forall>h. fst (isLocal hostname c' h) = fst (isLocal hostname c h)" "PortRpc c' = PortRpc c" for c'
    using that assms(1)
  proof (induction hosts arbitrary: c' meta n)
    case (Cons p hosts)
    obtain host keys where p: "p = (host, keys)" by (cases p)
    obtain local c1 where loc: "isLocal hostname c' host = (local, c1)" by (cases "isLocal hostname c' host")
    note same = isLocal_stable [OF assms(2), of c' host, unfolded loc snd_conv]
    have address: "host_address c1 host = host_address c host"
      using same(2) Cons.prems(2) by (simp add: host_address_def)
    let ?meta = "Meta_SetHost host meta"
    let ?n = "if local then n else n + 1"
    have full: "\<forall>i < ?n + length hosts. \<not> full i" using Cons.prems(3) by auto
    obtain metas where metas: "length metas = length hosts"
      "dispatch hostname full mk_local mk_remote c1 ?meta ?n hosts =
        Returns (concat (map2 (host_requests hostname c mk_local mk_remote) hosts metas))"
      using Cons.IH [of c1 ?n ?meta] same Cons.prems full by auto
    have "local = fst (isLocal hostname c host)" using Cons.prems(1) loc by (metis fst_conv)
    then have "dispatch hostname full mk_local mk_remote c' meta n (p # hosts) = Returns (concat
        (map2 (host_requests hostname c mk_local mk_remote) (p # hosts) (?meta # metas)))"
      using metas(2) Cons.prems(3) loc address by (cases local) (simp_all add: p host_requests_def getAddress_host)
    then show ?case using metas(1) by (metis length_Cons)
  qed simp
  then show ?thesis by simp
qed

end
