(* ===== verification/Walk.thy ===== *)
theory Walk
  imports Errs "HOL-Library.Char_ord" "HOL-Library.List_Lexorder"
begin

text \<open>
  \<open>walkablefs/walker.go\<close>: walking a virtual file system, and the matcher of excluded paths of
  \<open>afind/path_matcher.go\<close> and \<open>afind/excludes.go\<close>.

  The file system is a parameter. The visiting function threads a state, as the closures the
  program passes do. The recursion goes as deep as the file system does, which the program does
  not bound: \<open>walk\<close> takes fuel, \<open>None\<close> meaning that it ran out.
\<close>

section \<open>Walking\<close>

record file_info =
  fi_name :: string
  fi_dir :: bool
  fi_regular :: bool

record walk_fs =
  wf_lstat :: "string \<Rightarrow> go_error + file_info"
  wf_readdir :: "string \<Rightarrow> go_error + file_info list"

datatype walk_error = SkipDir | WalkError go_error

type_synonym 'a walk_fn =
  "string \<Rightarrow> file_info option \<Rightarrow> go_error option \<Rightarrow> 'a \<Rightarrow> 'a \<times> walk_error option"

definition readDirNames :: "walk_fs \<Rightarrow> string \<Rightarrow> go_error + string list" where
  "readDirNames fs dirname =
     (case wf_readdir fs dirname of Inl err \<Rightarrow> Inl err | Inr fis \<Rightarrow> Inr (sort (map fi_name fis)))"

fun walk :: "nat \<Rightarrow> walk_fs \<Rightarrow> 'a walk_fn \<Rightarrow> string \<Rightarrow> file_info \<Rightarrow> 'a \<Rightarrow> ('a \<times> walk_error option) option"
and walk_names :: "nat \<Rightarrow> walk_fs \<Rightarrow> 'a walk_fn \<Rightarrow> string \<Rightarrow> string list \<Rightarrow> 'a \<Rightarrow>
  ('a \<times> walk_error option) option" where
  "walk 0 fs walkFn path info a = None"
| "walk (Suc fuel) fs walkFn path info a =
     (case walkFn path (Some info) None a of
        (a, Some err) \<Rightarrow>
          if fi_dir info \<and> err = SkipDir then Some (a, None) else Some (a, Some err)
      | (a, None) \<Rightarrow>
          if \<not> fi_dir info then Some (a, None)
          else (case readDirNames fs path of
              Inl err \<Rightarrow> Some (walkFn path (Some info) (Some err) a)
            | Inr fnames \<Rightarrow> walk_names fuel fs walkFn path fnames a))"
| "walk_names fuel fs walkFn path [] a = Some (a, None)"
| "walk_names fuel fs walkFn path (name # names) a =
     (let fn = path_Join [path, name]
      in case wf_lstat fs fn of
           Inl err \<Rightarrow>
             (case walkFn fn None (Some err) a of
                (a, Some e) \<Rightarrow>
                  if e \<noteq> SkipDir then Some (a, None) else walk_names fuel fs walkFn path names a
              | (a, None) \<Rightarrow> walk_names fuel fs walkFn path names a)
         | Inr fi \<Rightarrow>
             (case walk fuel fs walkFn fn fi a of
                None \<Rightarrow> None
              | Some (a, Some err) \<Rightarrow>
                  if \<not> fi_dir fi \<or> err \<noteq> SkipDir then Some (a, Some err)
                  else walk_names fuel fs walkFn path names a
              | Some (a, None) \<Rightarrow> walk_names fuel fs walkFn path names a))"

definition Walk :: "nat \<Rightarrow> walk_fs \<Rightarrow> string \<Rightarrow> 'a walk_fn \<Rightarrow> 'a \<Rightarrow> ('a \<times> walk_error option) option" where
  "Walk fuel fs root walkFn a =
     (case wf_lstat fs root of
        Inl err \<Rightarrow> Some (walkFn root None (Some err) a)
      | Inr info \<Rightarrow> walk fuel fs walkFn root info a)"

section \<open>Excluded paths\<close>

text \<open>The adaptive radix tree that holds the extensions is a third-party package.\<close>

record 't art =
  art_new :: 't
  art_insert :: "string \<Rightarrow> 't \<Rightarrow> 't"
  art_search :: "'t \<Rightarrow> string \<Rightarrow> bool"

definition art_ok :: "'t art \<Rightarrow> bool" where
  "art_ok t \<longleftrightarrow> (\<forall>k. \<not> art_search t (art_new t) k) \<and>
     (\<forall>k k' s. art_search t (art_insert t k s) k' \<longleftrightarrow> k' = k \<or> art_search t s k')"

definition AddExtension :: "'t art \<Rightarrow> string \<Rightarrow> 't \<Rightarrow> 't" where
  "AddExtension t extension e =
     (if extension = '''' then e
      else (let ext = (if extension ! 0 = CHR ''.'' then drop 1 extension else extension)
            in art_insert t ext e))"

definition matchExtension :: "'t art \<Rightarrow> 't \<Rightarrow> string \<Rightarrow> bool" where
  "matchExtension t e name =
     (let n = LastIndexByte name CHR ''.''
      in if n = -1 then False else art_search t e (drop (nat (n + 1)) name))"

definition MatchFile :: "'t art \<Rightarrow> 't \<Rightarrow> string \<Rightarrow> bool" where
  "MatchFile t e name \<longleftrightarrow> matchExtension t e name \<or> HasSuffix name ''#''"

definition IndexPathExcludes :: "'t art \<Rightarrow> 't" where
  "IndexPathExcludes t = AddExtension t ''.svn'' (AddExtension t ''.hg'' (AddExtension t ''.git''
     (AddExtension t ''.afindex'' (art_new t))))"

text \<open>The tree as a list of keys, to instantiate claims.\<close>

definition list_art :: "string list art" where
  "list_art = \<lparr>art_new = [], art_insert = (#), art_search = (\<lambda>ks k. k \<in> set ks)\<rparr>"

lemma list_art_ok [simp]: "art_ok list_art"
  by (simp add: art_ok_def list_art_def)

lemma MatchFile_iff:
  assumes "art_ok t"
  shows "MatchFile t (IndexPathExcludes t) name \<longleftrightarrow>
    (\<exists>u v. name = u @ CHR ''.'' # v \<and> v \<in> {''afindex'', ''git'', ''hg'', ''svn''}) \<or>
    (\<exists>u. name = u @ ''#'')"
proof -
  have search: "art_search t (IndexPathExcludes t) v \<longleftrightarrow> v \<in> {''afindex'', ''git'', ''hg'', ''svn''}" for v
    using assms by (auto simp: art_ok_def IndexPathExcludes_def AddExtension_def)
  have ext: "matchExtension t (IndexPathExcludes t) name \<longleftrightarrow>
      (\<exists>u v. name = u @ CHR ''.'' # v \<and> v \<in> {''afindex'', ''git'', ''hg'', ''svn''})"
  proof (cases "CHR ''.'' \<in> set name")
    case True
    then obtain u v where uv: "name = u @ CHR ''.'' # v" "CHR ''.'' \<notin> set v" by (metis split_list_last)
    have "matchExtension t (IndexPathExcludes t) name \<longleftrightarrow> v \<in> {''afindex'', ''git'', ''hg'', ''svn''}"
      using LastIndexByte_append [OF uv(2), of u] by (simp add: matchExtension_def uv(1) search nat_add_distrib)
    moreover have "v' = v" if "name = u' @ CHR ''.'' # v'" "v' \<in> {''afindex'', ''git'', ''hg'', ''svn''}" for u' v'
    proof -
      have "CHR ''.'' \<notin> set v'" using that(2) by auto
      with that(1) uv show ?thesis by (auto simp: append_eq_append_conv2 append_eq_Cons_conv Cons_eq_append_conv)
    qed
    ultimately show ?thesis using uv(1) by metis
  next
    case False
    then have "LastIndexByte name CHR ''.'' = -1" by (simp add: LastIndexByte_none)
    with False show ?thesis by (auto simp: matchExtension_def)
  qed
  then show ?thesis by (auto simp: MatchFile_def HasSuffix_def suffix_def)
qed

text \<open>A path is excluded from indexing exactly when it ends in one of the extensions
  \<open>.afindex\<close>, \<open>.git\<close>, \<open>.hg\<close> and \<open>.svn\<close> or in \<open>#\<close>.\<close>

theorem IndexPathExcludes_excludes:
  assumes "art_ok t"
  shows "MatchFile t (IndexPathExcludes t) name \<longleftrightarrow>
    (\<exists>ext \<in> {''.afindex'', ''.git'', ''.hg'', ''.svn'', ''#''}. suffix ext name)"
  using MatchFile_iff [OF assms, of name] by (auto simp: suffix_def)

lemma IndexPathExcludes_excludes_witness:
  "MatchFile list_art (IndexPathExcludes list_art) ''/src/.git'' \<and>
   \<not> MatchFile list_art (IndexPathExcludes list_art) ''/src/.gitignore''"
  using IndexPathExcludes_excludes [OF list_art_ok]
  by (simp add: suffix_def)

section \<open>Trees\<close>

text \<open>What a file system looks like below a path: its nodes, the entries of a directory in order.\<close>

datatype fs_node = Regular | Special | Folder "(string \<times> fs_node) list"

fun holds :: "walk_fs \<Rightarrow> string \<Rightarrow> fs_node \<Rightarrow> bool"
and holds_all :: "walk_fs \<Rightarrow> string \<Rightarrow> (string \<times> fs_node) list \<Rightarrow> bool" where
  "holds fs p Regular \<longleftrightarrow> (\<exists>i. wf_lstat fs p = Inr i \<and> \<not> fi_dir i \<and> fi_regular i)"
| "holds fs p Special \<longleftrightarrow> (\<exists>i. wf_lstat fs p = Inr i \<and> \<not> fi_dir i \<and> \<not> fi_regular i)"
| "holds fs p (Folder cs) \<longleftrightarrow> (\<exists>i. wf_lstat fs p = Inr i \<and> fi_dir i) \<and>
     readDirNames fs p = Inr (map fst cs) \<and> holds_all fs p cs"
| "holds_all fs p [] \<longleftrightarrow> True"
| "holds_all fs p ((name, n) # cs) \<longleftrightarrow> holds fs (path_Join [p, name]) n \<and> holds_all fs p cs"

fun depth :: "fs_node \<Rightarrow> nat"
and depth_all :: "(string \<times> fs_node) list \<Rightarrow> nat" where
  "depth (Folder cs) = Suc (depth_all cs)"
| "depth n = 0"
| "depth_all [] = 0"
| "depth_all ((name, n) # cs) = max (depth n) (depth_all cs)"

definition info_at :: "walk_fs \<Rightarrow> string \<Rightarrow> file_info" where
  "info_at fs p = (case wf_lstat fs p of Inr i \<Rightarrow> i | Inl _ \<Rightarrow> \<lparr>fi_name = p, fi_dir = False, fi_regular = False\<rparr>)"

text \<open>The paths a walk visits: the node itself, then the entries of a directory not skipped.\<close>

fun visited :: "(string \<Rightarrow> bool) \<Rightarrow> string \<Rightarrow> fs_node \<Rightarrow> string list"
and visited_all :: "(string \<Rightarrow> bool) \<Rightarrow> string \<Rightarrow> (string \<times> fs_node) list \<Rightarrow> string list" where
  "visited skip p (Folder cs) = p # (if skip p then [] else visited_all skip p cs)"
| "visited skip p n = [p]"
| "visited_all skip p [] = []"
| "visited_all skip p ((name, n) # cs) = visited skip (path_Join [p, name]) n @ visited_all skip p cs"

text \<open>A visiting function that updates its state by \<open>upd\<close> and only ever skips directories.\<close>

definition prunes ::
  "walk_fs \<Rightarrow> (string \<Rightarrow> bool) \<Rightarrow> (string \<Rightarrow> 'a \<Rightarrow> 'a) \<Rightarrow> 'a walk_fn \<Rightarrow> bool" where
  "prunes fs skip upd walkFn \<longleftrightarrow> (\<forall>p a. walkFn p (Some (info_at fs p)) None a =
     (upd p a, if fi_dir (info_at fs p) \<and> skip p then Some SkipDir else None))"

lemma walk_visited_aux:
  assumes fn: "prunes fs skip upd walkFn"
  shows "holds fs p n \<Longrightarrow> depth n < fuel \<Longrightarrow>
      walk fuel fs walkFn p (info_at fs p) a = Some (fold upd (visited skip p n) a, None)"
    and "holds_all fs p cs \<Longrightarrow> depth_all cs < fuel \<Longrightarrow>
      walk_names fuel fs walkFn p (map fst cs) a = Some (fold upd (visited_all skip p cs) a, None)"
proof (induction n and cs arbitrary: p fuel a and p fuel a rule: depth_depth_all.induct)
  case (1 cs)
  then obtain i where i: "info_at fs p = i" "fi_dir i" "readDirNames fs p = Inr (map fst cs)"
    "holds_all fs p cs" by (auto simp: info_at_def)
  obtain fuel' where f: "fuel = Suc fuel'" "depth_all cs < fuel'" using 1(3) by (cases fuel) auto
  show ?case using fn [unfolded prunes_def, rule_format, of p a] i "1.IH" [OF i(4) f(2)] by (simp add: f(1))
next
  case "2_1"
  then have "\<not> fi_dir (info_at fs p)" by (auto simp: info_at_def)
  with fn [unfolded prunes_def, rule_format, of p a] "2_1" show ?case by (cases fuel) auto
next
  case "2_2"
  then have "\<not> fi_dir (info_at fs p)" by (auto simp: info_at_def)
  with fn [unfolded prunes_def, rule_format, of p a] "2_2" show ?case by (cases fuel) auto
next
  case 3
  then show ?case by (cases fuel) auto
next
  case (4 name n cs)
  let ?fn = "path_Join [p, name]"
  have "wf_lstat fs ?fn = Inr (info_at fs ?fn)"
    using "4.prems"(1) by (cases n) (auto simp: info_at_def)
  with 4 show ?case by simp
qed

lemma walk_names_append:
  assumes fn: "prunes fs skip upd walkFn"
    and "holds_all fs p cs" "depth_all cs < fuel"
  shows "walk_names fuel fs walkFn p (map fst cs @ names) a =
    walk_names fuel fs walkFn p names (fold upd (visited_all skip p cs) a)"
  using assms(2,3)
proof (induction cs arbitrary: a)
  case (Cons c cs)
  obtain name n where c: "c = (name, n)" by (cases c)
  let ?fn = "path_Join [p, name]"
  have "wf_lstat fs ?fn = Inr (info_at fs ?fn)"
    using Cons.prems(1) by (cases n) (auto simp: info_at_def c)
  with Cons walk_visited_aux(1) [OF fn, of ?fn n fuel a] show ?case by (simp add: c)
qed simp

lemma Walk_tree:
  assumes fn: "prunes fs skip upd walkFn"
    and "holds fs root n" "depth n < fuel"
  shows "Walk fuel fs root walkFn a = Some (fold upd (visited skip root n) a, None)"
proof -
  have "wf_lstat fs root = Inr (info_at fs root)"
    using assms(2) by (cases n) (auto simp: info_at_def)
  then show ?thesis using walk_visited_aux(1) [OF fn assms(2,3)] by (simp add: Walk_def)
qed

text \<open>C23. On a file system that answers for every path of a tree, with a visiting function that
  only ever skips directories, \<open>Walk\<close> visits every path of the tree once, a directory before
  its entries and the entries in sorted order, except below the skipped directories, and
  reports no error; fuel above the depth of the tree is enough.\<close>

theorem Walk_visits_tree:
  assumes "prunes fs skip upd walkFn"
    and "holds fs root n" "depth n < fuel"
  shows "Walk fuel fs root walkFn a = Some (fold upd (visited skip root n) a, None)"
  using assms by (rule Walk_tree)

definition tiny_fs :: walk_fs where
  "tiny_fs = \<lparr>wf_lstat = (\<lambda>p. if p = ''/'' then Inr \<lparr>fi_name = ''/'', fi_dir = True, fi_regular = False\<rparr>
      else if p \<in> {''/a'', ''/b''} then Inr \<lparr>fi_name = drop 1 p, fi_dir = False, fi_regular = True\<rparr>
      else Inl (NotExistError p)),
    wf_readdir = (\<lambda>p. if p = ''/'' then Inr [\<lparr>fi_name = ''b'', fi_dir = False, fi_regular = True\<rparr>,
      \<lparr>fi_name = ''a'', fi_dir = False, fi_regular = True\<rparr>] else Inl (NotExistError p))\<rparr>"

lemma tiny_joins: "path_Join [''/'', ''a''] = ''/a''" "path_Join [''/'', ''b''] = ''/b''"
  by code_simp+

lemma tiny_fs_holds: "holds tiny_fs ''/'' (Folder [(''a'', Regular), (''b'', Regular)])"
proof -
  have "sort [''b'', ''a''] = [''a'', ''b'']" by (simp add: less_char_def)
  then show ?thesis by (simp add: tiny_fs_def readDirNames_def tiny_joins)
qed

lemma Walk_visits_tree_witness:
  "Walk 2 tiny_fs ''/'' (\<lambda>p _ _ ps. (ps @ [p], None)) [] = Some ([''/'', ''/a'', ''/b''], None)"
  using Walk_visits_tree [of tiny_fs "\<lambda>_. False" "\<lambda>p ps. ps @ [p]" "\<lambda>p _ _ ps. (ps @ [p], None)" "''/''"
      "Folder [(''a'', Regular), (''b'', Regular)]" 2 "[]"] tiny_fs_holds
  by (simp add: tiny_joins prunes_def)

end
