(* ===== verification/Index.thy ===== *)
theory Index
  imports Config Walk Db "HOL-Library.Multiset"
begin

text \<open>
  \<open>afind/index.go\<close>: requests to index a repository, the scan for files, and the indexer that
  deals the files out to index shards.

  The file systems and index writers are parameters (\<open>index_env\<close>). A set's iteration order is
  the parameter \<open>order\<close>. The shards run concurrently and take names from one channel: the
  parameter \<open>sched\<close> gives, for each shard, the names it takes and what its polls of the request's
  expiry answer; \<open>parerr\<close> is the error of \<open>par.Requests\<close>.
\<close>

section \<open>Requests\<close>

record index_query =
  iq_Key :: string
  iq_Root :: string
  iq_Dirs :: "string list"
  iq_Files :: "string list"
  iq_Meta :: meta
  iq_Recurse :: bool
  iq_Timeout :: duration

record index_result =
  ir_Repo :: "repo option"
  ir_Error :: "struct_error option"

definition IndexResult_SetError :: "go_error option \<Rightarrow> index_result \<Rightarrow> index_result" where
  "IndexResult_SetError err r = r\<lparr>ir_Error := set_error err (ir_Error r)\<rparr>"

definition NewIndexQuery :: "string \<Rightarrow> index_query" where
  "NewIndexQuery key = \<lparr>iq_Key = key, iq_Root = '''', iq_Dirs = [], iq_Files = [], iq_Meta = [],
     iq_Recurse = False, iq_Timeout = 0\<rparr>"

definition NewIndexResult :: index_result where
  "NewIndexResult = \<lparr>ir_Repo = None, ir_Error = None\<rparr>"

fun normalize_dirs :: "string list \<Rightarrow> string list \<Rightarrow> go_error + string list" where
  "normalize_dirs [] seen = Inr seen"
| "normalize_dirs (dir # dirs) seen =
     (if dir \<noteq> ''/'' \<and> IsAbs dir
      then Inl (NewValueError ''dirs'' ''Dirs must not be absolute paths'')
      else (let dir = (if dir = ''.'' then ''/'' else dir)
            in normalize_dirs dirs (if dir \<in> set seen then seen else seen @ [dir])))"

definition IndexQuery_Normalize ::
  "(string list \<Rightarrow> string list) \<Rightarrow> index_query \<Rightarrow> go_error + index_query" where
  "IndexQuery_Normalize order r =
     (if iq_Key r = '''' then Inl (NewValueError ''key'' ''Value must not be empty'')
      else if length (iq_Dirs r) = 0 \<and> length (iq_Files r) = 0
      then Inl (NewValueError ''dirs'' ''Must provide at least one `files` or `dirs` to index'')
      else if \<not> IsAbs (iq_Root r)
      then Inl (NewValueError ''root'' ''Value must be an absolute path name'')
      else (case normalize_dirs (iq_Dirs r) [] of
          Inl e \<Rightarrow> Inl e
        | Inr seen \<Rightarrow> Inr (r\<lparr>iq_Dirs := order seen\<rparr>)))"

definition maxShards :: int where
  "maxShards = 32"

definition getRoot :: "config \<Rightarrow> index_query \<Rightarrow> string \<times> index_query" where
  "getRoot c q =
     (let q = q\<lparr>iq_Root := TrimSuffix (iq_Root q) ''/''\<rparr>
      in if c_IndexInRepo c then (iq_Root q, q) else (path_Join [c_IndexRoot c, iq_Key q], q))"

definition newRepoFromQuery :: "index_query \<Rightarrow> string \<Rightarrow> repo" where
  "newRepoFromQuery q ixpath =
     NewRepo\<lparr>r_Key := iq_Key q, r_Root := iq_Root q, r_IndexPath := ixpath,
       r_Meta := gm_copy (iq_Meta q) []\<rparr>"

section \<open>The environment\<close>

record ('w, 'f, 't) index_env =
  ie_mkdir :: "string \<Rightarrow> go_error option"
  ie_exists :: "go_error \<Rightarrow> bool"
  ie_create :: "string \<Rightarrow> 'w outcome"
  ie_walkfs :: "string \<Rightarrow> walk_fs"
  ie_open :: "string \<Rightarrow> string \<Rightarrow> go_error + 'f"
  ie_add :: "string \<Rightarrow> 'f \<Rightarrow> 'w \<Rightarrow> 'w"
  ie_flush :: "'w \<Rightarrow> 'w"
  ie_IndexBytes :: "'w \<Rightarrow> nat"
  ie_DataBytes :: "'w \<Rightarrow> nat"
  ie_art :: "'t art"

definition path_Dir :: "string \<Rightarrow> string" where
  "path_Dir p = path_Clean (take (nat (LastIndexByte p CHR ''/'' + 1)) p)"

text \<open>A panic inside \<open>index.Create\<close> is recovered as an error.\<close>

definition getLocalIndexWriter ::
  "('w, 'f, 't) index_env \<Rightarrow> string \<Rightarrow> 'w option \<times> go_error option" where
  "getLocalIndexWriter env name =
     (let err = ie_mkdir env (path_Dir name)
      in if err \<noteq> None \<and> \<not> ie_exists env (the err) then (None, err)
         else (case ie_create env name of
             Returns ixw \<Rightarrow> (Some ixw, err)
           | Panics msg \<Rightarrow> (None, Some (StructError Val
               \<lparr>se_T = ''index_error'', se_M = ''failed to create repository index files''\<rparr>))))"

fun create_shards ::
  "('w, 'f, 't) index_env \<Rightarrow> string list \<Rightarrow> go_error + 'w option list" where
  "create_shards env [] = Inr []"
| "create_shards env (name # names) =
     (case getLocalIndexWriter env name of
        (ixw, Some err) \<Rightarrow> Inl err
      | (ixw, None) \<Rightarrow>
          (case create_shards env names of Inl err \<Rightarrow> Inl err | Inr ws \<Rightarrow> Inr (ixw # ws)))"

section \<open>Scanning\<close>

definition trimLeadingSlash :: "string \<Rightarrow> string" where
  "trimLeadingSlash name = TrimPrefix name ''/''"

text \<open>The closure \<open>walker\<close>, its state being \<open>names\<close>.\<close>

definition scan_walker :: "'t art \<Rightarrow> string list walk_fn" where
  "scan_walker t p info werr names =
     (case werr of
        Some e \<Rightarrow> (names, Some (WalkError e))
      | None \<Rightarrow>
          (case info of
             None \<Rightarrow> (names, None)
           | Some i \<Rightarrow>
               if MatchFile t (IndexPathExcludes t) p
               then (names, if fi_dir i then Some SkipDir else None)
               else if \<not> fi_dir i \<and> fi_regular i then (names @ [trimLeadingSlash p], None)
               else (names, None)))"

definition scan_files :: "walk_fs \<Rightarrow> string list \<Rightarrow> string list" where
  "scan_files fs files = filter (\<lambda>name.
     case wf_lstat fs (trimLeadingSlash name) of Inl e \<Rightarrow> False | Inr fi \<Rightarrow> \<not> fi_dir fi) files"

fun scan_dirs ::
  "nat \<Rightarrow> walk_fs \<Rightarrow> 't art \<Rightarrow> string list \<Rightarrow> string list \<Rightarrow> walk_error option \<Rightarrow>
   (string list \<times> walk_error option) option" where
  "scan_dirs fuel fs t [] names err = Some (names, err)"
| "scan_dirs fuel fs t (path # dirs) names err =
     (case Walk fuel fs path (scan_walker t) names of
        None \<Rightarrow> None
      | Some (names, err) \<Rightarrow> scan_dirs fuel fs t dirs names err)"

definition scanner ::
  "nat \<Rightarrow> walk_fs \<Rightarrow> 't art \<Rightarrow> index_query \<Rightarrow> (string list \<times> walk_error option) option" where
  "scanner fuel fs t query = scan_dirs fuel fs t (iq_Dirs query) (scan_files fs (iq_Files query)) None"

section \<open>Indexing\<close>

text \<open>One shard: the names it takes, its polls and its writer; no count is sent once expired.\<close>

fun indexShard ::
  "('w, 'f, 't) index_env \<Rightarrow> string \<Rightarrow> (nat \<Rightarrow> bool) \<Rightarrow> nat \<Rightarrow> string list \<Rightarrow> 'w \<Rightarrow> int \<Rightarrow>
   'w \<times> int option" where
  "indexShard env root expired i [] writer numFiles =
     (writer, if expired i then None else Some numFiles)"
| "indexShard env root expired i (name # names) writer numFiles =
     (if expired i then (writer, None)
      else (case ie_open env root name of
          Inl err \<Rightarrow> indexShard env root expired (i + 1) names writer numFiles
        | Inr r \<Rightarrow> indexShard env root expired (i + 1) names (ie_add env name r writer) (numFiles + 1)))"

type_synonym schedule = "nat \<Rightarrow> string list \<Rightarrow> (string list \<times> (nat \<Rightarrow> bool)) list"

text \<open>The goroutines of the shards, and the flushing of their writers.\<close>

definition run_shards ::
  "('w, 'f, 't) index_env \<Rightarrow> string \<Rightarrow> 'w option list \<Rightarrow> (string list \<times> (nat \<Rightarrow> bool)) list \<Rightarrow>
   ('w \<times> int option) list" where
  "run_shards env root writers taken =
     map (\<lambda>(w, (taken, expired)). indexShard env root expired 0 taken (the w) 0) (zip writers taken)"

definition flush_shards :: "('w, 'f, 't) index_env \<Rightarrow> ('w \<times> int option) list \<Rightarrow> 'w list" where
  "flush_shards env runs = map (\<lambda>(w, _). ie_flush env w) runs"

definition Index ::
  "config \<Rightarrow> ('w, 'f, 't) index_env \<Rightarrow> (string list \<Rightarrow> string list) \<Rightarrow> nat \<Rightarrow> schedule \<Rightarrow>
   go_error option \<Rightarrow> duration \<Rightarrow> int \<Rightarrow> index_query \<Rightarrow>
   (index_result \<times> go_error option) outcome option" where
  "Index cfg env order fuel sched parerr elapsed now req =
     (let resp = NewIndexResult
      in case IndexQuery_Normalize order req of
           Inl err \<Rightarrow> Some (Returns (resp\<lparr>ir_Error := Some (NewStructError err)\<rparr>, Some err))
         | Inr req \<Rightarrow>
             (let nshards = (if c_NumShards cfg = 0 then 1 else c_NumShards cfg);
                  nshards = MinInt nshards maxShards
              in if nshards < 0 then Some (Panics ''makeslice: len out of range'')
                 else
                   (let (root, req) = getRoot cfg req;
                        files = map (\<lambda>n. path_Join [root, shardName (iq_Key req) (int n)])
                          [0..<nat nshards]
                    in case create_shards env files of
                         Inl err \<Rightarrow> Some (Returns (resp\<lparr>ir_Error := Some (NewStructError err)\<rparr>, None))
                       | Inr writers \<Rightarrow>
                           (let fs = ie_walkfs env root;
                                repo = SetMeta (c_RepoMeta cfg) (iq_Meta req) (newRepoFromQuery req root)
                            in case scanner fuel fs (ie_art env) req of
                                 None \<Rightarrow> None
                               | Some (names, scanerr) \<Rightarrow>
                                   (let runs = run_shards env root writers (sched (nat nshards) names);
                                        err = parerr;
                                        repo = repo\<lparr>r_NumFiles := r_NumFiles repo +
                                          sum_list (map (\<lambda>(_, num). case num of None \<Rightarrow> 0 | Some n \<Rightarrow> n) runs),
                                          r_NumShards := int (length writers)\<rparr>;
                                        flushed = flush_shards env runs;
                                        repo = repo\<lparr>
                                          r_SizeIndex := r_SizeIndex repo + sum_list (map (ie_IndexBytes env) flushed),
                                          r_SizeData := r_SizeData repo + sum_list (map (ie_DataBytes env) flushed),
                                          r_ElapsedIndexing := elapsed, r_TimeUpdated := now\<rparr>
                                    in Some (Returns (case err of
                                         Some e \<Rightarrow> (IndexResult_SetError err
                                           (resp\<lparr>ir_Repo := Some (repo\<lparr>r_State := st_ERROR\<rparr>)\<rparr>), err)
                                       | None \<Rightarrow> (resp\<lparr>ir_Repo := Some (repo\<lparr>r_State := st_OK\<rparr>)\<rparr>, None))))))))"

section \<open>Validation\<close>

definition dir_ok :: "string \<Rightarrow> bool" where
  "dir_ok dir \<longleftrightarrow> dir = ''/'' \<or> \<not> IsAbs dir"

definition dir_norm :: "string \<Rightarrow> string" where
  "dir_norm dir = (if dir = ''.'' then ''/'' else dir)"

lemma normalize_dirs_iff:
  "distinct seen \<Longrightarrow> case normalize_dirs dirs seen of
     Inl e \<Rightarrow> (\<exists>d \<in> set dirs. \<not> dir_ok d) \<and> IsValueError e
   | Inr ds \<Rightarrow> (\<forall>d \<in> set dirs. dir_ok d) \<and> distinct ds \<and> set ds = set seen \<union> dir_norm ` set dirs"
proof (induction dirs seen rule: normalize_dirs.induct)
  case (2 dir dirs seen)
  show ?case
  proof (cases "dir_ok dir")
    case True
    then have eq: "normalize_dirs (dir # dirs) seen = normalize_dirs dirs
        (if dir_norm dir \<in> set seen then seen else seen @ [dir_norm dir])"
      by (auto simp: dir_ok_def dir_norm_def Let_def)
    have "distinct (if dir_norm dir \<in> set seen then seen else seen @ [dir_norm dir])"
      using 2(2) by simp
    from "2.IH" [OF _ refl, folded dir_norm_def, OF _ this] True show ?thesis
      unfolding eq dir_ok_def by (auto split: sum.splits if_splits)
  next
    case False
    then show ?thesis by (auto simp: dir_ok_def NewValueError_def)
  qed
qed simp

lemma dir_norm_ok: "dir_ok d \<Longrightarrow> dir_ok (dir_norm d) \<and> dir_norm (dir_norm d) = dir_norm d"
  by (auto simp: dir_ok_def dir_norm_def)

text \<open>A request is accepted exactly when it has a key, an absolute root, something to index and
  no absolute directory other than \<open>/\<close>. Its directories then are the requested ones, \<open>.\<close>
  read as \<open>/\<close>, each once, in whatever order the set is visited, nothing else changes, and
  validating the result again accepts it with the same directories. Otherwise the error is a
  value error.\<close>

theorem IndexQuery_Normalize_accepts:
  assumes order: "\<And>xs. mset (order xs) = mset xs"
  shows "case IndexQuery_Normalize order q of
      Inl e \<Rightarrow> IsValueError e \<and> (iq_Key q = '''' \<or> (iq_Dirs q = [] \<and> iq_Files q = []) \<or>
        \<not> IsAbs (iq_Root q) \<or> (\<exists>d \<in> set (iq_Dirs q). d \<noteq> ''/'' \<and> IsAbs d))
    | Inr q' \<Rightarrow> iq_Key q \<noteq> '''' \<and> (iq_Dirs q \<noteq> [] \<or> iq_Files q \<noteq> []) \<and> IsAbs (iq_Root q) \<and>
        (\<forall>d \<in> set (iq_Dirs q). d = ''/'' \<or> \<not> IsAbs d) \<and> distinct (iq_Dirs q') \<and>
        set (iq_Dirs q') = (\<lambda>d. if d = ''.'' then ''/'' else d) ` set (iq_Dirs q) \<and>
        q' = q\<lparr>iq_Dirs := iq_Dirs q'\<rparr> \<and>
        (\<exists>q''. IndexQuery_Normalize order q' = Inr q'' \<and> set (iq_Dirs q'') = set (iq_Dirs q'))"
proof -
  have norm: "dir_norm = (\<lambda>d. if d = ''.'' then ''/'' else d)" by (simp add: fun_eq_iff dir_norm_def)
  have os: "set (order xs) = set xs" "distinct (order xs) = distinct xs" for xs
    using order [of xs] by (metis set_mset_mset, metis mset_eq_imp_distinct_iff)
  show ?thesis
  proof (cases "iq_Key q = '''' \<or> (iq_Dirs q = [] \<and> iq_Files q = []) \<or> \<not> IsAbs (iq_Root q)")
    case True
    then show ?thesis by (auto simp: IndexQuery_Normalize_def NewValueError_def)
  next
    case ok: False
    then have eq: "IndexQuery_Normalize order q = (case normalize_dirs (iq_Dirs q) [] of
        Inl e \<Rightarrow> Inl e | Inr seen \<Rightarrow> Inr (q\<lparr>iq_Dirs := order seen\<rparr>))"
      by (auto simp: IndexQuery_Normalize_def)
    show ?thesis
    proof (cases "normalize_dirs (iq_Dirs q) []")
      case (Inl e)
      with normalize_dirs_iff [of "[]" "iq_Dirs q"] show ?thesis by (auto simp: eq dir_ok_def)
    next
      case (Inr seen)
      let ?q = "q\<lparr>iq_Dirs := order seen\<rparr>"
      have seen: "\<forall>d \<in> set (iq_Dirs q). dir_ok d" "distinct seen" "set seen = dir_norm ` set (iq_Dirs q)"
        using normalize_dirs_iff [of "[]" "iq_Dirs q"] Inr by auto
      have again: "\<forall>d \<in> set (order seen). dir_ok d" "dir_norm ` set (order seen) = set seen"
        using seen dir_norm_ok by (auto simp: os image_iff)
      obtain seen' where seen': "normalize_dirs (order seen) [] = Inr seen'" "set seen' = set seen"
        using normalize_dirs_iff [of "[]" "order seen"] again
        by (cases "normalize_dirs (order seen) []") auto
      have "order seen \<noteq> [] \<or> iq_Files q \<noteq> []" using ok seen(3) os(1) [of seen] by auto
      then have "IndexQuery_Normalize order ?q = Inr (?q\<lparr>iq_Dirs := order seen'\<rparr>)"
        using ok seen'(1) by (auto simp: IndexQuery_Normalize_def)
      then show ?thesis
        using ok seen seen'(2) by (auto simp: eq Inr os norm dir_ok_def)
    qed
  qed
qed

lemma IndexQuery_Normalize_accepts_witness:
  "\<exists>q'. IndexQuery_Normalize rev ((NewIndexQuery ''k'')\<lparr>iq_Root := ''/src'', iq_Dirs := [''.'', ''a'', ''/'', ''a'']\<rparr>)
     = Inr q' \<and> set (iq_Dirs q') = {''/'', ''a''}"
proof -
  let ?q = "(NewIndexQuery ''k'')\<lparr>iq_Root := ''/src'', iq_Dirs := [''.'', ''a'', ''/'', ''a'']\<rparr>"
  have "IndexQuery_Normalize rev ?q = Inr (?q\<lparr>iq_Dirs := [''a'', ''/'']\<rparr>)"
    by (simp add: IndexQuery_Normalize_def NewIndexQuery_def IsAbs_def HasPrefix_def)
  with IndexQuery_Normalize_accepts [of rev ?q] show ?thesis
    by (auto simp: NewIndexQuery_def)
qed

section \<open>What a scan finds\<close>

definition excluded :: "'t art \<Rightarrow> string \<Rightarrow> bool" where
  "excluded t p \<longleftrightarrow> MatchFile t (IndexPathExcludes t) p"

text \<open>Of the paths a walk visits: the regular files that are not excluded, without leading slash.\<close>

definition indexable :: "walk_fs \<Rightarrow> 't art \<Rightarrow> string list \<Rightarrow> string list" where
  "indexable fs t ps = map trimLeadingSlash
     (filter (\<lambda>p. \<not> excluded t p \<and> \<not> fi_dir (info_at fs p) \<and> fi_regular (info_at fs p)) ps)"

lemma scan_walker_prunes:
  "prunes fs (excluded t) (\<lambda>p names. names @ indexable fs t [p]) (scan_walker t)"
  by (simp add: prunes_def scan_walker_def excluded_def indexable_def)

lemma fold_indexable: "fold (\<lambda>p names. names @ indexable fs t [p]) ps names = names @ indexable fs t ps"
  by (induction ps arbitrary: names) (auto simp: indexable_def)

lemma scan_dirs_trees:
  assumes "\<And>d. d \<in> set dirs \<Longrightarrow> holds fs d (tree d) \<and> depth (tree d) < fuel"
  shows "\<exists>err. scan_dirs fuel fs t dirs names err0 =
      Some (names @ concat (map (\<lambda>d. indexable fs t (visited (excluded t) d (tree d))) dirs), err) \<and>
    (err = None \<or> dirs = [] \<and> err = err0)"
  using assms
proof (induction dirs arbitrary: names err0)
  case (Cons d dirs)
  have "Walk fuel fs d (scan_walker t) names = Some (names @ indexable fs t (visited (excluded t) d (tree d)), None)"
    using Walk_tree [OF scan_walker_prunes, of fs d "tree d" fuel t names] Cons.prems [of d]
    by (simp add: fold_indexable)
  with Cons.IH [OF Cons.prems, of "names @ indexable fs t (visited (excluded t) d (tree d))" None]
  show ?case by auto
qed simp

text \<open>C21. When the file system answers for the tree below every requested directory, the scan finds
  the requested files that exist and are no directories, then, directory by directory and in
  sorted order, every regular file that is not excluded and lies below no excluded directory,
  and reports no error.\<close>

theorem scanner_finds_files:
  assumes "\<And>d. d \<in> set (iq_Dirs q) \<Longrightarrow> holds fs d (tree d) \<and> depth (tree d) < fuel"
  shows "scanner fuel fs t q = Some
    (scan_files fs (iq_Files q) @
     concat (map (\<lambda>d. indexable fs t (visited (excluded t) d (tree d))) (iq_Dirs q)), None)"
  using scan_dirs_trees [of "iq_Dirs q" fs tree fuel t "scan_files fs (iq_Files q)" None] assms
  by (auto simp: scanner_def)

lemma tiny_not_excluded: "p \<in> {''/'', ''/a'', ''/b''} \<Longrightarrow> \<not> excluded list_art p"
  using MatchFile_iff [OF list_art_ok, of p]
  by (auto simp: excluded_def append_eq_Cons_conv Cons_eq_append_conv)

abbreviation tiny_tree :: fs_node where
  "tiny_tree \<equiv> Folder [(''a'', Regular), (''b'', Regular)]"

lemma tiny_indexable:
  "indexable tiny_fs list_art (visited (excluded list_art) ''/'' tiny_tree) = [''a'', ''b'']"
  using tiny_not_excluded
  by (simp add: tiny_joins indexable_def tiny_fs_def info_at_def trimLeadingSlash_def TrimPrefix_def
      HasPrefix_def)

lemma tiny_scan:
  assumes "iq_Dirs q = [''/'']" "iq_Files q = []"
  shows "scanner 2 tiny_fs list_art q = Some ([''a'', ''b''], None)"
proof -
  obtain err where "scan_dirs 2 tiny_fs list_art [''/''] [] None =
      Some (indexable tiny_fs list_art (visited (excluded list_art) ''/'' tiny_tree), err)" "err = None"
    using scan_dirs_trees [of "[''/'']" tiny_fs "\<lambda>_. tiny_tree" 2 list_art "[]" None] tiny_fs_holds
    by (auto simp del: holds.simps visited.simps)
  then show ?thesis using tiny_indexable by (simp add: scanner_def assms scan_files_def del: visited.simps)
qed

lemma scanner_finds_files_witness:
  "scanner 2 tiny_fs list_art ((NewIndexQuery ''k'')\<lparr>iq_Dirs := [''/'']\<rparr>) = Some ([''a'', ''b''], None)"
proof -
  let ?q = "(NewIndexQuery ''k'')\<lparr>iq_Dirs := [''/'']\<rparr>"
  have "scanner 2 tiny_fs list_art ?q = Some (scan_files tiny_fs (iq_Files ?q) @
     concat (map (\<lambda>d. indexable tiny_fs list_art (visited (excluded list_art) d tiny_tree)) (iq_Dirs ?q)), None)"
    by (rule scanner_finds_files) (use tiny_fs_holds in \<open>simp add: NewIndexQuery_def del: holds.simps\<close>)
  then show ?thesis
    using tiny_indexable by (simp add: NewIndexQuery_def scan_files_def del: visited.simps)
qed

text \<open>An entry of a directory that cannot be examined ends the scan of the directory without an
  error: the entries before it are found and all entries after it are silently left out.\<close>

theorem scanner_drops_rest_of_directory:
  assumes "iq_Dirs q = [d]" "wf_lstat fs d = Inr i" "fi_dir i" "\<not> excluded t d"
    and "readDirNames fs d = Inr (map fst cs @ bad # rest)" "holds_all fs d cs" "depth_all cs < fuel"
    and "wf_lstat fs (path_Join [d, bad]) = Inl e"
  shows "scanner (Suc fuel) fs t q = Some
    (scan_files fs (iq_Files q) @ indexable fs t (visited_all (excluded t) d cs), None)"
proof -
  let ?names = "scan_files fs (iq_Files q)"
  have "scan_walker t d (Some i) None ?names = (?names, None)"
    using assms(3,4) by (simp add: scan_walker_def excluded_def)
  then have "Walk (Suc fuel) fs d (scan_walker t) ?names
      = walk_names fuel fs (scan_walker t) d (map fst cs @ bad # rest) ?names"
    using assms(2,3,5) by (simp add: Walk_def)
  also have "\<dots> = walk_names fuel fs (scan_walker t) d (bad # rest)
      (?names @ indexable fs t (visited_all (excluded t) d cs))"
    by (simp only: walk_names_append [OF scan_walker_prunes assms(6,7)] fold_indexable)
  also have "\<dots> = Some (?names @ indexable fs t (visited_all (excluded t) d cs), None)"
    using assms(8) by (simp add: scan_walker_def)
  finally show ?thesis using assms(1) by (simp add: scanner_def)
qed

lemma scanner_drops_rest_of_directory_witness:
  "scanner 2 (tiny_fs\<lparr>wf_lstat := (wf_lstat tiny_fs)(''/a'' := Inl (PermissionError ''/a''))\<rparr>) list_art
     ((NewIndexQuery ''k'')\<lparr>iq_Dirs := [''/'']\<rparr>) = Some ([], None)"
proof -
  let ?fs = "tiny_fs\<lparr>wf_lstat := (wf_lstat tiny_fs)(''/a'' := Inl (PermissionError ''/a''))\<rparr>"
  let ?q = "(NewIndexQuery ''k'')\<lparr>iq_Dirs := [''/'']\<rparr>"
  have names: "readDirNames ?fs ''/'' = Inr (map fst ([] :: (string \<times> fs_node) list) @ ''a'' # [''b''])"
    by (simp add: tiny_fs_def readDirNames_def less_char_def)
  have "\<not> excluded list_art ''/''"
    using MatchFile_iff [OF list_art_ok, of "''/''"]
    by (auto simp: excluded_def append_eq_Cons_conv Cons_eq_append_conv)
  from scanner_drops_rest_of_directory [OF _ _ _ this names, of ?q
      "\<lparr>fi_name = ''/'', fi_dir = True, fi_regular = False\<rparr>" 1 "PermissionError ''/a''"]
  show ?thesis
    by (simp add: tiny_joins NewIndexQuery_def scan_files_def indexable_def numeral_2_eq_2)
      (simp add: tiny_fs_def)
qed

section \<open>What an index run produces\<close>

definition openable :: "('w, 'f, 't) index_env \<Rightarrow> string \<Rightarrow> string \<Rightarrow> bool" where
  "openable env root name = (case ie_open env root name of Inl _ \<Rightarrow> False | Inr _ \<Rightarrow> True)"

lemma indexShard_count:
  "(\<And>i. \<not> expired i) \<Longrightarrow> snd (indexShard env root expired i names w num) =
     Some (num + int (length (filter (openable env root) names)))"
proof (induction names arbitrary: i w num)
  case (Cons name names)
  then show ?case by (auto simp: openable_def split: sum.splits)
qed simp

text \<open>A schedule in which every name is taken by one shard and nothing expires.\<close>

definition fair :: "schedule \<Rightarrow> nat \<Rightarrow> string list \<Rightarrow> bool" where
  "fair sched n names \<longleftrightarrow> length (sched n names) = n \<and>
     mset (concat (map fst (sched n names))) = mset names \<and>
     (\<forall>(taken, expired) \<in> set (sched n names). \<forall>i. \<not> expired i)"

lemma create_shards_length: "create_shards env files = Inr ws \<Longrightarrow> length ws = length files"
  by (induction files arbitrary: ws) (auto split: prod.splits option.splits sum.splits)

lemma runs_count:
  assumes "length ws = length sch" "\<forall>(taken, expired) \<in> set sch. \<forall>i. \<not> expired i"
  shows "sum_list (map (\<lambda>(_, num). case num of None \<Rightarrow> 0 | Some n \<Rightarrow> n)
      (run_shards env root ws sch)) = int (length (filter (openable env root) (concat (map fst sch))))"
  using assms unfolding run_shards_def
proof (induction ws sch rule: list_induct2)
  case (Cons w ws s sch)
  obtain taken expired where s: "s = (taken, expired)" by (cases s)
  with Cons.prems have "\<And>i. \<not> expired i" by auto
  from indexShard_count [where expired = expired, OF this, of env root 0 taken "the w" 0] Cons show ?case
    by (auto simp: s split: prod.splits)
qed simp

lemma length_filter_mset: "mset xs = mset ys \<Longrightarrow> length (filter P xs) = length (filter P ys)"
  by (metis mset_filter size_mset)

lemma Index_built:
  assumes "IndexQuery_Normalize order req = Inr req'" "getRoot cfg req' = (root, q)"
    and "0 \<le> c_NumShards cfg" "n = nat (if c_NumShards cfg = 0 then 1 else min (c_NumShards cfg) 32)"
    and "files = map (\<lambda>i. path_Join [root, shardName (iq_Key req) (int i)]) [0..<n]"
    and "create_shards env files = Inr writers"
    and "scanner fuel (ie_walkfs env root) (ie_art env) q = Some (names, scanerr)"
    and "fair sched n names"
  shows "\<exists>repo. Index cfg env order fuel sched None elapsed now req =
      Some (Returns (\<lparr>ir_Repo = Some repo, ir_Error = None\<rparr>, None)) \<and>
    r_State repo = st_OK \<and> r_Key repo = iq_Key req \<and> r_Root repo = TrimSuffix (iq_Root req) ''/'' \<and>
    r_NumFiles repo = int (length (filter (openable env root) names)) \<and> Shards repo = Returns files"
proof -
  have q: "iq_Key q = iq_Key req" "iq_Root q = TrimSuffix (iq_Root req) ''/''" "iq_Key req' = iq_Key req"
    using assms(1,2) by (auto simp: IndexQuery_Normalize_def getRoot_def Let_def split: if_splits sum.splits)
  have n: "nat (MinInt (if c_NumShards cfg = 0 then 1 else c_NumShards cfg) maxShards) = n"
    "\<not> MinInt (if c_NumShards cfg = 0 then 1 else c_NumShards cfg) maxShards < 0"
    using assms(3,4) by (auto simp: maxShards_def min_def)
  have len: "length writers = n"
    using create_shards_length [OF assms(6)] assms(5) by simp
  have sch: "length writers = length (sched n names)"
    "\<forall>(taken, expired) \<in> set (sched n names). \<forall>i. \<not> expired i"
    using assms(8) len by (auto simp: fair_def)
  have "mset (concat (map fst (sched n names))) = mset names" using assms(8) by (simp add: fair_def)
  note count = runs_count [OF sch, of env root, unfolded length_filter_mset [OF this]]
  have create: "create_shards env (map (\<lambda>i. path_Join [root, shardName (iq_Key q) (int i)]) [0..<n])
      = Inr writers"
    using assms(5,6) by (simp add: q)
  show ?thesis
    unfolding Index_def Let_def assms(1,2) sum.case prod.case n(1) create assms(7) option.case count
      if_not_P [OF n(2)]
    using assms(5) len
    by (simp add: SetMeta_def newRepoFromQuery_def NewRepo_def NewIndexResult_def q Shards_def)
qed

text \<open>C13. When the request is valid, the shard files can be created and the shards share out all the
  names before the deadline, indexing ends with an available repository under the request's
  key: it counts the files that could be opened, and the shard files it names for searching
  are exactly the ones that were created. This holds whatever error the scan has reported:
  that error is lost.\<close>

theorem Index_builds_repo:
  assumes "IndexQuery_Normalize order req = Inr req'" "getRoot cfg req' = (root, q)"
    and "0 \<le> c_NumShards cfg" "n = nat (if c_NumShards cfg = 0 then 1 else min (c_NumShards cfg) 32)"
    and "files = map (\<lambda>i. path_Join [root, shardName (iq_Key req) (int i)]) [0..<n]"
    and "create_shards env files = Inr writers"
    and "scanner fuel (ie_walkfs env root) (ie_art env) q = Some (names, scanerr)"
    and "fair sched n names"
  shows "\<exists>repo. Index cfg env order fuel sched None elapsed now req =
      Some (Returns (\<lparr>ir_Repo = Some repo, ir_Error = None\<rparr>, None)) \<and>
    r_State repo = st_OK \<and> r_Key repo = iq_Key req \<and> r_Root repo = TrimSuffix (iq_Root req) ''/'' \<and>
    r_NumFiles repo = int (length (filter (openable env root) names)) \<and> Shards repo = Returns files"
  using assms by (rule Index_built)

text \<open>An environment whose writers collect the names added, to instantiate claims.\<close>

definition tiny_index_env :: "(string list, string, string list) index_env" where
  "tiny_index_env = \<lparr>ie_mkdir = (\<lambda>_. None), ie_exists = (\<lambda>_. False), ie_create = (\<lambda>_. Returns []),
     ie_walkfs = (\<lambda>_. tiny_fs), ie_open = (\<lambda>_ name. if name = ''a'' then Inr name else Inl (NotExistError name)),
     ie_add = (\<lambda>name f w. w @ [name]), ie_flush = (\<lambda>w. w), ie_IndexBytes = length, ie_DataBytes = length,
     ie_art = list_art\<rparr>"

definition tiny_index_request :: index_query where
  "tiny_index_request = (NewIndexQuery ''k'')\<lparr>iq_Root := ''/src/'', iq_Dirs := [''/'']\<rparr>"

abbreviation in_repo_config :: config where
  "in_repo_config \<equiv> zero_config\<lparr>c_IndexInRepo := True\<rparr>"

abbreviation one_shard :: schedule where
  "one_shard \<equiv> \<lambda>n names. [(names, \<lambda>_. False)]"

lemma tiny_trim: "TrimSuffix ''/src/'' ''/'' = ''/src''"
  by (simp add: TrimSuffix_def HasSuffix_def suffix_def)

text \<open>The request can be indexed: the hypotheses of the claim below, at this environment.\<close>

lemma tiny_index_ready:
  shows "IndexQuery_Normalize (\<lambda>xs. xs) tiny_index_request = Inr tiny_index_request"
    and "getRoot in_repo_config tiny_index_request = (''/src'', tiny_index_request\<lparr>iq_Root := ''/src''\<rparr>)"
    and "0 \<le> c_NumShards in_repo_config"
    and "1 = nat (if c_NumShards in_repo_config = 0 then 1 else min (c_NumShards in_repo_config) 32)"
    and "create_shards tiny_index_env (map (\<lambda>i. path_Join [''/src'', shardName (iq_Key tiny_index_request) (int i)])
      [0..<1]) = Inr [Some []]"
    and "scanner 2 (ie_walkfs tiny_index_env ''/src'') (ie_art tiny_index_env)
      (tiny_index_request\<lparr>iq_Root := ''/src''\<rparr>) = Some ([''a'', ''b''], None)"
    and "fair one_shard 1 [''a'', ''b'']"
    and "length (filter (openable tiny_index_env ''/src'') [''a'', ''b'']) = 1"
proof -
  have tfs: "ie_walkfs tiny_index_env ''/src'' = tiny_fs" by (simp add: tiny_index_env_def)
  show "scanner 2 (ie_walkfs tiny_index_env ''/src'') (ie_art tiny_index_env)
      (tiny_index_request\<lparr>iq_Root := ''/src''\<rparr>) = Some ([''a'', ''b''], None)"
    unfolding tfs by (simp add: tiny_index_env_def tiny_index_request_def NewIndexQuery_def tiny_scan)
qed (simp_all add: IndexQuery_Normalize_def tiny_index_request_def NewIndexQuery_def IsAbs_def HasPrefix_def
    getRoot_def tiny_trim tiny_index_env_def getLocalIndexWriter_def fair_def openable_def zero_config_def)

lemma Index_builds_repo_witness:
  "\<exists>repo. Index in_repo_config tiny_index_env (\<lambda>xs. xs) 2 one_shard None 0 0 tiny_index_request
    = Some (Returns (\<lparr>ir_Repo = Some repo, ir_Error = None\<rparr>, None)) \<and>
    r_Root repo = ''/src'' \<and> r_NumFiles repo = 1"
  using Index_builds_repo [OF tiny_index_ready(1-4) refl tiny_index_ready(5-7), of 0 0] tiny_index_ready(8)
  by (auto simp: tiny_index_request_def NewIndexQuery_def tiny_trim)

section \<open>Which file system is indexed\<close>

definition with_fs ::
  "string \<Rightarrow> walk_fs \<Rightarrow> (string \<Rightarrow> go_error + 'f) \<Rightarrow> ('w, 'f, 't) index_env \<Rightarrow> ('w, 'f, 't) index_env"
where
  "with_fs r fs opn env =
     env\<lparr>ie_walkfs := (ie_walkfs env)(r := fs), ie_open := (ie_open env)(r := opn)\<rparr>"

lemma with_fs_fields [simp]:
  "ie_mkdir (with_fs r fs opn env) = ie_mkdir env" "ie_exists (with_fs r fs opn env) = ie_exists env"
  "ie_create (with_fs r fs opn env) = ie_create env" "ie_add (with_fs r fs opn env) = ie_add env"
  "ie_flush (with_fs r fs opn env) = ie_flush env" "ie_art (with_fs r fs opn env) = ie_art env"
  "ie_IndexBytes (with_fs r fs opn env) = ie_IndexBytes env"
  "ie_DataBytes (with_fs r fs opn env) = ie_DataBytes env"
  "ie_walkfs (with_fs r fs opn env) = (ie_walkfs env)(r := fs)"
  "ie_open (with_fs r fs opn env) = (ie_open env)(r := opn)"
  by (cases env, simp add: with_fs_def)+

lemma indexShard_with_fs:
  "root \<noteq> r \<Longrightarrow> indexShard (with_fs r fs opn env) root expired i names w num =
     indexShard env root expired i names w num"
  by (induction names arbitrary: i w num) (auto split: sum.splits)

lemma create_shards_with_fs: "create_shards (with_fs r fs opn env) files = create_shards env files"
proof (induction files)
  case (Cons name files)
  have "getLocalIndexWriter (with_fs r fs opn env) name = getLocalIndexWriter env name"
    unfolding getLocalIndexWriter_def with_fs_fields ..
  with Cons show ?case by simp
qed simp

text \<open>With \<open>IndexInRepo\<close> off, indexing does not depend on the files below the repository's root,
  nor on those anywhere but in the directory the index files are written to
  (\<open>IndexRoot/Key\<close>): that is the file system it scans and reads.\<close>

theorem Index_ignores_other_file_systems:
  assumes "\<not> c_IndexInRepo cfg" "r \<noteq> path_Join [c_IndexRoot cfg, iq_Key req]"
  shows "Index cfg (with_fs r fs opn env) order fuel sched parerr elapsed now req =
    Index cfg env order fuel sched parerr elapsed now req"
proof (cases "IndexQuery_Normalize order req")
  case (Inr req')
  then have key: "iq_Key req' = iq_Key req"
    by (auto simp: IndexQuery_Normalize_def split: if_splits sum.splits)
  let ?root = "path_Join [c_IndexRoot cfg, iq_Key req]"
  have root: "getRoot cfg req' = (?root, req'\<lparr>iq_Root := TrimSuffix (iq_Root req') ''/''\<rparr>)"
    using assms(1) by (simp add: getRoot_def key)
  have eq: "?root \<noteq> r" using assms(2) by simp
  show ?thesis
    unfolding Index_def Let_def Inr sum.case root prod.case create_shards_with_fs run_shards_def flush_shards_def
      indexShard_with_fs [OF eq] with_fs_fields fun_upd_other [OF eq] ..
qed (simp add: Index_def)

lemma Index_ignores_other_file_systems_witness:
  "Index zero_config (with_fs ''/src'' tiny_fs (\<lambda>_. Inr []) tiny_index_env) (\<lambda>xs. xs) 2 (\<lambda>n names. []) None 0 0
     ((NewIndexQuery ''k'')\<lparr>iq_Root := ''/src'', iq_Dirs := [''/'']\<rparr>) =
   Index zero_config tiny_index_env (\<lambda>xs. xs) 2 (\<lambda>n names. []) None 0 0
     ((NewIndexQuery ''k'')\<lparr>iq_Root := ''/src'', iq_Dirs := [''/'']\<rparr>)"
proof (rule Index_ignores_other_file_systems)
  have "path_Join ['''', ''k''] = ''k''" by code_simp
  then show "''/src'' \<noteq> path_Join [c_IndexRoot zero_config,
      iq_Key ((NewIndexQuery ''k'')\<lparr>iq_Root := ''/src'', iq_Dirs := [''/'']\<rparr>)]"
    by (simp add: zero_config_def NewIndexQuery_def)
qed (simp add: zero_config_def)

end
