(* ===== verification/Api_Index.thy ===== *)
theory Api_Index
  imports Index
begin

text \<open>
  \<open>afind/api/index.go\<close>: the index service. A request for a new key leaves a marker repository in
  the database while the indexer, or the daemon on the repository's host, works.

  The indexer and the remote daemons are parameters (\<open>index_backend\<close>), as are the codec's
  answer to a request body and the choices of the \<open>select\<close> on an expired request.
\<close>

section \<open>Errors as interface values\<close>

text \<open>
  An \<open>error\<close> result can hold a nil \<open>*StructError\<close>: it then differs from \<open>nil\<close>, and asking for
  its message reads through the nil pointer.
\<close>

datatype error_iface = NoError | NilStructError | SomeError go_error

fun iface :: "go_error option \<Rightarrow> error_iface" where
  "iface None = NoError"
| "iface (Some e) = SomeError e"

definition iface_of_struct :: "struct_error option \<Rightarrow> error_iface" where
  "iface_of_struct e = (case e of None \<Rightarrow> NilStructError | Some s \<Rightarrow> SomeError (StructError Ptr s))"

text \<open>\<open>SetError\<close> on such a value: a nil \<open>*StructError\<close> clears the field.\<close>

definition SetError_iface :: "error_iface \<Rightarrow> index_result \<Rightarrow> index_result" where
  "SetError_iface err r =
     (case err of
        NoError \<Rightarrow> r
      | NilStructError \<Rightarrow> r\<lparr>ir_Error := None\<rparr>
      | SomeError e \<Rightarrow> IndexResult_SetError (Some e) r)"

definition NewStructError_iface :: "error_iface \<Rightarrow> struct_error outcome" where
  "NewStructError_iface err =
     (case err of
        SomeError e \<Rightarrow> Returns (NewStructError e)
      | _ \<Rightarrow> Panics ''invalid memory address or nil pointer dereference'')"

section \<open>The service\<close>

record index_backend =
  ib_index :: "index_query \<Rightarrow> index_result \<times> go_error option"
  ib_dial :: "string \<Rightarrow> go_error option"
  ib_call :: "string \<Rightarrow> index_query \<Rightarrow> index_result \<times> go_error option"

text \<open>\<open>expired\<close>: the request had expired when its result was to be sent, so none was sent.\<close>

definition localIndex :: "index_backend \<Rightarrow> index_query \<Rightarrow> bool \<Rightarrow> index_result option" where
  "localIndex be req expired =
     (let (ir, err) = ib_index be req; ir = IndexResult_SetError err ir
      in if expired then None else Some ir)"

definition remoteIndex :: "config \<Rightarrow> index_backend \<Rightarrow> index_query \<Rightarrow> bool \<Rightarrow> index_result option outcome" where
  "remoteIndex c be req expired =
     (case getAddress (iq_Meta req) (PortRpc c) of
        Panics msg \<Rightarrow> Panics msg
      | Returns addr \<Rightarrow>
          (let (ir, err) = (case ib_dial be addr of
                 None \<Rightarrow> ib_call be addr req
               | Some e \<Rightarrow> (NewIndexResult, Some e));
               ir = IndexResult_SetError err ir
           in Returns (if expired then None else Some ir)))"

definition timeoutIndex :: "index_query \<Rightarrow> config \<Rightarrow> duration \<times> config" where
  "timeoutIndex req cfg = (if iq_Timeout req = 0 then GetTimeoutIndex cfg else (iq_Timeout req, cfg))"

definition marker_repo :: "index_query \<Rightarrow> repo" where
  "marker_repo req = NewRepo\<lparr>r_Key := iq_Key req, r_State := st_INDEXING, r_Root := iq_Root req,
     r_Meta := Meta_Update (iq_Meta req) []\<rparr>"

text \<open>The branch of the \<open>select\<close> that has received \<open>incoming\<close>, and the one that has timed out.\<close>

definition index_received ::
  "config \<Rightarrow> 'c fs_env \<Rightarrow> string \<Rightarrow> index_result option \<Rightarrow> error_iface \<Rightarrow> 'c db \<Rightarrow>
   index_result \<times> error_iface \<times> 'c db" where
  "index_received c env key incoming err d =
     (case incoming of
        None \<Rightarrow> (NewIndexResult\<lparr>ir_Error := Some (NewStructError NewRepoUnavailableError)\<rparr>, err, d)
      | Some ir \<Rightarrow>
          (let d' = (case ir_Repo ir of
                 Some r \<Rightarrow>
                   if r_State r = st_OK then fst (db_Set env (r_Key r) (Some r) d)
                   else if c_DeleteRepoOnError c then fst (db_Delete env key d) else d
               | None \<Rightarrow> fst (db_Delete env key d))
           in (ir, iface_of_struct (ir_Error ir), d')))"

definition index_timed_out :: "error_iface \<Rightarrow> 'c db \<Rightarrow> index_result \<times> error_iface \<times> 'c db" where
  "index_timed_out err d =
     (NewIndexResult\<lparr>ir_Error := Some (NewStructError (NewTimeoutError ''index''))\<rparr>, err, d)"

text \<open>The deferred function: a marker still in place is removed.\<close>

definition clear_marker :: "'c fs_env \<Rightarrow> string \<Rightarrow> 'c db \<Rightarrow> 'c db" where
  "clear_marker env key d =
     (case db_Get d key of
        None \<Rightarrow> d
      | Some r \<Rightarrow> if r_State r \<noteq> st_INDEXING then d else fst (db_Delete env key d))"

record index_choices =
  ic_expired :: bool
  ic_timeout :: bool
  ic_parerr :: "go_error option"

definition doIndex ::
  "string option \<Rightarrow> (string list \<Rightarrow> string list) \<Rightarrow> config \<Rightarrow> 'c fs_env \<Rightarrow> index_backend \<Rightarrow>
   index_choices \<Rightarrow> index_query \<Rightarrow> 'c db \<Rightarrow> (index_result \<times> error_iface \<times> 'c db) outcome" where
  "doIndex hostname order c env be ch req d =
     (let (local, c) = isLocal hostname c (Meta_Host (iq_Meta req)); resp = NewIndexResult
      in case db_Get d (iq_Key req) of
           Some r \<Rightarrow> Returns (resp\<lparr>ir_Repo := Some r\<rparr>, NoError, d)
         | None \<Rightarrow>
             (case IndexQuery_Normalize order req of
                Inl e \<Rightarrow> Returns (IndexResult_SetError (Some e) resp, SomeError e, d)
              | Inr req \<Rightarrow>
                  (let key = iq_Key req;
                       d1 = fst (db_Set env key (Some (marker_repo req)) d)
                   in if local \<or> iq_Recurse req then
                        (let req' = req\<lparr>iq_Recurse := False\<rparr>;
                             sent = (if local then Returns (localIndex be req' (ic_expired ch))
                                     else remoteIndex c be req' (ic_expired ch));
                             err = iface (ic_parerr ch)
                         in case sent of
                              Panics msg \<Rightarrow> Panics msg
                            | Returns incoming \<Rightarrow>
                                (let (resp, err, d2) =
                                   (if ic_timeout ch then index_timed_out err d1
                                    else index_received c env key incoming err d1)
                                 in Returns (resp, err, clear_marker env key d2)))
                      else
                        Returns (resp, SomeError NewNoRpcClientError,
                          clear_marker env key (fst (db_Delete env key d1))))))"

section \<open>Entry points\<close>

text \<open>The RPC method: the reply.\<close>

definition rpc_Index ::
  "(index_result \<times> error_iface \<times> 'c db) outcome \<Rightarrow> (index_result \<times> 'c db) outcome" where
  "rpc_Index run =
     (case run of
        Panics msg \<Rightarrow> Panics msg
      | Returns (ir, err, d) \<Rightarrow> Returns (SetError_iface err ir, d))"

datatype 'b http_body = ErrorBody struct_error | Body 'b | NoBody

text \<open>A body that does not decode; \<open>errs.InvalidRequestError\<close> is passed by value.\<close>

definition bad_request :: "int \<Rightarrow> string \<Rightarrow> int \<times> 'b http_body" where
  "bad_request status msg = (status, ErrorBody (NewStructError (InvalidRequestError Val msg)))"

definition webIndex_reply ::
  "index_result \<Rightarrow> error_iface \<Rightarrow> (int \<times> index_result http_body) outcome" where
  "webIndex_reply ir err =
     (case ir_Error ir of
        Some e \<Rightarrow> Returns (500, ErrorBody e)
      | None \<Rightarrow>
          if err \<noteq> NoError then
            (case NewStructError_iface err of
               Panics msg \<Rightarrow> Panics msg | Returns e \<Rightarrow> Returns (500, ErrorBody e))
          else Returns (200, Body ir))"

definition webIndex ::
  "string option \<Rightarrow> (string list \<Rightarrow> string list) \<Rightarrow> config \<Rightarrow> 'c fs_env \<Rightarrow> index_backend \<Rightarrow>
   index_choices \<Rightarrow> go_error + index_query \<Rightarrow> 'c db \<Rightarrow>
   (int \<times> index_result http_body) outcome \<times> 'c db" where
  "webIndex hostname order c env be ch body d =
     (case body of
        Inl e \<Rightarrow> (Returns (bad_request 400 (Error e)), d)
      | Inr q \<Rightarrow>
          (let q = q\<lparr>iq_Recurse := True\<rparr>; (timeout, c) = timeoutIndex q c
           in case doIndex hostname order c env be ch q d of
                Panics msg \<Rightarrow> (Panics msg, d)
              | Returns (ir, err, d') \<Rightarrow> (webIndex_reply ir err, d')))"

section \<open>The marker\<close>

text \<open>Every repository is stored under its own key.\<close>

definition db_keyed :: "'c db \<Rightarrow> bool" where
  "db_keyed d \<longleftrightarrow> (\<forall>k r. db_Get d k = Some r \<longrightarrow> r_Key r = k)"

lemma db_Get_Set [simp]: "db_Get (fst (db_Set env k (Some r) d)) = (db_Get d)(k \<mapsto> r)"
  by (rule db.get_put)

lemma db_Get_Delete [simp]: "db_Get (fst (db_Delete env k d)) = (db_Get d)(k := None)"
  by (rule db.get_del)

lemma db_keyed_Set: "db_keyed d \<Longrightarrow> r_Key r = k \<Longrightarrow> db_keyed (fst (db_Set env k (Some r) d))"
  by (simp add: db_keyed_def)

lemma db_keyed_Delete: "db_keyed d \<Longrightarrow> db_keyed (fst (db_Delete env k d))"
  by (simp add: db_keyed_def)

lemma db_keyed_clear: "db_keyed d \<Longrightarrow> db_keyed (clear_marker env k d)"
  by (auto simp: clear_marker_def db_keyed_Delete split: option.splits)

lemma marker_fields [simp]:
  "r_Key (marker_repo req) = iq_Key req" "r_State (marker_repo req) = st_INDEXING"
  by (simp_all add: marker_repo_def)

text \<open>What a request does to the database, key by key: \<open>settled key d d'\<close>.\<close>

definition settled :: "string \<Rightarrow> (repo \<Rightarrow> bool) \<Rightarrow> 'c db \<Rightarrow> 'c db \<Rightarrow> bool" where
  "settled key received d d' \<longleftrightarrow>
     (\<forall>r. db_Get d' key = Some r \<longrightarrow> r_State r = st_OK) \<and>
     (\<exists>k'. (\<forall>k. k \<noteq> key \<and> k \<noteq> k' \<longrightarrow> db_Get d' k = db_Get d k) \<and>
       (k' \<noteq> key \<longrightarrow> (\<exists>r. received r \<and> r_State r = st_OK \<and> r_Key r = k' \<and> db_Get d' k' = Some r))) \<and>
     (db_keyed d \<longrightarrow> db_keyed d')"

text \<open>A repository that the indexer or a remote daemon may answer a request for a key with.\<close>

definition answered_with :: "index_backend \<Rightarrow> string \<Rightarrow> repo \<Rightarrow> bool" where
  "answered_with be key r \<longleftrightarrow> (\<exists>q. iq_Key q = key \<and>
     (ir_Repo (fst (ib_index be q)) = Some r \<or> (\<exists>addr. ir_Repo (fst (ib_call be addr q)) = Some r)))"

lemma settled_own:
  "(\<forall>r. db_Get d' key = Some r \<longrightarrow> r_State r = st_OK) \<Longrightarrow> (\<forall>k. k \<noteq> key \<longrightarrow> db_Get d' k = db_Get d k) \<Longrightarrow>
    (db_keyed d \<longrightarrow> db_keyed d') \<Longrightarrow> settled key received d d'"
  by (auto simp: settled_def)

lemma sent_answers:
  "localIndex be q expired = Some ir \<Longrightarrow> ir_Repo ir = Some r \<Longrightarrow> answered_with be (iq_Key q) r"
  "remoteIndex c be q expired = Returns (Some ir) \<Longrightarrow> ir_Repo ir = Some r \<Longrightarrow> answered_with be (iq_Key q) r"
proof -
  have keep: "ir_Repo (IndexResult_SetError e x) = ir_Repo x" for e x
    by (simp add: IndexResult_SetError_def split: option.split)
  show "localIndex be q expired = Some ir \<Longrightarrow> ir_Repo ir = Some r \<Longrightarrow> answered_with be (iq_Key q) r"
    by (auto simp: localIndex_def answered_with_def keep split_def Let_def split: if_splits)
  show "remoteIndex c be q expired = Returns (Some ir) \<Longrightarrow> ir_Repo ir = Some r \<Longrightarrow> answered_with be (iq_Key q) r"
    by (auto simp: remoteIndex_def answered_with_def keep split_def Let_def NewIndexResult_def split: if_splits outcome.splits option.splits)
qed

lemma received_settled:
  assumes "index_received c env key incoming err (fst (db_Set env key (Some m) d)) = (resp, err', d2)"
    and m: "r_State m = st_INDEXING" "r_Key m = key"
    and given: "\<And>ir r. incoming = Some ir \<Longrightarrow> ir_Repo ir = Some r \<Longrightarrow> received r"
  shows "settled key received d (clear_marker env key d2)"
proof -
  let ?d1 = "fst (db_Set env key (Some m) d)"
  consider "d2 = ?d1" | "d2 = fst (db_Delete env key ?d1)"
    | r where "received r" "r_State r = st_OK" "d2 = fst (db_Set env (r_Key r) (Some r) ?d1)"
    using assms(1) given by (auto simp: index_received_def Let_def split: option.splits if_splits)
  then show ?thesis
  proof cases
    case 1
    then have "clear_marker env key d2 = fst (db_Delete env key ?d1)"
      by (simp add: clear_marker_def m)
    then show ?thesis using m by (intro settled_own) (auto simp: db_keyed_def)
  next
    case 2
    then have "clear_marker env key d2 = d2" by (simp add: clear_marker_def)
    with 2 show ?thesis using m by (intro settled_own) (auto simp: db_keyed_def)
  next
    case (3 r)
    show ?thesis
    proof (cases "r_Key r = key")
      case True
      with 3 have "clear_marker env key d2 = d2" by (simp add: clear_marker_def)
      with 3 True show ?thesis using m by (intro settled_own) (auto simp: db_keyed_def)
    next
      case False
      with 3 have "clear_marker env key d2 = fst (db_Delete env key d2)"
        by (simp add: clear_marker_def m)
      with 3 False show ?thesis
        using m unfolding settled_def by (intro conjI exI [of _ "r_Key r"]) (auto simp: db_keyed_def)
    qed
  qed
qed

lemma settled_refl: "db_Get d key = None \<Longrightarrow> settled key received d d"
  by (intro settled_own) simp_all

lemma doIndex_settled:
  assumes "doIndex hostname order c env be ch req d = Returns (resp, err, d')" "db_Get d (iq_Key req) = None"
  shows "settled (iq_Key req) (answered_with be (iq_Key req)) d d'"
proof (cases "IndexQuery_Normalize order req")
  case (Inl e)
  with assms have "d' = d" by (simp add: doIndex_def split_def)
  with assms(2) show ?thesis by (simp add: settled_refl)
next
  case (Inr q)
  obtain local c1 where loc: "isLocal hostname c (Meta_Host (iq_Meta req)) = (local, c1)"
    by (cases "isLocal hostname c (Meta_Host (iq_Meta req))")
  have key: "iq_Key q = iq_Key req"
    using Inr by (auto simp: IndexQuery_Normalize_def split: if_splits sum.splits)
  let ?d1 = "fst (db_Set env (iq_Key req) (Some (marker_repo q)) d)"
  show ?thesis
  proof (cases "local \<or> iq_Recurse q")
    case True
    let ?q = "q\<lparr>iq_Recurse := False\<rparr>"
    from True obtain incoming err0 d2 where d2: "d' = clear_marker env (iq_Key req) d2"
      "(if ic_timeout ch then index_timed_out err0 ?d1
        else index_received c1 env (iq_Key req) incoming err0 ?d1) = (resp, err, d2)"
      "(if local then Returns (localIndex be ?q (ic_expired ch)) else remoteIndex c1 be ?q (ic_expired ch)) = Returns incoming"
      using assms by (auto simp: doIndex_def Inr loc key Let_def split: outcome.splits prod.splits)
    show ?thesis
    proof (cases "ic_timeout ch")
      case True
      with d2(1,2) have "d' = fst (db_Delete env (iq_Key req) ?d1)"
        by (auto simp: index_timed_out_def clear_marker_def)
      then show ?thesis by (intro settled_own) (auto simp: db_keyed_def)
    next
      case False
      have "answered_with be (iq_Key req) r" if "incoming = Some ir" "ir_Repo ir = Some r" for ir r
        using d2(3) that sent_answers [where be = be and q = ?q and ir = ir and r = r] key by (auto split: if_splits)
      with False d2(1,2) show ?thesis by (auto intro!: received_settled simp: key [symmetric])
    qed
  next
    case False
    then have "d' = clear_marker env (iq_Key req) (fst (db_Delete env (iq_Key req) ?d1))"
      using assms by (simp add: doIndex_def Inr loc key Let_def)
    then show ?thesis by (intro settled_own) (auto simp: db_keyed_def clear_marker_def)
  qed
qed

text \<open>C9. An index request never leaves its marker behind. A known key is answered at once from the
  database, which does not change; for a new key, whatever the indexer or the remote daemon answers
  and whenever the request expires, the key afterwards is absent or an available repository, and no
  other key changes, except one if the answer is an available repository that carries another key: that
  repository is stored under the key it carries, in the place of any that was there. So no other
  repository is touched when answers carry the key that was asked for. And repositories stay
  stored under their own keys.\<close>

theorem doIndex_settles_marker:
  assumes "doIndex hostname order c env be ch req d = Returns (resp, err, d')"
  shows "case db_Get d (iq_Key req) of
      Some r \<Rightarrow> d' = d \<and> ir_Repo resp = Some r \<and> ir_Error resp = None \<and> err = NoError
    | None \<Rightarrow> (\<forall>r. db_Get d' (iq_Key req) = Some r \<longrightarrow> r_State r = st_OK) \<and>
        (\<exists>k'. (\<forall>k. k \<noteq> iq_Key req \<and> k \<noteq> k' \<longrightarrow> db_Get d' k = db_Get d k) \<and>
          (k' \<noteq> iq_Key req \<longrightarrow> (\<exists>r. answered_with be (iq_Key req) r \<and> r_State r = st_OK \<and> r_Key r = k' \<and>
            db_Get d' k' = Some r))) \<and>
        (db_keyed d \<longrightarrow> db_keyed d')"
proof (cases "db_Get d (iq_Key req)")
  case None
  from doIndex_settled [OF assms None] None show ?thesis by (simp add: settled_def)
next
  case (Some r)
  with assms show ?thesis by (auto simp: doIndex_def split_def NewIndexResult_def)
qed

text \<open>A backend that returns a repository in the given state, to instantiate claims.\<close>

definition tiny_backend :: "string \<Rightarrow> index_backend" where
  "tiny_backend state = \<lparr>ib_index = (\<lambda>q. (\<lparr>ir_Repo = Some (NewRepo\<lparr>r_Key := iq_Key q, r_State := state\<rparr>),
       ir_Error = None\<rparr>, None)),
     ib_dial = (\<lambda>_. Some (NetError False ''refused'')), ib_call = (\<lambda>_ _. (NewIndexResult, None))\<rparr>"

definition tiny_request :: index_query where
  "tiny_request = (NewIndexQuery ''k'')\<lparr>iq_Root := ''/src'', iq_Files := [''a'']\<rparr>"

definition in_time :: index_choices where
  "in_time = \<lparr>ic_expired = False, ic_timeout = False, ic_parerr = None\<rparr>"

definition no_repos :: "(string, repo) gomap db" where
  "no_repos = newDb (\<lambda>_. None)"

lemma tiny_request_valid: "IndexQuery_Normalize (\<lambda>xs. xs) (tiny_request\<lparr>iq_Recurse := b\<rparr>) = Inr (tiny_request\<lparr>iq_Recurse := b\<rparr>)"
  by (simp add: IndexQuery_Normalize_def tiny_request_def NewIndexQuery_def IsAbs_def HasPrefix_def)

lemma no_repos_Get [simp]: "db_Get no_repos k = None"
  by (simp add: no_repos_def newDb_def db_Get_def db_get_def)

lemma tiny_local: "isLocal hn c (Meta_Host (iq_Meta (tiny_request\<lparr>iq_Recurse := b\<rparr>))) = (True, c)"
  by (simp add: isLocal_def tiny_request_def NewIndexQuery_def Meta_Host_def localHostnames_def)

lemma doIndex_settles_marker_witness:
  "\<exists>resp err d'. doIndex None (\<lambda>xs. xs) zero_config plain_env (tiny_backend st_ERROR) in_time
     (tiny_request\<lparr>iq_Recurse := False\<rparr>) no_repos = Returns (resp, err, d') \<and>
     (\<forall>r. db_Get d' ''k'' = Some r \<longrightarrow> r_State r = st_OK)"
proof -
  let ?run = "doIndex None (\<lambda>xs. xs) zero_config plain_env (tiny_backend st_ERROR) in_time
     (tiny_request\<lparr>iq_Recurse := False\<rparr>) no_repos"
  have "returns ?run"
    by (simp add: doIndex_def tiny_local tiny_request_valid Let_def in_time_def localIndex_def split_def)
  then obtain resp err d' where run: "?run = Returns (resp, err, d')"
    by (cases ?run) auto
  moreover have "iq_Key (tiny_request\<lparr>iq_Recurse := False\<rparr>) = ''k''"
    by (simp add: tiny_request_def NewIndexQuery_def)
  ultimately show ?thesis using doIndex_settles_marker [OF run] by (intro exI conjI) auto
qed

text \<open>A fresh key, indexed locally and in time: the repository replaces the marker.\<close>

lemma doIndex_success:
  assumes "db_Get d (iq_Key q) = None" "IndexQuery_Normalize order q = Inr q'"
    and "fst (isLocal hostname c (Meta_Host (iq_Meta q)))"
    and "ib_index be (q'\<lparr>iq_Recurse := False\<rparr>) = (\<lparr>ir_Repo = Some repo, ir_Error = None\<rparr>, None)"
    and "r_State repo = st_OK" "r_Key repo = iq_Key q" "\<not> ic_expired ch" "\<not> ic_timeout ch"
  shows "doIndex hostname order c env be ch q d
      = Returns (\<lparr>ir_Repo = Some repo, ir_Error = None\<rparr>, NilStructError,
          fst (db_Set env (iq_Key q) (Some repo) (fst (db_Set env (iq_Key q) (Some (marker_repo q')) d))))"
proof -
  obtain c2 where loc: "isLocal hostname c (Meta_Host (iq_Meta q)) = (True, c2)"
    using assms(3) by (cases "isLocal hostname c (Meta_Host (iq_Meta q))") simp
  have key: "iq_Key q' = iq_Key q"
    using assms(2) by (auto simp: IndexQuery_Normalize_def split: if_splits sum.splits)
  let ?d1 = "fst (db_Set env (iq_Key q) (Some (marker_repo q')) d)"
  let ?d2 = "fst (db_Set env (iq_Key q) (Some repo) ?d1)"
  have "clear_marker env (iq_Key q) ?d2 = ?d2"
    using assms(5) by (simp add: clear_marker_def)
  then show ?thesis
    using assms by (simp add: doIndex_def loc key localIndex_def index_received_def Let_def
        IndexResult_SetError_def set_error_def iface_of_struct_def)
qed

text \<open>C35. A fresh repository that is indexed successfully through HTTP is stored, but the handler
  then panics instead of answering: the error it returns holds a nil \<open>*StructError\<close>, which is
  not \<open>nil\<close>, and the handler asks for its message. The same run through RPC replies with the
  repository and no error.\<close>

theorem webIndex_panics_on_success:
  assumes "db_Get d (iq_Key q) = None"
    and "IndexQuery_Normalize order (q\<lparr>iq_Recurse := True\<rparr>) = Inr q'"
    and "fst (isLocal hostname (snd (timeoutIndex q c)) (Meta_Host (iq_Meta q)))"
    and "ib_index be (q'\<lparr>iq_Recurse := False\<rparr>) = (\<lparr>ir_Repo = Some repo, ir_Error = None\<rparr>, None)"
    and "r_State repo = st_OK" "r_Key repo = iq_Key q"
    and "\<not> ic_expired ch" "\<not> ic_timeout ch"
  shows "\<exists>d'. (\<exists>msg. webIndex hostname order c env be ch (Inr q) d = (Panics msg, d')) \<and>
    db_Get d' (iq_Key q) = Some repo \<and>
    rpc_Index (doIndex hostname order (snd (timeoutIndex q c)) env be ch (q\<lparr>iq_Recurse := True\<rparr>) d)
      = Returns (\<lparr>ir_Repo = Some repo, ir_Error = None\<rparr>, d')"
proof -
  obtain t c1 where t: "timeoutIndex q c = (t, c1)" by (cases "timeoutIndex q c")
  obtain c2 where loc: "isLocal hostname c1 (Meta_Host (iq_Meta q)) = (True, c2)"
    using assms(3) t by (cases "isLocal hostname c1 (Meta_Host (iq_Meta q))") simp
  have "timeoutIndex (q\<lparr>iq_Recurse := True\<rparr>) c = timeoutIndex q c"
    by (simp add: timeoutIndex_def)
  with t have t': "timeoutIndex (q\<lparr>iq_Recurse := True\<rparr>) c = (t, c1)" by simp
  have key: "iq_Key q' = iq_Key q"
    using assms(2) by (auto simp: IndexQuery_Normalize_def split: if_splits sum.splits)
  let ?d1 = "fst (db_Set env (iq_Key q) (Some (marker_repo q')) d)"
  let ?d2 = "fst (db_Set env (iq_Key q) (Some repo) ?d1)"
  have run: "doIndex hostname order c1 env be ch (q\<lparr>iq_Recurse := True\<rparr>) d
      = Returns (\<lparr>ir_Repo = Some repo, ir_Error = None\<rparr>, NilStructError, ?d2)"
    using doIndex_success [of d "q\<lparr>iq_Recurse := True\<rparr>" order q' hostname c1 be repo ch env] assms loc by simp
  show ?thesis
    using run by (intro exI [of _ ?d2])
      (simp add: webIndex_def t t' webIndex_reply_def NewStructError_iface_def rpc_Index_def
        SetError_iface_def)
qed

lemma webIndex_panics_on_success_witness:
  "\<exists>msg d'. webIndex None (\<lambda>xs. xs) zero_config plain_env (tiny_backend st_OK) in_time
     (Inr (tiny_request\<lparr>iq_Recurse := False\<rparr>)) no_repos = (Panics msg, d') \<and> db_Get d' ''k'' \<noteq> None"
proof -
  let ?q = "tiny_request\<lparr>iq_Recurse := False\<rparr>" and ?r = "NewRepo\<lparr>r_Key := ''k'', r_State := st_OK\<rparr>"
  have key: "iq_Key ?q = ''k''" by (simp add: tiny_request_def NewIndexQuery_def)
  have norm: "IndexQuery_Normalize (\<lambda>xs. xs) (?q\<lparr>iq_Recurse := True\<rparr>) = Inr (tiny_request\<lparr>iq_Recurse := True\<rparr>)"
    using tiny_request_valid [of True] by simp
  have be: "ib_index (tiny_backend st_OK) (tiny_request\<lparr>iq_Recurse := True\<rparr>\<lparr>iq_Recurse := False\<rparr>)
      = (\<lparr>ir_Repo = Some ?r, ir_Error = None\<rparr>, None)"
    by (simp add: tiny_backend_def tiny_request_def NewIndexQuery_def)
  have loc: "fst (isLocal None (snd (timeoutIndex ?q zero_config)) (Meta_Host (iq_Meta ?q)))"
    using tiny_local [of None _ False] by simp
  show ?thesis
    using webIndex_panics_on_success [OF _ norm loc be, of no_repos in_time plain_env] key
    by (auto simp: in_time_def)
qed

end
