(* ===== verification/Searcher.thy ===== *)
theory Searcher
  imports Search Db
begin

text \<open>
  \<open>searcher.Search\<close> of \<open>afind/search.go\<close>: one goroutine per shard of a repository, and the loop
  that merges what they send. The goroutines, the arrival of results and the expiry of the
  request interleave, so the running search is a step relation.

  All of them share one \<open>*Repo\<close>, the database's own: \<open>ss_repo\<close> is that object, which every entry
  of the response's \<open>Repos\<close> points to.
\<close>

section \<open>Before the shards\<close>

record 'c search_state =
  ss_waiting :: nat
  ss_todo :: "string list"
  ss_chan :: "search_result list"
  ss_resp :: search_result
  ss_repo :: repo
  ss_db :: "'c db"
  ss_expired :: bool
  ss_crashed :: bool

datatype 'c search_start = Done search_result "'c db" | Running "'c search_state"

definition Search_start ::
  "config \<Rightarrow> 'c fs_env \<Rightarrow> search_query \<Rightarrow> 'c db \<Rightarrow> 'c search_start outcome" where
  "Search_start cfg env query repos =
     (let resp = NewSearchResult; repokey = firstKey query
      in if repokey = '''' then
           Returns (Done (resp\<lparr>sr_Error := StructError_Error kRepoKeyEmptyError\<rparr>) repos)
         else (case db_Get repos repokey of
             None \<Rightarrow> Returns (Done
               (resp\<lparr>sr_Errors := gm_put repokey kRepoUnavailableError (sr_Errors resp)\<rparr>) repos)
           | Some repo \<Rightarrow>
               (let resp = resp\<lparr>sr_Repos := gm_put repokey repo (sr_Repos resp)\<rparr>
                in if r_State repo = st_INDEXING then Returns (Done resp repos)
                   else if r_State repo \<noteq> st_OK then
                     Returns (Done
                       (resp\<lparr>sr_Errors := gm_put repokey kRepoUnavailableError (sr_Errors resp)\<rparr>)
                       (if c_DeleteRepoOnError cfg then fst (db_Delete env repokey repos) else repos))
                   else (case Shards repo of
                       Panics msg \<Rightarrow> Panics msg
                     | Returns shards \<Rightarrow>
                         Returns (Running \<lparr>ss_waiting = length shards, ss_todo = shards,
                           ss_chan = [], ss_resp = resp, ss_repo = repo, ss_db = repos,
                           ss_expired = False, ss_crashed = False\<rparr>)))))"

section \<open>The goroutine of a shard\<close>

text \<open>\<open>r.State = ERROR\<close> also changes the database's entry, while the database still holds the object.\<close>

definition poke_error :: "string \<Rightarrow> repo \<Rightarrow> 'c db \<Rightarrow> 'c db" where
  "poke_error repokey r d =
     (case db_Get d repokey of
        None \<Rightarrow> d
      | Some _ \<Rightarrow> d\<lparr>db_R := gm_put repokey (r\<lparr>r_State := st_ERROR\<rparr>) (db_R d)\<rparr>)"

definition search_report ::
  "config \<Rightarrow> 'c fs_env \<Rightarrow> string \<Rightarrow> search_result \<times> go_error option \<Rightarrow> repo \<Rightarrow> 'c db \<Rightarrow>
   search_result \<times> repo \<times> 'c db" where
  "search_report cfg env repokey out r d =
     (let (sr, e) = out; sr = sr\<lparr>sr_Repos := gm_put (r_Key r) r (sr_Repos sr)\<rparr>
      in (case e of
            None \<Rightarrow> (sr, r, d)
          | Some er \<Rightarrow>
              if IsNotExist er \<or> IsPermission er then
                (let r' = r\<lparr>r_State := st_ERROR\<rparr>; d' = poke_error repokey r d
                 in (sr\<lparr>sr_Errors := gm_put (r_Key r)
                        (NewStructError NewRepoUnavailableError) (sr_Errors sr)\<rparr>, r',
                     if c_DeleteRepoOnError cfg then fst (db_Delete env (r_Key r) d')
                     else fst (db_Set env (r_Key r) (Some r') d')))
              else (sr\<lparr>sr_Errors := gm_put (r_Key r) (NewStructError er) (sr_Errors sr)\<rparr>, r, d)))"

text \<open>
  The steps: a goroutine finishes and sends its result (\<open>send\<close>), or finds the request expired,
  notes the timeout in the response and sends nothing (\<open>drop\<close>); it panics; the main loop
  receives a result; the request expires. Selecting the expired context in the main loop only
  leaves the \<open>select\<close>, so it is no step.
\<close>

inductive search_step ::
  "config \<Rightarrow> 'c fs_env \<Rightarrow> ('re, 'ix) grep_env \<Rightarrow> (string \<Rightarrow> duration) \<Rightarrow> search_query \<Rightarrow>
   'c search_state \<Rightarrow> 'c search_state \<Rightarrow> bool"
  for cfg env ge posted query where
  send: "\<lbrakk>\<not> ss_crashed s; fname \<in> set (ss_todo s); \<not> ss_expired s;
     searchLocal ge (\<lambda>_. False) (posted fname) query (ss_repo s) fname = Some (Returns out);
     search_report cfg env (firstKey query) out (ss_repo s) (ss_db s) = (sr, r, d)\<rbrakk> \<Longrightarrow>
   search_step cfg env ge posted query s
     (s\<lparr>ss_todo := remove1 fname (ss_todo s), ss_chan := ss_chan s @ [sr], ss_repo := r, ss_db := d\<rparr>)"
| drop: "\<lbrakk>\<not> ss_crashed s; fname \<in> set (ss_todo s); ss_expired s;
     searchLocal ge polls (posted fname) query (ss_repo s) fname = Some (Returns out);
     search_report cfg env (firstKey query) out (ss_repo s) (ss_db s) = (sr, r, d)\<rbrakk> \<Longrightarrow>
   search_step cfg env ge posted query s
     (s\<lparr>ss_todo := remove1 fname (ss_todo s), ss_repo := r, ss_db := d,
        ss_resp := (ss_resp s)\<lparr>sr_Errors :=
          gm_put (firstKey query) kSearchTimeoutError (sr_Errors (ss_resp s))\<rparr>\<rparr>)"
| crash: "\<lbrakk>\<not> ss_crashed s; fname \<in> set (ss_todo s); ss_expired s \<or> polls = (\<lambda>_. False);
     searchLocal ge polls (posted fname) query (ss_repo s) fname = Some (Panics msg)\<rbrakk> \<Longrightarrow>
   search_step cfg env ge posted query s (s\<lparr>ss_crashed := True\<rparr>)"
| receive: "\<lbrakk>\<not> ss_crashed s; ss_waiting s > 0; ss_chan s = x # xs\<rbrakk> \<Longrightarrow>
   search_step cfg env ge posted query s
     (s\<lparr>ss_waiting := ss_waiting s - 1, ss_chan := xs, ss_resp := SearchResult_Update x (ss_resp s)\<rparr>)"
| expire: "\<lbrakk>\<not> ss_crashed s; \<not> ss_expired s\<rbrakk> \<Longrightarrow>
   search_step cfg env ge posted query s (s\<lparr>ss_expired := True\<rparr>)"

text \<open>The search returns once it waits for nothing; its repositories are the shared object.\<close>

definition search_returned :: "'c search_state \<Rightarrow> bool" where
  "search_returned s \<longleftrightarrow> ss_waiting s = 0 \<and> \<not> ss_crashed s"

definition Search_reply :: "duration \<Rightarrow> 'c search_state \<Rightarrow> search_result" where
  "Search_reply elapsed s = (ss_resp s)\<lparr>
     sr_Repos := map (\<lambda>(k, _). (k, ss_repo s)) (sr_Repos (ss_resp s)),
     sr_Durations := (sr_Durations (ss_resp s))\<lparr>sd_Search := elapsed\<rparr>\<rparr>"

inductive_cases search_step_cases: "search_step cfg env ge posted query s s'"

section \<open>Expiry\<close>

lemma step_expired: "search_step cfg env ge posted query s s' \<Longrightarrow> ss_expired s \<Longrightarrow> ss_expired s'"
  by (erule search_step_cases) auto

lemma length_remove1_in: "x \<in> set xs \<Longrightarrow> length xs = Suc (length (remove1 x xs))"
  by (induction xs) auto

lemma step_balance:
  assumes "search_step cfg env ge posted query s s'"
    and "length (ss_todo s) + length (ss_chan s) \<le> ss_waiting s"
  shows "length (ss_todo s') + length (ss_chan s') \<le> ss_waiting s'"
  using assms by (cases rule: search_step.cases) (auto dest: length_remove1_in)

text \<open>Once expired, the results still to be received never exceed those already in the channel.\<close>

lemma step_short:
  assumes "search_step cfg env ge posted query s s'" "ss_expired s"
    and "length (ss_chan s) < ss_waiting s"
  shows "ss_expired s' \<and> length (ss_chan s') < ss_waiting s'"
  using assms by (cases rule: search_step.cases) auto

lemma run_short:
  assumes "(search_step cfg env ge posted query)\<^sup>*\<^sup>* s s'" "ss_expired s"
    "length (ss_chan s) < ss_waiting s"
  shows "length (ss_chan s') < ss_waiting s'"
proof -
  have "ss_expired s' \<and> length (ss_chan s') < ss_waiting s'"
    using assms by (induction rule: rtranclp_induct) (auto dest: step_short)
  then show ?thesis by blast
qed

lemma run_balance:
  assumes "(search_step cfg env ge posted query)\<^sup>*\<^sup>* s s'"
    "length (ss_todo s) + length (ss_chan s) \<le> ss_waiting s"
  shows "length (ss_todo s') + length (ss_chan s') \<le> ss_waiting s'"
  using assms by (induction rule: rtranclp_induct) (auto dest: step_balance)

lemma start_balance:
  "Search_start cfg env query d = Returns (Running s) \<Longrightarrow>
   ss_waiting s = length (ss_todo s) \<and> ss_chan s = [] \<and> \<not> ss_expired s \<and> \<not> ss_crashed s"
  by (auto simp: Search_start_def Let_def split: if_splits option.splits outcome.splits)

text \<open>C19. A search whose request expires before every shard has sent its result never returns:
  from any state of the run in which the request has expired with a shard still to finish, no
  state is reachable in which the search has returned.\<close>

theorem expired_search_never_returns:
  assumes "Search_start cfg env query d = Returns (Running s0)"
    and "(search_step cfg env ge posted query)\<^sup>*\<^sup>* s0 s" "ss_expired s" "ss_todo s \<noteq> []"
    and "(search_step cfg env ge posted query)\<^sup>*\<^sup>* s s'"
  shows "\<not> search_returned s'"
proof -
  have "length (ss_todo s0) + length (ss_chan s0) \<le> ss_waiting s0"
    using start_balance [OF assms(1)] by simp
  from run_balance [OF assms(2) this] assms(4) have "length (ss_chan s) < ss_waiting s"
    by (cases "ss_todo s") auto
  from run_short [OF assms(5,3) this] show ?thesis by (simp add: search_returned_def)
qed

section \<open>Completion\<close>

text \<open>Every shard of the repository is searched without an error when the request has not expired.\<close>

definition shards_answer ::
  "('re, 'ix) grep_env \<Rightarrow> (string \<Rightarrow> duration) \<Rightarrow> search_query \<Rightarrow> repo \<Rightarrow> string list \<Rightarrow>
   (string \<Rightarrow> search_result) \<Rightarrow> bool" where
  "shards_answer ge posted query r shards out \<longleftrightarrow>
     (\<forall>f \<in> set shards. searchLocal ge (\<lambda>_. False) (posted f) query r f = Some (Returns (out f, None)))"

definition sent :: "repo \<Rightarrow> search_result \<Rightarrow> search_result" where
  "sent r sr = sr\<lparr>sr_Repos := gm_put (r_Key r) r (sr_Repos sr)\<rparr>"

text \<open>
  What has happened so far, in a run that has not expired: the shards \<open>fs\<close> have been received,
  \<open>gs\<close> wait in the channel and the rest is still to finish.
\<close>

definition progress ::
  "string list \<Rightarrow> (string \<Rightarrow> search_result) \<Rightarrow> search_result \<Rightarrow> repo \<Rightarrow> 'c db \<Rightarrow> 'c search_state \<Rightarrow>
   string list \<Rightarrow> string list \<Rightarrow> bool" where
  "progress shards out resp r d s fs gs \<longleftrightarrow>
     mset fs + mset gs + mset (ss_todo s) = mset shards \<and>
     ss_waiting s = length gs + length (ss_todo s) \<and> ss_chan s = map (\<lambda>f. sent r (out f)) gs \<and>
     ss_resp s = fold SearchResult_Update (map (\<lambda>f. sent r (out f)) fs) resp \<and>
     ss_repo s = r \<and> ss_db s = d \<and> \<not> ss_crashed s"

lemma progress_todo: "progress shards out resp r d s fs gs \<Longrightarrow> f \<in> set (ss_todo s) \<Longrightarrow> f \<in> set shards"
  unfolding progress_def by (metis set_mset_mset union_iff)

lemma progress_step:
  assumes "search_step cfg env ge posted query s s'" "\<not> ss_expired s'"
    and "progress shards out resp r d s fs gs" "shards_answer ge posted query r shards out"
  shows "\<exists>fs' gs'. progress shards out resp r d s' fs' gs'"
  using assms(1)
proof (cases rule: search_step.cases)
  case (send fname o' sr r' d')
  have r: "ss_repo s = r" using assms(3) by (simp add: progress_def)
  have shard: "fname \<in> set shards" using progress_todo [OF assms(3)] send by blast
  then have "o' = (out fname, None)"
    using assms(4) send(5) by (simp add: shards_answer_def r)
  with send(6) have "sr = sent r (out fname)" "r' = r" "d' = ss_db s"
    by (auto simp: search_report_def sent_def r)
  moreover have "mset fs + mset (gs @ [fname]) + mset (remove1 fname (ss_todo s))
      = mset fs + mset gs + mset (ss_todo s)"
    using send(3) by simp
  ultimately have "progress shards out resp r d s' fs (gs @ [fname])"
    using assms(3) send(1,3) length_remove1_in [OF send(3)] shard by (simp add: progress_def)
  then show ?thesis by blast
next
  case (drop fname polls o' sr r' d')
  then show ?thesis using assms(2) by simp
next
  case (crash fname polls msg)
  have "fname \<in> set shards" using progress_todo [OF assms(3)] crash by blast
  moreover have "ss_repo s = r" using assms(3) by (simp add: progress_def)
  ultimately show ?thesis using assms(2,4) crash by (auto simp: shards_answer_def)
next
  case (receive x xs)
  then obtain g gs' where "gs = g # gs'" using assms(3) by (cases gs) (auto simp: progress_def)
  with assms(3) receive have "progress shards out resp r d s' (fs @ [g]) gs'"
    by (auto simp: progress_def)
  then show ?thesis by blast
next
  case expire
  then show ?thesis using assms(2) by simp
qed

lemma progress_run:
  assumes "(search_step cfg env ge posted query)\<^sup>*\<^sup>* s s'" "\<not> ss_expired s'"
    and "progress shards out resp r d s fs gs" "shards_answer ge posted query r shards out"
  shows "\<exists>fs' gs'. progress shards out resp r d s' fs' gs'"
  using assms(1,2)
proof (induction rule: rtranclp_induct)
  case base
  then show ?case using assms(3) by blast
next
  case (step s1 s2)
  have "\<not> ss_expired s1" using step.hyps(2) step.prems step_expired by blast
  with step.IH obtain fs' gs' where "progress shards out resp r d s1 fs' gs'" by blast
  from progress_step [OF step.hyps(2) step.prems this assms(4)] show ?case .
qed

lemma progress_finish:
  assumes "progress shards out resp r d s fs gs" "\<not> ss_expired s"
    and "shards_answer ge posted query r shards out"
  shows "\<exists>s'. (search_step cfg env ge posted query)\<^sup>*\<^sup>* s s' \<and> search_returned s' \<and> \<not> ss_expired s'"
  using assms(1,2)
proof (induction "2 * length (ss_todo s) + length gs" arbitrary: s fs gs rule: less_induct)
  case less
  have st: "ss_repo s = r" "ss_db s = d" "\<not> ss_crashed s"
    using less.prems(1) by (simp_all add: progress_def)
  show ?case
  proof (cases gs)
    case (Cons g gs')
    let ?s = "s\<lparr>ss_waiting := ss_waiting s - 1, ss_chan := map (\<lambda>f. sent r (out f)) gs',
      ss_resp := SearchResult_Update (sent r (out g)) (ss_resp s)\<rparr>"
    have step: "search_step cfg env ge posted query s ?s"
      using less.prems(1) Cons st by (intro receive) (auto simp: progress_def)
    have "progress shards out resp r d ?s (fs @ [g]) gs'"
      using less.prems(1) Cons by (auto simp: progress_def)
    with less.hyps [of ?s gs'] less.prems(2) Cons step show ?thesis
      by (auto intro: converse_rtranclp_into_rtranclp)
  next
    case Nil
    show ?thesis
    proof (cases "ss_todo s")
      case (Cons f fs')
      let ?s = "s\<lparr>ss_todo := remove1 f (ss_todo s), ss_chan := ss_chan s @ [sent r (out f)],
        ss_repo := r, ss_db := d\<rparr>"
      have "f \<in> set shards" using progress_todo [OF less.prems(1)] Cons by simp
      with assms(3) have "searchLocal ge (\<lambda>_. False) (posted f) query (ss_repo s) f
          = Some (Returns (out f, None))"
        by (simp add: shards_answer_def st)
      then have step: "search_step cfg env ge posted query s ?s"
        using less.prems(2) Cons st by (intro send) (auto simp: search_report_def sent_def)
      have "progress shards out resp r d ?s fs [f]"
        using less.prems(1) Cons Nil by (auto simp: progress_def)
      with less.hyps [of ?s "[f]"] less.prems(2) Cons Nil step show ?thesis
        by (auto intro: converse_rtranclp_into_rtranclp)
    next
      case Nil
      with \<open>gs = []\<close> less.prems(1) have "search_returned s"
        by (auto simp: progress_def search_returned_def)
      with less.prems(2) show ?thesis by blast
    qed
  qed
qed

lemma search_merged:
  assumes "Search_start cfg env query d = Returns (Running s0)"
    and "shards_answer ge posted query (ss_repo s0) (ss_todo s0) out"
    and "(search_step cfg env ge posted query)\<^sup>*\<^sup>* s0 s" "\<not> ss_expired s"
  shows "(\<exists>s'. (search_step cfg env ge posted query)\<^sup>*\<^sup>* s s' \<and> search_returned s' \<and> \<not> ss_expired s') \<and>
    (search_returned s \<longrightarrow> ss_db s = d \<and>
      (\<exists>fs. mset fs = mset (ss_todo s0) \<and>
        ss_resp s = fold SearchResult_Update (map (\<lambda>f. sent (ss_repo s0) (out f)) fs)
          (NewSearchResult\<lparr>sr_Repos := [(firstKey query, ss_repo s0)]\<rparr>)))"
proof -
  have s0: "ss_db s0 = d" "ss_resp s0 = NewSearchResult\<lparr>sr_Repos := [(firstKey query, ss_repo s0)]\<rparr>"
    using assms(1)
    by (auto simp: Search_start_def Let_def NewSearchResult_def gm_put_def
        split: if_splits option.splits outcome.splits)
  have "progress (ss_todo s0) out (ss_resp s0) (ss_repo s0) d s0 [] []"
    using start_balance [OF assms(1)] s0 by (simp add: progress_def)
  from progress_run [OF assms(3,4) this assms(2)] obtain fs gs where
    p: "progress (ss_todo s0) out (ss_resp s0) (ss_repo s0) d s fs gs" by blast
  have "search_returned s \<Longrightarrow> gs = [] \<and> ss_todo s = []"
    using p by (auto simp: search_returned_def progress_def)
  with p progress_finish [OF p assms(4,2)] show ?thesis
    by (auto simp: progress_def s0 intro!: exI [of _ fs])
qed

text \<open>C6. When the shards of an available repository answer and the request does not expire, the
  search can always run to its return in time, and however the goroutines interleave it returns the
  merge of all the shards' results, each exactly once, in some order, leaving the database as
  it was.\<close>

theorem search_merges_all_shards:
  assumes "Search_start cfg env query d = Returns (Running s0)"
    and "shards_answer ge posted query (ss_repo s0) (ss_todo s0) out"
    and "(search_step cfg env ge posted query)\<^sup>*\<^sup>* s0 s" "\<not> ss_expired s"
  shows "(\<exists>s'. (search_step cfg env ge posted query)\<^sup>*\<^sup>* s s' \<and> search_returned s' \<and> \<not> ss_expired s') \<and>
    (search_returned s \<longrightarrow> ss_db s = d \<and>
      (\<exists>fs. mset fs = mset (ss_todo s0) \<and>
        ss_resp s = fold SearchResult_Update (map (\<lambda>f. sent (ss_repo s0) (out f)) fs)
          (NewSearchResult\<lparr>sr_Repos := [(firstKey query, ss_repo s0)]\<rparr>)))"  using assms by (rule search_merged)

text \<open>A database with one repository of one shard, to instantiate the claims.\<close>

definition one_repo :: repo where
  "one_repo = NewRepo\<lparr>r_Key := ''k'', r_Root := ''/'', r_State := st_OK, r_NumShards := 1\<rparr>"

definition one_db :: "(string, repo) gomap db" where
  "one_db = \<lparr>db_R = [(''k'', one_repo)], db_bfn = '''', db_bs = False, db_files = (\<lambda>_. None)\<rparr>"

definition one_query :: search_query where
  "one_query = NewSearchQuery ''abc'' '''' False [''k'']"

lemma one_start: "\<exists>fname. Search_start zero_config plain_env one_query one_db = Returns (Running
    \<lparr>ss_waiting = 1, ss_todo = [fname], ss_chan = [],
     ss_resp = NewSearchResult\<lparr>sr_Repos := [(''k'', one_repo)]\<rparr>, ss_repo = one_repo,
     ss_db = one_db, ss_expired = False, ss_crashed = False\<rparr>)"
  by (simp add: Search_start_def one_query_def NewSearchQuery_def firstKey_def one_db_def
      db_Get_def db_get_def Shards_def one_repo_def Let_def NewSearchResult_def gm_put_def NewRepo_def)

lemma expired_search_never_returns_witness:
  "\<exists>s0. Search_start zero_config plain_env one_query one_db = Returns (Running s0) \<and>
    \<not> search_returned (s0\<lparr>ss_expired := True\<rparr>)"
proof -
  obtain fname where s0: "Search_start zero_config plain_env one_query one_db = Returns (Running
    \<lparr>ss_waiting = 1, ss_todo = [fname], ss_chan = [],
     ss_resp = NewSearchResult\<lparr>sr_Repos := [(''k'', one_repo)]\<rparr>, ss_repo = one_repo,
     ss_db = one_db, ss_expired = False, ss_crashed = False\<rparr>)" (is "_ = Returns (Running ?s0)")
    using one_start by blast
  have "search_step zero_config plain_env (tiny_env []) (\<lambda>_. 0) one_query ?s0 (?s0\<lparr>ss_expired := True\<rparr>)"
    by (rule expire) simp_all
  then have run: "(search_step zero_config plain_env (tiny_env []) (\<lambda>_. 0) one_query)\<^sup>*\<^sup>*
      ?s0 (?s0\<lparr>ss_expired := True\<rparr>)" by (rule r_into_rtranclp)
  have "\<not> search_returned (?s0\<lparr>ss_expired := True\<rparr>)"
    by (rule expired_search_never_returns [OF s0 run _ _ rtranclp.rtrancl_refl]) simp_all
  then show ?thesis using s0 by (intro exI [of _ ?s0]) simp
qed

lemma search_merges_all_shards_witness:
  "\<exists>s0 s'. Search_start zero_config plain_env one_query one_db = Returns (Running s0) \<and>
    (search_step zero_config plain_env (tiny_env []) (\<lambda>_. 0) one_query)\<^sup>*\<^sup>* s0 s' \<and> search_returned s'"
proof -
  obtain fname where s0: "Search_start zero_config plain_env one_query one_db = Returns (Running
    \<lparr>ss_waiting = 1, ss_todo = [fname], ss_chan = [],
     ss_resp = NewSearchResult\<lparr>sr_Repos := [(''k'', one_repo)]\<rparr>, ss_repo = one_repo,
     ss_db = one_db, ss_expired = False, ss_crashed = False\<rparr>)" (is "_ = Returns (Running ?s0)")
    using one_start by blast
  let ?sr = "NewSearchResult\<lparr>sr_Repos := [(''k'', one_repo)]\<rparr>"
  have "searchLocal (tiny_env []) (\<lambda>_. False) 0 one_query one_repo fname = Some (Returns (?sr, None))"
    by (simp add: searchLocal_def grep_search_def buildRegexps_def tiny_env_def one_query_def
        NewSearchQuery_def one_repo_def NewRepo_def Let_def NewSearchResult_def gm_put_def)
  then have "shards_answer (tiny_env []) (\<lambda>_. 0) one_query (ss_repo ?s0) (ss_todo ?s0) (\<lambda>_. ?sr)"
    by (simp add: shards_answer_def)
  from search_merges_all_shards [OF s0 this rtranclp.rtrancl_refl] s0 show ?thesis by auto
qed

end
