(* ===== verification/Api_Search.thy ===== *)
theory Api_Search
  imports Dispatch Api_Index Searcher
begin

text \<open>
  \<open>afind/api/search.go\<close>: the search service. A search is turned into one request per local
  repository and one per other host; the results are merged as they arrive until there are
  enough, and what they say of the repositories is written back to the database.

  \<open>arrive\<close> gives the results that the requests send, in the order of their arrival
  (\<open>par.Requests\<close> and the network are outside the program).
\<close>

section \<open>Requests\<close>

definition search_mk_local :: "search_query \<Rightarrow> meta \<Rightarrow> string list \<Rightarrow> search_query list" where
  "search_mk_local q meta keys = map (\<lambda>key. q\<lparr>sq_Meta := meta, sq_RepoKeys := [key]\<rparr>) keys"

definition search_mk_remote :: "search_query \<Rightarrow> meta \<Rightarrow> string list \<Rightarrow> search_query" where
  "search_mk_remote q meta keys = q\<lparr>sq_Meta := meta, sq_RepoKeys := keys\<rparr>"

definition getSearchQueries ::
  "string option \<Rightarrow> regexp_compile \<Rightarrow> ((string \<times> string list) list \<Rightarrow> (string \<times> string list) list) \<Rightarrow>
   config \<Rightarrow> 'c db \<Rightarrow> search_query \<Rightarrow> search_query request list outcome" where
  "getSearchQueries hostname compile visit c d q =
     (let repos = genGetReqpos compile d (sq_RepoKeys q) (sq_Meta q) (sq_MetaRegexpMatch q);
          maxBe = c_MaxSearchReqBe c
      in if length repos < 1 then Returns []
         else dispatch hostname (\<lambda>countBe. maxBe > 0 \<and> int countBe \<ge> maxBe) (search_mk_local q)
           (search_mk_remote q) c (sq_Meta q) 0 (visit (group_hosts repos)))"

text \<open>
  What a request sends once run. \<open>meta\<close> is the shared metadata map at the time it runs. The
  searcher of this daemon never returns an error.
\<close>

record search_backend =
  sb_search :: "search_query \<Rightarrow> search_result \<times> go_error option"
  sb_dial :: "string \<Rightarrow> go_error option"
  sb_call :: "string \<Rightarrow> search_query \<Rightarrow> search_result \<times> go_error option"

definition localSearch :: "search_backend \<Rightarrow> search_query \<Rightarrow> bool \<Rightarrow> search_result option" where
  "localSearch be req expired =
     (let (sr, err) = sb_search be req;
          sr = (case err of
             None \<Rightarrow> sr
           | Some e \<Rightarrow>
               if length (sq_RepoKeys req) > 0
               then sr\<lparr>sr_Errors := gm_put (sq_RepoKeys req ! 0) (NewStructError e) (sr_Errors sr)\<rparr>
               else sr\<lparr>sr_Error := Error e\<rparr>)
      in if expired then None else Some sr)"

definition remoteSearch ::
  "search_backend \<Rightarrow> string \<Rightarrow> search_query \<Rightarrow> meta \<Rightarrow> bool \<Rightarrow> search_result option" where
  "remoteSearch be addr req meta expired =
     (let req = req\<lparr>sq_Meta := meta\<rparr>;
          (sr, err) = (case sb_dial be addr of
             None \<Rightarrow> sb_call be addr req
           | Some e \<Rightarrow> (NewSearchResult, Some e));
          sr = (case err of
             None \<Rightarrow> sr
           | Some e \<Rightarrow> sr\<lparr>sr_Errors :=
               gm_put (Meta_Host (sq_Meta req)) (NewStructError e) (sr_Errors sr)\<rparr>)
      in if expired then None else Some sr)"

definition timeoutSearch :: "search_query \<Rightarrow> config \<Rightarrow> duration \<times> config" where
  "timeoutSearch req cfg = (if sq_Timeout req = 0 then GetTimeoutSearch cfg else (sq_Timeout req, cfg))"

definition logmsgSearch :: "search_query \<Rightarrow> string" where
  "logmsgSearch req =
     (let msg = ''search ['' @ sq_Re req @ '']'';
          msg = (if sq_IgnoreCase req then msg @ '' ignore-case'' else msg)
      in if sq_PathRe req \<noteq> '''' then msg @ '' path-re ['' @ sq_PathRe req @ '']'' else msg)"

section \<open>Merging what arrives\<close>

text \<open>A repository once reported in error stays so.\<close>

definition note_repo :: "string \<times> repo \<Rightarrow> (string, repo) gomap \<Rightarrow> (string, repo) gomap" where
  "note_repo = (\<lambda>(key, repo) updateRepos.
     (case map_of updateRepos key of
        Some r \<Rightarrow> if r_State r = st_ERROR then updateRepos else gm_put key repo updateRepos
      | None \<Rightarrow> gm_put key repo updateRepos))"

fun search_merge ::
  "search_result list \<Rightarrow> search_result \<Rightarrow> (string, repo) gomap \<Rightarrow>
   search_result \<times> (string, repo) gomap" where
  "search_merge [] resp updateRepos = (resp, updateRepos)"
| "search_merge (x # xs) resp updateRepos =
     (let updateRepos = fold note_repo (sr_Repos x) updateRepos;
          resp = SearchResult_Update x resp
      in if EnoughResults resp then (resp, updateRepos) else search_merge xs resp updateRepos)"

definition update_repo :: "config \<Rightarrow> 'c fs_env \<Rightarrow> string \<times> repo \<Rightarrow> 'c db \<Rightarrow> 'c db" where
  "update_repo c env = (\<lambda>(key, repo) d.
     if r_State repo = st_OK then fst (db_Set env key (Some repo) d)
     else if c_DeleteRepoOnError c then fst (db_Delete env key d) else d)"

definition doSearch ::
  "string option \<Rightarrow> regexp_compile \<Rightarrow> ((string \<times> string list) list \<Rightarrow> (string \<times> string list) list) \<Rightarrow>
   config \<Rightarrow> 'c fs_env \<Rightarrow> (search_query request list \<Rightarrow> search_result list) \<Rightarrow> duration \<Rightarrow>
   search_query \<Rightarrow> 'c db \<Rightarrow> (search_result \<times> go_error option \<times> 'c db) outcome" where
  "doSearch hostname compile visit c env arrive elapsed req d =
     (let resp = NewSearchResult\<lparr>sr_MaxMatches := sq_MaxMatches req\<rparr>;
          finish = (\<lambda>resp. resp\<lparr>sr_Durations := (sr_Durations resp)\<lparr>sd_Search := elapsed\<rparr>\<rparr>)
      in case SearchQuery_Normalize req of
           Some e \<Rightarrow> Returns (finish (SearchResult_SetError (Some e) resp), Some e, d)
         | None \<Rightarrow>
             (case getSearchQueries hostname compile visit c d req of
                Panics msg \<Rightarrow> Panics msg
              | Returns reqs \<Rightarrow>
                  (let (resp, updateRepos) = search_merge (arrive reqs) resp []
                   in Returns (finish resp, None, fold (update_repo c env) updateRepos d))))"

section \<open>Entry points\<close>

definition rpc_Search ::
  "search_result \<times> go_error option \<Rightarrow> search_result" where
  "rpc_Search res = (case res of (sr, None) \<Rightarrow> sr | (sr, Some e) \<Rightarrow> sr\<lparr>sr_Error := Error e\<rparr>)"

definition webSearch_reply ::
  "search_result \<times> go_error option \<Rightarrow> int \<times> search_result http_body" where
  "webSearch_reply res =
     (case res of
        (resp, None) \<Rightarrow> (200, Body resp)
      | (resp, Some e) \<Rightarrow> (500, ErrorBody \<lparr>se_T = ''search'', se_M = Error e\<rparr>))"

definition webSearch ::
  "string option \<Rightarrow> regexp_compile \<Rightarrow> ((string \<times> string list) list \<Rightarrow> (string \<times> string list) list) \<Rightarrow>
   config \<Rightarrow> 'c fs_env \<Rightarrow> (search_query request list \<Rightarrow> search_result list) \<Rightarrow> duration \<Rightarrow>
   go_error + search_query \<Rightarrow> 'c db \<Rightarrow> ((int \<times> search_result http_body) \<times> 'c db) outcome" where
  "webSearch hostname compile visit c env arrive elapsed body d =
     (case body of
        Inl e \<Rightarrow> Returns (bad_request 403 (Error e), d)
      | Inr sr \<Rightarrow>
          (let sr = sr\<lparr>sq_Recurse := True\<rparr>; (timeout, c) = timeoutSearch sr c
           in case doSearch hostname compile visit c env arrive elapsed sr d of
                Panics msg \<Rightarrow> Panics msg
              | Returns (resp, err, d') \<Rightarrow> Returns (webSearch_reply (resp, err), d')))"

section \<open>Every selected repository is asked once\<close>

lemma mset_concat_map: "mset xs = mset ys \<Longrightarrow> mset (concat (map f xs)) = mset (concat (map f ys))"
  by (simp add: mset_concat) (metis image_mset.compositionality mset_map sum_mset_sum_list)

lemma getSearchQueries_reqs:
  assumes "\<forall>m. mset (visit m) = mset m"
    and "repos = genGetReqpos compile d (sq_RepoKeys q) (sq_Meta q) (sq_MetaRegexpMatch q)"
    and "c_MaxSearchReqBe c \<le> 0"
  shows "\<exists>reqs. getSearchQueries hostname compile visit c d q = Returns reqs \<and>
    mset (concat (map (sq_RepoKeys \<circ> request_query) reqs)) = mset (map r_Key repos)"
proof (cases "repos = []")
  case True
  then show ?thesis using assms(2) by (simp add: getSearchQueries_def)
next
  case False
  let ?hosts = "visit (group_hosts repos)"
  have full: "\<forall>n < 0 + length ?hosts. \<not> (c_MaxSearchReqBe c > 0 \<and> int n \<ge> c_MaxSearchReqBe c)"
    using assms(3) by simp
  have loc: "\<forall>meta keys. concat (map sq_RepoKeys (search_mk_local q meta keys)) = keys"
    by (simp add: search_mk_local_def o_def)
  have rem: "\<forall>meta keys. sq_RepoKeys (search_mk_remote q meta keys) = keys"
    by (simp add: search_mk_remote_def)
  obtain reqs where reqs: "dispatch hostname (\<lambda>n. c_MaxSearchReqBe c > 0 \<and> int n \<ge> c_MaxSearchReqBe c)
      (search_mk_local q) (search_mk_remote q) c (sq_Meta q) 0 ?hosts = Returns reqs"
    "concat (map (sq_RepoKeys \<circ> request_query) reqs) = concat (map snd ?hosts)"
    using dispatch_keys [OF full loc rem, of hostname c "sq_Meta q"] by (elim exE conjE)
  have "mset (concat (map snd ?hosts)) = mset (concat (map snd (group_hosts repos)))"
    using assms(1) mset_concat_map by blast
  with reqs False show ?thesis
    using assms(2) by (auto simp: getSearchQueries_def Let_def group_hosts_keys)
qed

text \<open>C17. Without a limit on backend requests, the requests a search is split into ask for every
  selected repository exactly once, whatever the order in which the hosts are visited: the
  selected ones are those of the query's keys, or those matching its metadata, that are
  available.\<close>

theorem search_asks_every_repo_once:
  assumes "\<forall>m. mset (visit m) = mset m" "c_MaxSearchReqBe c \<le> 0" "db_ok d"
  shows "\<exists>reqs. getSearchQueries hostname compile visit c d q = Returns reqs \<and>
    mset (concat (map (sq_RepoKeys \<circ> request_query) reqs)) = mset (map r_Key
      (if sq_RepoKeys q \<noteq> []
       then filter (\<lambda>r. r_State r = st_OK) (List.map_filter (db_Get d) (sq_RepoKeys q))
       else filter (selects compile (sq_Meta q) (sq_MetaRegexpMatch q)) (map snd (db_R d))))"
proof -
  have "ReposMatchingMeta compile d (sq_Meta q) (sq_MetaRegexpMatch q) 0
      = filter (selects compile (sq_Meta q) (sq_MetaRegexpMatch q)) (map snd (db_R d))"
    by (rule ReposMatchingMeta_all [OF assms(3)])
  then show ?thesis
    using getSearchQueries_reqs [OF assms(1) refl assms(2), of hostname compile d q]
    unfolding genGetReqpos_def getReposForKeys_eq by (simp only: length_greater_0_conv)
qed

text \<open>With a positive limit on backend requests, at most that many requests go to other hosts.\<close>

theorem search_limits_backends:
  assumes "0 < c_MaxSearchReqBe c"
  shows "\<exists>reqs. getSearchQueries hostname compile visit c d q = Returns reqs \<and>
    int (length (filter is_remote reqs)) \<le> c_MaxSearchReqBe c"
proof -
  let ?m = "nat (c_MaxSearchReqBe c)"
  have full: "\<forall>n. (c_MaxSearchReqBe c > 0 \<and> int n \<ge> c_MaxSearchReqBe c) \<longleftrightarrow> ?m \<le> n"
    using assms by auto
  from dispatch_limit [OF full, of 0] assms show ?thesis
    by (fastforce simp: getSearchQueries_def Let_def)
qed

section \<open>Merging stops once there is enough\<close>

lemma search_merge_prefix:
  "\<exists>n \<le> length ins. search_merge ins resp upd =
      (fold SearchResult_Update (take n ins) resp, fold (\<lambda>x. fold note_repo (sr_Repos x)) (take n ins) upd) \<and>
    (n = length ins \<or> EnoughResults (fold SearchResult_Update (take n ins) resp)) \<and>
    (\<forall>m. 0 < m \<and> m < n \<longrightarrow> \<not> EnoughResults (fold SearchResult_Update (take m ins) resp))"
proof (induction ins arbitrary: resp upd)
  case (Cons x ins)
  let ?resp = "SearchResult_Update x resp" and ?upd = "fold note_repo (sr_Repos x) upd"
  show ?case
  proof (cases "EnoughResults ?resp")
    case True
    then show ?thesis by (intro exI [of _ 1]) (simp add: Let_def)
  next
    case False
    obtain n where n: "n \<le> length ins" "search_merge ins ?resp ?upd =
        (fold SearchResult_Update (take n ins) ?resp, fold (\<lambda>x. fold note_repo (sr_Repos x)) (take n ins) ?upd)"
      "n = length ins \<or> EnoughResults (fold SearchResult_Update (take n ins) ?resp)"
      "\<forall>m. 0 < m \<and> m < n \<longrightarrow> \<not> EnoughResults (fold SearchResult_Update (take m ins) ?resp)"
      using Cons.IH by metis
    have "\<not> EnoughResults (fold SearchResult_Update (take m (x # ins)) resp)" if "0 < m" "m < Suc n" for m
      using that n(4) False by (cases m; cases "m - 1 = 0") auto
    with n(1-3) False show ?thesis by (intro exI [of _ "Suc n"]) (auto simp: Let_def)
  qed
qed simp

lemma note_repo_at:
  "map_of (note_repo (key, repo) upd) k =
     (if k = key \<and> \<not> (\<exists>r. map_of upd key = Some r \<and> r_State r = st_ERROR) then Some repo else map_of upd k)"
  by (auto simp: note_repo_def split: option.splits)

text \<open>A reported error is kept, whatever else is reported of the repository.\<close>

lemma note_repo_error:
  "map_of upd k = Some r \<Longrightarrow> r_State r = st_ERROR \<Longrightarrow> map_of (fold note_repo rs upd) k = Some r"
proof (induction rs arbitrary: upd)
  case (Cons p rs)
  then have "map_of (note_repo p upd) k = Some r"
    by (cases p) (auto simp: note_repo_at)
  with Cons.IH Cons.prems(2) show ?case by simp
qed simp

lemma note_repo_seen:
  assumes "(k, r) \<in> set rs" "r_State r = st_ERROR"
  shows "\<exists>r'. map_of (fold note_repo rs upd) k = Some r' \<and> r_State r' = st_ERROR"
proof -
  obtain as bs where rs: "rs = as @ (k, r) # bs" using assms(1) by (metis split_list)
  let ?upd = "note_repo (k, r) (fold note_repo as upd)"
  have "\<exists>r'. map_of ?upd k = Some r' \<and> r_State r' = st_ERROR"
    using assms(2) by (auto simp: note_repo_at)
  then show ?thesis using note_repo_error [of ?upd k _ bs] by (auto simp: rs)
qed

lemma note_repo_source:
  "map_of (fold note_repo rs upd) k = Some r \<Longrightarrow> (k, r) \<in> set rs \<or> map_of upd k = Some r"
proof (induction rs arbitrary: upd)
  case (Cons p rs)
  then show ?case by (cases p) (fastforce simp: note_repo_at split: if_splits)
qed simp

lemma note_repo_dom: "map_of (fold note_repo rs upd) k = None \<longleftrightarrow> k \<notin> fst ` set rs \<and> map_of upd k = None"
proof (induction rs arbitrary: upd)
  case (Cons p rs)
  obtain key r where p: "p = (key, r)" by (cases p)
  have "map_of (note_repo (key, r) upd) k = None \<longleftrightarrow> k \<noteq> key \<and> map_of upd k = None"
    by (auto simp: note_repo_at)
  with Cons show ?case by (auto simp: p)
qed simp

lemma search_merge_all:
  "sr_MaxMatches resp = 0 \<Longrightarrow> search_merge ins resp upd =
     (fold SearchResult_Update ins resp, fold (\<lambda>x. fold note_repo (sr_Repos x)) ins upd)"
  by (induction ins arbitrary: resp upd) (simp_all add: Let_def EnoughResults_def Update_fields)

lemma gm_ok_note: "gm_ok upd \<Longrightarrow> gm_ok (fold note_repo rs upd)"
  by (induction rs arbitrary: upd) (auto simp: note_repo_def split: option.splits prod.splits)

definition reported :: "search_result list \<Rightarrow> (string \<times> repo) list" where
  "reported ins = concat (map sr_Repos ins)"

lemma notes_reported: "fold (\<lambda>x. fold note_repo (sr_Repos x)) ins upd = fold note_repo (reported ins) upd"
  by (induction ins arbitrary: upd) (simp_all add: reported_def)

lemma update_repos_at:
  assumes "gm_ok upd"
  shows "db_Get (fold (update_repo c env) upd d) k = (case map_of upd k of
      None \<Rightarrow> db_Get d k
    | Some r \<Rightarrow> if r_State r = st_OK then Some r
        else if c_DeleteRepoOnError c then None else db_Get d k)"
  using db.fold_act [OF assms, where f = "update_repo c env" and env = env and s = d and k = k and
      act = "\<lambda>k r. if r_State r = st_OK then Some (Some r)
        else if c_DeleteRepoOnError c then Some None else None"]
  by (simp add: update_repo_def split: option.splits if_splits)

text \<open>C24. A search merges the results in the order of their arrival and stops as soon as there are
  as many matches as were asked for: the response is the merge of the shortest non-empty prefix of
  the results that is enough, or of all of them when none is.\<close>

theorem doSearch_merges_prefix:
  assumes "SearchQuery_Normalize req = None"
    and "getSearchQueries hostname compile visit c d req = Returns reqs"
  shows "\<exists>resp d' n. doSearch hostname compile visit c env arrive elapsed req d = Returns (resp, None, d') \<and>
    (let merged = (\<lambda>m. fold SearchResult_Update (take m (arrive reqs))
           (NewSearchResult\<lparr>sr_MaxMatches := sq_MaxMatches req\<rparr>))
     in n \<le> length (arrive reqs) \<and>
       resp = (merged n)\<lparr>sr_Durations := (sr_Durations (merged n))\<lparr>sd_Search := elapsed\<rparr>\<rparr> \<and>
       (n = length (arrive reqs) \<or> EnoughResults (merged n)) \<and>
       (\<forall>m. 0 < m \<and> m < n \<longrightarrow> \<not> EnoughResults (merged m)))"
proof -
  let ?r = "NewSearchResult\<lparr>sr_MaxMatches := sq_MaxMatches req\<rparr>"
  obtain n where "n \<le> length (arrive reqs)" "fst (search_merge (arrive reqs) ?r []) =
      fold SearchResult_Update (take n (arrive reqs)) ?r"
    "n = length (arrive reqs) \<or> EnoughResults (fold SearchResult_Update (take n (arrive reqs)) ?r)"
    "\<forall>m. 0 < m \<and> m < n \<longrightarrow> \<not> EnoughResults (fold SearchResult_Update (take m (arrive reqs)) ?r)"
    using search_merge_prefix [of "arrive reqs" ?r "[]"] by (metis fst_conv)
  then show ?thesis
    using assms by (simp add: doSearch_def Let_def split_def) blast
qed

text \<open>C16. What a search leaves in the database, for a query without a limit on matches: a repository
  that any result reports in error is never stored as available, and is removed when
  configured so; one reported only as available is stored; one not reported at all is not
  touched; and repositories stay under their own keys.\<close>

theorem doSearch_updates_repos:
  assumes "doSearch hostname compile visit c env arrive elapsed req d = Returns (resp, None, d')"
    and "getSearchQueries hostname compile visit c d req = Returns reqs" "sq_MaxMatches req = 0"
  shows "(\<forall>k r. (k, r) \<in> set (reported (arrive reqs)) \<and> r_State r = st_ERROR \<longrightarrow>
        db_Get d' k = (if c_DeleteRepoOnError c then None else db_Get d k)) \<and>
    (\<forall>k. k \<in> fst ` set (reported (arrive reqs)) \<and>
        (\<forall>r. (k, r) \<in> set (reported (arrive reqs)) \<longrightarrow> r_State r = st_OK) \<longrightarrow>
        (\<exists>r. (k, r) \<in> set (reported (arrive reqs)) \<and> db_Get d' k = Some r)) \<and>
    (\<forall>k. k \<notin> fst ` set (reported (arrive reqs)) \<longrightarrow> db_Get d' k = db_Get d k) \<and>
    (db_keyed d \<and> (\<forall>(k, r) \<in> set (reported (arrive reqs)). r_Key r = k) \<longrightarrow> db_keyed d')"
proof -
  let ?rs = "reported (arrive reqs)"
  let ?upd = "fold note_repo ?rs []"
  have "SearchQuery_Normalize req = None"
    using assms(1) by (auto simp: doSearch_def Let_def split: option.splits)
  then have "d' = fold (update_repo c env) ?upd d"
    using assms search_merge_all [of "NewSearchResult\<lparr>sr_MaxMatches := sq_MaxMatches req\<rparr>" "arrive reqs" "[]"]
    by (simp add: doSearch_def Let_def notes_reported)
  moreover have "gm_ok ?upd" by (simp add: gm_ok_note)
  ultimately have at: "db_Get d' k = (case map_of ?upd k of None \<Rightarrow> db_Get d k
      | Some r \<Rightarrow> if r_State r = st_OK then Some r
          else if c_DeleteRepoOnError c then None else db_Get d k)" for k
    by (simp add: update_repos_at)
  have src: "map_of ?upd k = Some r \<Longrightarrow> (k, r) \<in> set ?rs" for k r
    using note_repo_source [of ?rs "[]" k r] by simp
  have seen: "k \<in> fst ` set ?rs \<Longrightarrow> map_of ?upd k \<noteq> None" for k
    using note_repo_dom [of ?rs "[]" k] by simp
  have "db_Get d' k = (if c_DeleteRepoOnError c then None else db_Get d k)"
    if "(k, r) \<in> set ?rs" "r_State r = st_ERROR" for k r
    using note_repo_seen [OF that, of "[]"] by (auto simp: at)
  moreover have "\<exists>r. (k, r) \<in> set ?rs \<and> db_Get d' k = Some r"
    if "k \<in> fst ` set ?rs" "\<forall>r. (k, r) \<in> set ?rs \<longrightarrow> r_State r = st_OK" for k
    using seen [OF that(1)] src that(2) by (fastforce simp: at)
  moreover have "db_Get d' k = db_Get d k" if "k \<notin> fst ` set ?rs" for k
    using src [of k] that by (cases "map_of ?upd k") (force simp: at)+
  moreover have "db_keyed d'" if "db_keyed d" "\<forall>(k, r) \<in> set ?rs. r_Key r = k"
    using that src by (fastforce simp: db_keyed_def at split: option.splits if_splits)
  ultimately show ?thesis by blast
qed

section \<open>Instances\<close>

lemma search_asks_every_repo_once_witness:
  "\<exists>reqs. getSearchQueries None (\<lambda>_. None) rev zero_config one_db one_query = Returns reqs \<and>
    mset (concat (map (sq_RepoKeys \<circ> request_query) reqs)) = {#''k''#}"
proof -
  have "db_ok one_db" by (simp add: db_ok_def one_db_def gm_ok_def)
  moreover have "List.map_filter (db_Get one_db) [''k''] = [one_repo]"
    by (simp add: List.map_filter_simps one_db_def db_Get_def db_get_def)
  moreover have "sq_RepoKeys one_query = [''k'']" "r_State one_repo = st_OK" "r_Key one_repo = ''k''"
    by (simp_all add: one_query_def NewSearchQuery_def one_repo_def)
  ultimately show ?thesis
    using search_asks_every_repo_once [of rev zero_config one_db None "\<lambda>_. None" one_query]
    by (simp add: zero_config_def)
qed

lemma search_limits_backends_witness:
  "\<exists>reqs. getSearchQueries None (\<lambda>_. None) rev (zero_config\<lparr>c_MaxSearchReqBe := 1\<rparr>) one_db one_query
      = Returns reqs \<and> int (length (filter is_remote reqs)) \<le> 1"
  using search_limits_backends [of "zero_config\<lparr>c_MaxSearchReqBe := 1\<rparr>" None "\<lambda>_. None" rev one_db one_query]
  by (simp add: zero_config_def)

lemma one_requests:
  "\<exists>reqs. getSearchQueries None (\<lambda>_. None) rev zero_config one_db one_query = Returns reqs"
  using getSearchQueries_reqs [of rev _ "\<lambda>_. None" one_db one_query zero_config None]
  by (auto simp: zero_config_def)

lemma one_query_valid: "SearchQuery_Normalize one_query = None" "sq_MaxMatches one_query = 0"
  by (simp_all add: one_query_def NewSearchQuery_def SearchQuery_Normalize_def)

lemma doSearch_merges_prefix_witness:
  "\<exists>resp d'. doSearch None (\<lambda>_. None) rev zero_config plain_env (\<lambda>_. []) 5 one_query one_db
     = Returns (resp, None, d') \<and> sr_Durations resp = (sr_Durations NewSearchResult)\<lparr>sd_Search := 5\<rparr>"
proof -
  obtain reqs where reqs: "getSearchQueries None (\<lambda>_. None) rev zero_config one_db one_query = Returns reqs"
    using one_requests by blast
  from doSearch_merges_prefix [OF one_query_valid(1) reqs, of plain_env "\<lambda>_. []" 5]
  show ?thesis by (auto simp: Let_def)
qed

lemma doSearch_updates_repos_witness:
  "\<exists>resp d'. doSearch None (\<lambda>_. None) rev (zero_config\<lparr>c_DeleteRepoOnError := True\<rparr>) plain_env
      (\<lambda>_. [NewSearchResult\<lparr>sr_Repos := [(''k'', one_repo\<lparr>r_State := st_ERROR\<rparr>)]\<rparr>,
            NewSearchResult\<lparr>sr_Repos := [(''k'', one_repo)]\<rparr>]) 5 one_query one_db
     = Returns (resp, None, d') \<and> db_Get d' ''k'' = None"
proof -
  let ?c = "zero_config\<lparr>c_DeleteRepoOnError := True\<rparr>"
  let ?ins = "[NewSearchResult\<lparr>sr_Repos := [(''k'', one_repo\<lparr>r_State := st_ERROR\<rparr>)]\<rparr>,
            NewSearchResult\<lparr>sr_Repos := [(''k'', one_repo)]\<rparr>]"
  obtain reqs where reqs: "getSearchQueries None (\<lambda>_. None) rev ?c one_db one_query = Returns reqs"
    using getSearchQueries_reqs [of rev _ "\<lambda>_. None" one_db one_query ?c None] by (auto simp: zero_config_def)
  obtain resp d' where run: "doSearch None (\<lambda>_. None) rev ?c plain_env (\<lambda>_. ?ins) 5 one_query one_db
      = Returns (resp, None, d')"
    using reqs one_query_valid(1) by (simp add: doSearch_def Let_def split_def)
  note updates = doSearch_updates_repos [OF run reqs one_query_valid(2), THEN conjunct1, rule_format]
  have "db_Get d' ''k'' = (if c_DeleteRepoOnError ?c then None else db_Get one_db ''k'')"
    by (rule updates [of "''k''" "one_repo\<lparr>r_State := st_ERROR\<rparr>"]) (simp add: reported_def)
  with run show ?thesis by simp
qed

text \<open>The older selection of repositories by key overshoots its limit: it can return one more
  repository than the limit, and never more than that.\<close>

lemma getRepos_overshoots_by_one:
  assumes "0 < n" "sq_RepoKeys q \<noteq> []"
  shows "int (length (getRepos compile d q n)) \<le> n + 1 \<and>
    ((\<forall>key \<in> set (sq_RepoKeys q). \<exists>r. db_Get d key = Some r \<and> r_State r = st_OK) \<longrightarrow>
      int (length (getRepos compile d q n)) = min (int (length (sq_RepoKeys q))) (n + 1))"
proof -
  have "int (length (getRepos_keys d keys n repos)) = min (int (length repos) + int (length keys)) (n + 1)"
    if "\<forall>key \<in> set keys. \<exists>r. db_Get d key = Some r \<and> r_State r = st_OK" "int (length repos) \<le> n + 1"
    for keys repos
    using that assms(1)
    by (induction d keys n repos rule: getRepos_keys.induct) (auto simp: min_def)
  then show ?thesis
    using getRepos_keys_length [of "[]" n d "sq_RepoKeys q"] assms by (simp add: getRepos_def)
qed

text \<open>A request body that does not decode is answered as an unknown error, not as an invalid
  request: the handlers pass the error by value, and only pointers are recognised.\<close>

theorem bad_request_is_unknown_error:
  "webSearch hostname compile visit c env arrive elapsed (Inl e) d =
     Returns ((403, ErrorBody \<lparr>se_T = ''unknown_error'', se_M = Error e\<rparr>), d) \<and>
   webIndex hostname order c env be ch (Inl e) d =
     (Returns (400, ErrorBody \<lparr>se_T = ''unknown_error'', se_M = Error e\<rparr>), d) \<and>
   se_T (NewStructError (NewInvalidRequestError (Error e))) = ''invalid_request''"
  by (simp add: webSearch_def webIndex_def bad_request_def NewInvalidRequestError_def)

end
