(* ===== verification/Find.thy ===== *)
theory Find
  imports Searcher
begin

text \<open>
  \<open>afind/find.go\<close>: finding files by name in the indices of several repositories. \<open>Find\<close> queues
  one request per shard, runs them concurrently and counts the names they send.

  Expressions and indices are those of \<open>grep_env\<close>. \<open>par.Requests\<close> is a third-party package: the
  parameter \<open>arrive\<close> gives, for the names each request sends, the order in which all of them
  arrive. A send to a full channel that nobody reads yet blocks for ever: the result is \<open>None\<close>.
\<close>

section \<open>Queries and results\<close>

record find_query =
  fq_PathRe :: string
  fq_IgnoreCase :: bool
  fq_RepoKeys :: "string list"
  fq_Meta :: meta
  fq_MetaRegexpMatch :: bool
  fq_MaxMatches :: uint64
  fq_Recurse :: bool
  fq_Timeout :: duration

definition NewFindQuery :: find_query where
  "NewFindQuery = \<lparr>fq_PathRe = '''', fq_IgnoreCase = False, fq_RepoKeys = [], fq_Meta = [],
     fq_MetaRegexpMatch = False, fq_MaxMatches = 0, fq_Recurse = False, fq_Timeout = 0\<rparr>"

definition find_firstKey :: "find_query \<Rightarrow> string" where
  "find_firstKey q = (if length (fq_RepoKeys q) > 0 then fq_RepoKeys q ! 0 else '''')"

definition FindQuery_Normalize :: "find_query \<Rightarrow> go_error option" where
  "FindQuery_Normalize q =
     (if length (fq_PathRe q) < 3
      then Some (NewValueError ''path_re'' ''must be at least 3 characters'') else None)"

record find_result =
  fr_Matches :: "(string, (string, int) gomap) gomap"
  fr_Errors :: "(string, struct_error) gomap"
  fr_Error :: "struct_error option"
  fr_NumMatches :: uint64
  fr_MaxMatches :: uint64

definition NewFindResult :: find_result where
  "NewFindResult = \<lparr>fr_Matches = [], fr_Errors = [], fr_Error = None, fr_NumMatches = 0,
     fr_MaxMatches = 0\<rparr>"

definition Find_EnoughResults :: "find_result \<Rightarrow> bool" where
  "Find_EnoughResults fr \<longleftrightarrow> fr_MaxMatches fr > 0 \<and> fr_NumMatches fr \<ge> fr_MaxMatches fr"

definition FindResult_SetError :: "go_error option \<Rightarrow> find_result \<Rightarrow> find_result" where
  "FindResult_SetError err fr = fr\<lparr>fr_Error := set_error err (fr_Error fr)\<rparr>"

text \<open>\<open>m[k]++\<close>, an absent entry counting as zero.\<close>

definition gm_inc :: "'k \<Rightarrow> ('k, int) gomap \<Rightarrow> ('k, int) gomap" where
  "gm_inc k m = gm_put k ((case map_of m k of None \<Rightarrow> 0 | Some n \<Rightarrow> n) + 1) m"

definition inc_match :: "string \<Rightarrow> string \<Rightarrow> find_result \<Rightarrow> find_result" where
  "inc_match file repo fr = fr\<lparr>fr_Matches :=
     gm_put file (gm_inc repo (gm_sub (fr_Matches fr) file)) (fr_Matches fr)\<rparr>"

definition touch_match :: "string \<Rightarrow> find_result \<Rightarrow> find_result" where
  "touch_match file fr =
     (if map_of (fr_Matches fr) file = None
      then fr\<lparr>fr_Matches := gm_put file [] (fr_Matches fr)\<rparr> else fr)"

definition FindResult_Update :: "find_result \<Rightarrow> find_result \<Rightarrow> find_result" where
  "FindResult_Update other fr =
     (let fr = fr\<lparr>fr_Errors := gm_copy (fr_Errors other) (fr_Errors fr)\<rparr>;
          fr = fold (\<lambda>(file, repos) fr.
                 fold (\<lambda>(repo, _) fr. inc_match file repo fr) repos (touch_match file fr))
               (fr_Matches other) fr
      in fr\<lparr>fr_NumMatches := fr_NumMatches fr + fr_NumMatches other\<rparr>)"

section \<open>Find\<close>

text \<open>\<open>regexpAll\<close> is compiled by \<open>mustCompile\<close> when the program starts; it is an argument below.\<close>

definition mustCompile :: "(string \<Rightarrow> go_error + 're) \<Rightarrow> string \<Rightarrow> 're outcome" where
  "mustCompile compile pattern =
     (case compile pattern of
        Inr cre \<Rightarrow> Returns cre
      | Inl err \<Rightarrow> Panics (''regexp did not compile: '' @ Error err))"

definition shardFind :: "('re, 'ix) grep_env \<Rightarrow> 're \<Rightarrow> 're \<Rightarrow> string \<Rightarrow> string \<Rightarrow> (string \<times> string) list" where
  "shardFind env re_all re fn key =
     (case ge_index_open env fn of
        Inl e \<Rightarrow> []
      | Inr ix \<Rightarrow>
          map (\<lambda>name. (name, key))
            (filter (\<lambda>name. \<not> ge_match_name env re name < 0)
              (map (ge_name env ix) (ge_posting env ix re_all))))"

definition chQuery_cap :: nat where
  "chQuery_cap = 100"

text \<open>The loop that queues the requests, before anything reads them.\<close>

fun find_queue ::
  "'c db \<Rightarrow> string list \<Rightarrow> find_result \<Rightarrow> (string \<times> string) list \<Rightarrow>
   (find_result \<times> (string \<times> string) list) outcome option" where
  "find_queue d [] fr reqs = Some (Returns (fr, reqs))"
| "find_queue d (key # keys) fr reqs =
     (case db_Get d key of
        None \<Rightarrow> find_queue d keys
          (fr\<lparr>fr_Errors := gm_put key kRepoUnavailableError (fr_Errors fr)\<rparr>) reqs
      | Some repo \<Rightarrow>
          (case Shards repo of
             Panics msg \<Rightarrow> Some (Panics msg)
           | Returns fns \<Rightarrow>
               (let reqs' = reqs @ map (\<lambda>fn. (fn, r_Key repo)) fns
                in if length reqs' > chQuery_cap then None else find_queue d keys fr reqs')))"

definition find_collect :: "(string \<times> string) list \<Rightarrow> find_result \<Rightarrow> find_result" where
  "find_collect found fr =
     fold (\<lambda>(fname, repo) fr. let fr = inc_match fname repo fr
       in fr\<lparr>fr_NumMatches := fr_NumMatches fr + 1\<rparr>) found fr"

definition Find ::
  "('re, 'ix) grep_env \<Rightarrow> 're \<Rightarrow> ((string \<times> string) list list \<Rightarrow> (string \<times> string) list) \<Rightarrow> 'c db \<Rightarrow>
   find_query \<Rightarrow> (find_result \<times> go_error option) outcome option" where
  "Find env re_all arrive d query =
     (let fr = NewFindResult
      in if length (fq_RepoKeys query) < 1 then
           Some (Returns (fr\<lparr>fr_Error := Some kRepoKeyEmptyError\<rparr>, None))
         else if fq_PathRe query = '''' then
           Some (Returns (fr\<lparr>fr_Error := Some (NewStructError
             (NewInvalidRequestError ''path_re must not be empty''))\<rparr>, None))
         else
           (let pathRe = (if fq_IgnoreCase query then ''(?i)'' @ fq_PathRe query else fq_PathRe query)
            in case ge_compile env pathRe of
                 Inl err \<Rightarrow>
                   Some (Returns (fr\<lparr>fr_Error := Some (NewStructError err)\<rparr>, Some err))
               | Inr reg \<Rightarrow>
                   (case find_queue d (fq_RepoKeys query) fr [] of
                      None \<Rightarrow> None
                    | Some (Panics msg) \<Rightarrow> Some (Panics msg)
                    | Some (Returns (fr, reqs)) \<Rightarrow>
                        Some (Returns (find_collect
                          (arrive (map (\<lambda>(fn, key). shardFind env re_all reg fn key) reqs)) fr,
                          None)))))"

section \<open>Counting\<close>

definition count_at :: "find_result \<Rightarrow> string \<times> string \<Rightarrow> int" where
  "count_at fr = (\<lambda>(f, k). case map_of (gm_sub (fr_Matches fr) f) k of None \<Rightarrow> 0 | Some n \<Rightarrow> n)"

definition find_error_at :: "find_result \<Rightarrow> string \<Rightarrow> struct_error option" where
  "find_error_at fr = map_of (fr_Errors fr)"

definition fr_ok :: "find_result \<Rightarrow> bool" where
  "fr_ok fr \<longleftrightarrow> gm_ok (fr_Matches fr) \<and> gm_ok (fr_Errors fr) \<and>
     (\<forall>(f, rs) \<in> set (fr_Matches fr). gm_ok rs)"

lemma count_at_inc [simp]:
  "count_at (inc_match f k fr) (f', k') = count_at fr (f', k') + (if f' = f \<and> k' = k then 1 else 0)"
  by (simp add: count_at_def inc_match_def gm_inc_def split: option.splits)

lemma count_at_touch [simp]: "count_at (touch_match f fr) = count_at fr"
  by (auto simp: fun_eq_iff count_at_def touch_match_def gm_sub_def split: option.splits)

lemma inc_touch_fields [simp]:
  "fr_Errors (inc_match f k fr) = fr_Errors fr" "fr_NumMatches (inc_match f k fr) = fr_NumMatches fr"
  "fr_Error (inc_match f k fr) = fr_Error fr" "fr_MaxMatches (inc_match f k fr) = fr_MaxMatches fr"
  "fr_Errors (touch_match f fr) = fr_Errors fr" "fr_NumMatches (touch_match f fr) = fr_NumMatches fr"
  "fr_Error (touch_match f fr) = fr_Error fr" "fr_MaxMatches (touch_match f fr) = fr_MaxMatches fr"
  by (simp_all add: inc_match_def touch_match_def)

lemma count_at_NumMatches [simp]: "count_at (fr\<lparr>fr_NumMatches := n\<rparr>) = count_at fr"
  by (simp add: count_at_def)

lemma find_collect_Cons:
  "find_collect ((f, k) # found) fr =
     find_collect found ((inc_match f k fr)\<lparr>fr_NumMatches := fr_NumMatches fr + 1\<rparr>)"
  by (simp add: find_collect_def Let_def)

lemma find_collect_counts:
  "count_at (find_collect found fr) x = count_at fr x + int (count (mset found) x)"
  "fr_NumMatches (find_collect found fr) = fr_NumMatches fr + of_nat (length found)"
  "fr_Errors (find_collect found fr) = fr_Errors fr"
  by (induction found arbitrary: fr)
    (auto simp: find_collect_Cons find_collect_def [of "[]"], cases x, auto)

lemma count_at_Update_repos:
  assumes "gm_ok repos"
  shows "count_at (fold (\<lambda>(repo, _) fr. inc_match file repo fr) repos fr) (f, k) =
    count_at fr (f, k) + (if f = file \<and> map_of repos k \<noteq> None then 1 else 0)"
  using assms
proof (induction repos arbitrary: fr)
  case (Cons kn repos)
  obtain k' n where kn: "kn = (k', n)" by (cases kn)
  with Cons.prems have "gm_ok repos" "map_of repos k' = None"
    by (auto simp: gm_ok_Cons map_of_eq_None_iff)
  with Cons.IH show ?case by (auto simp: kn)
qed simp

lemma Update_repos_fields [simp]:
  "fr_Errors (fold (\<lambda>(repo, _) fr. inc_match file repo fr) repos fr) = fr_Errors fr"
  "fr_NumMatches (fold (\<lambda>(repo, _) fr. inc_match file repo fr) repos fr) = fr_NumMatches fr"
  by (induction repos arbitrary: fr) auto

definition find_add :: "(string, (string, int) gomap) gomap \<Rightarrow> find_result \<Rightarrow> find_result" where
  "find_add m fr = fold (\<lambda>(file, repos) fr.
     fold (\<lambda>(repo, _) fr. inc_match file repo fr) repos (touch_match file fr)) m fr"

lemma find_add_fields [simp]:
  "fr_Errors (find_add m fr) = fr_Errors fr" "fr_NumMatches (find_add m fr) = fr_NumMatches fr"
  unfolding find_add_def by (induction m arbitrary: fr) auto

lemma count_at_find_add:
  assumes "gm_ok m" "\<forall>(f, rs) \<in> set m. gm_ok rs"
  shows "count_at (find_add m fr) (f, k) =
    count_at fr (f, k) + (if map_of (gm_sub m f) k \<noteq> None then 1 else 0)"
  unfolding find_add_def using assms
proof (induction m arbitrary: fr)
  case (Cons frs m)
  obtain f' rs where frs: "frs = (f', rs)" by (cases frs)
  with Cons.prems have *: "gm_ok rs" "gm_ok m" "\<forall>(f, rs) \<in> set m. gm_ok rs" "gm_sub m f' = []"
    by (auto simp: gm_ok_Cons gm_sub_def map_of_eq_None_iff [symmetric] split: option.splits)
  have sub: "gm_sub ((f', rs) # m) f = (if f = f' then rs else gm_sub m f)" by (simp add: gm_sub_def)
  show ?case using *(4) unfolding frs sub
    by (simp add: Cons.IH [OF *(2,3)] count_at_Update_repos [OF *(1)])
qed simp


section \<open>Queueing the shards\<close>

definition find_shards :: "'c db \<Rightarrow> string list \<Rightarrow> (string \<times> string) list" where
  "find_shards d keys = concat (map (\<lambda>key. case db_Get d key of
       None \<Rightarrow> []
     | Some r \<Rightarrow> map (\<lambda>i. (path_Join [r_IndexPath r, shardName (r_Key r) (int i)], r_Key r))
                  [0..<nat (r_NumShards r)]) keys)"

definition shards_valid :: "'c db \<Rightarrow> string list \<Rightarrow> bool" where
  "shards_valid d keys \<longleftrightarrow>
     (\<forall>key \<in> set keys. case db_Get d key of None \<Rightarrow> True | Some r \<Rightarrow> 0 \<le> r_NumShards r)"

lemma find_queue_shards:
  assumes "shards_valid d keys" "length reqs \<le> chQuery_cap"
  shows "find_queue d keys fr reqs =
    (if length (reqs @ find_shards d keys) \<le> chQuery_cap
     then Some (Returns (fr\<lparr>fr_Errors := fold (\<lambda>k. gm_put k kRepoUnavailableError)
       (filter (\<lambda>k. db_Get d k = None) keys) (fr_Errors fr)\<rparr>, reqs @ find_shards d keys))
     else None)"
  using assms
proof (induction d keys fr reqs rule: find_queue.induct)
  case (2 d key keys fr reqs)
  have valid: "shards_valid d keys" using "2.prems"(1) by (simp add: shards_valid_def)
  show ?case
  proof (cases "db_Get d key")
    case None
    then have "find_shards d (key # keys) = find_shards d keys" by (simp add: find_shards_def)
    with None "2.IH"(1) [OF None valid "2.prems"(2)] show ?thesis by simp
  next
    case (Some r)
    let ?fns = "map (\<lambda>i. path_Join [r_IndexPath r, shardName (r_Key r) (int i)]) [0..<nat (r_NumShards r)]"
    let ?new = "map (\<lambda>fn. (fn, r_Key r)) ?fns"
    have sh: "Shards r = Returns ?fns"
      using "2.prems"(1) Some by (simp add: shards_valid_def Shards_def)
    have fs: "find_shards d (key # keys) = ?new @ find_shards d keys"
      by (simp add: find_shards_def Some)
    show ?thesis
    proof (cases "length (reqs @ ?new) > chQuery_cap")
      case True
      then show ?thesis by (simp add: Some sh fs)
    next
      case False
      with "2.IH"(2) [OF Some sh refl _ valid] show ?thesis by (simp add: Some sh fs)
    qed
  qed
qed (simp add: find_shards_def)

lemma map_of_fold_const:
  "map_of (fold (\<lambda>k. gm_put k v) ks m) k = (if k \<in> set ks then Some v else map_of m k)"
  by (induction ks arbitrary: m) auto

text \<open>C22. \<open>Find\<close> is exact: when the expression compiles and the repositories asked for have at most
  100 shards together, then in whatever order the names of the shards arrive, each file and
  repository key is counted once for every index entry of that name, in the key's shards,
  that matches; \<open>NumMatches\<close> is the total, and exactly the unknown keys are reported.\<close>

theorem Find_counts_names:
  assumes "fq_RepoKeys q \<noteq> []" "fq_PathRe q \<noteq> ''''"
    and "ge_compile env (if fq_IgnoreCase q then ''(?i)'' @ fq_PathRe q else fq_PathRe q) = Inr reg"
    and "shards_valid d (fq_RepoKeys q)" "length (find_shards d (fq_RepoKeys q)) \<le> 100"
    and arrive: "\<And>xss. mset (arrive xss) = mset (concat xss)"
  shows "\<exists>fr. Find env re_all arrive d q = Some (Returns (fr, None)) \<and>
    (let names = concat (map (\<lambda>(fn, key). shardFind env re_all reg fn key) (find_shards d (fq_RepoKeys q)))
     in (\<forall>x. count_at fr x = int (count (mset names) x)) \<and> fr_NumMatches fr = of_nat (length names)) \<and>
    (\<forall>key. find_error_at fr key =
      (if key \<in> set (fq_RepoKeys q) \<and> db_Get d key = None then Some kRepoUnavailableError else None))"
proof -
  let ?names = "map (\<lambda>(fn, key). shardFind env re_all reg fn key) (find_shards d (fq_RepoKeys q))"
  have len: "length (arrive ?names) = length (concat ?names)"
    using arrive [of ?names] by (metis size_mset)
  have zero: "count_at (NewFindResult\<lparr>fr_Errors := es\<rparr>) x = 0" for es x
    by (simp add: count_at_def NewFindResult_def split: prod.splits)
  show ?thesis
    using assms(1-3,5) find_queue_shards [OF assms(4), of "[]" NewFindResult]
    by (simp add: Find_def Let_def chQuery_cap_def find_collect_counts arrive len zero
        find_error_at_def map_of_fold_const) (simp add: NewFindResult_def)
qed

text \<open>C34. A valid query over repositories whose shards are more than 100 together never returns: the
  channel of requests is full before anything reads from it, and the deadline of the request
  is not looked at there.\<close>

theorem Find_returns_iff_shards_fit:
  assumes "fq_RepoKeys q \<noteq> []" "fq_PathRe q \<noteq> ''''"
    and "ge_compile env (if fq_IgnoreCase q then ''(?i)'' @ fq_PathRe q else fq_PathRe q) = Inr reg"
    and "shards_valid d (fq_RepoKeys q)"
  shows "Find env re_all arrive d q \<noteq> None \<longleftrightarrow> length (find_shards d (fq_RepoKeys q)) \<le> 100"
  using assms find_queue_shards [OF assms(4), of "[]" NewFindResult]
  by (simp add: Find_def Let_def chQuery_cap_def)

text \<open>Merging a find result adds one to the count of every file and repository the incoming
  result lists, whatever its own count, while \<open>NumMatches\<close> grows by all its matches.\<close>

theorem FindResult_Update_counts:
  assumes "fr_ok other"
  shows "count_at (FindResult_Update other fr) (f, k) = count_at fr (f, k) +
      (if map_of (gm_sub (fr_Matches other) f) k \<noteq> None then 1 else 0) \<and>
    find_error_at (FindResult_Update other fr) = find_error_at fr ++ find_error_at other \<and>
    fr_NumMatches (FindResult_Update other fr) = fr_NumMatches fr + fr_NumMatches other"
  using assms count_at_find_add [of "fr_Matches other" "fr\<lparr>fr_Errors := gm_copy (fr_Errors other) (fr_Errors fr)\<rparr>" f k]
  by (simp add: FindResult_Update_def Let_def find_add_def [symmetric] fr_ok_def find_error_at_def
      map_of_gm_copy) (simp add: count_at_def)

interpretation merged_find_errors:
  result_merge FindResult_Update find_error_at "\<lambda>fr. gm_ok (fr_Errors fr)"
  by unfold_locales
    (simp_all add: FindResult_Update_def Let_def find_add_def [symmetric] find_error_at_def
      map_of_gm_copy)

section \<open>The names in a result\<close>

text \<open>Whether a result lists a file under a repository, whatever the count.\<close>

definition listed :: "find_result \<Rightarrow> string \<times> string \<Rightarrow> unit option" where
  "listed fr = (\<lambda>(f, k). map_option (\<lambda>_. ()) (map_of (gm_sub (fr_Matches fr) f) k))"

lemma listed_inc [simp]: "listed (inc_match f k fr) = (listed fr)((f, k) \<mapsto> ())"
  by (auto simp: fun_eq_iff listed_def inc_match_def gm_inc_def)

lemma listed_touch [simp]: "listed (touch_match f fr) = listed fr"
  by (auto simp: fun_eq_iff listed_def touch_match_def gm_sub_def split: option.splits)

lemma listed_fields [simp]:
  "listed (fr\<lparr>fr_NumMatches := n\<rparr>) = listed fr" "listed (fr\<lparr>fr_Errors := es\<rparr>) = listed fr"
  "listed (fr\<lparr>fr_Error := e\<rparr>) = listed fr" "listed (fr\<lparr>fr_MaxMatches := m\<rparr>) = listed fr"
  by (simp_all add: listed_def)

lemma listed_new [simp]: "listed NewFindResult = (\<lambda>_. None)"
  by (auto simp: fun_eq_iff listed_def NewFindResult_def gm_sub_def)

lemma gm_ok_sub: "fr_ok fr \<Longrightarrow> gm_ok (gm_sub (fr_Matches fr) f)"
  by (auto simp: fr_ok_def gm_sub_def map_of_in_set split: option.split)

lemma fr_ok_inc [simp]: "fr_ok fr \<Longrightarrow> fr_ok (inc_match f k fr)"
  using gm_ok_sub [of fr f] by (auto simp: fr_ok_def inc_match_def gm_inc_def set_gm_put)

lemma fr_ok_touch [simp]: "fr_ok fr \<Longrightarrow> fr_ok (touch_match f fr)"
  by (auto simp: fr_ok_def touch_match_def set_gm_put)

lemma listed_repos:
  "listed (fold (\<lambda>(repo, _) fr. inc_match file repo fr) repos fr) (f, k) =
    (if f = file \<and> map_of repos k \<noteq> None then Some () else listed fr (f, k))"
  by (induction repos arbitrary: fr) auto

lemma fr_ok_repos: "fr_ok fr \<Longrightarrow> fr_ok (fold (\<lambda>(repo, _) fr. inc_match file repo fr) repos fr)"
  by (induction repos arbitrary: fr) auto

lemma listed_find_add:
  assumes "gm_ok m"
  shows "listed (find_add m fr) (f, k) = (if map_of (gm_sub m f) k \<noteq> None then Some () else listed fr (f, k))"
  unfolding find_add_def using assms
proof (induction m arbitrary: fr)
  case (Cons frs m)
  obtain f' rs where frs: "frs = (f', rs)" by (cases frs)
  with Cons.prems have *: "gm_ok m" "gm_sub m f' = []"
    by (auto simp: gm_ok_Cons gm_sub_def map_of_eq_None_iff [symmetric] split: option.splits)
  have sub: "gm_sub ((f', rs) # m) f = (if f = f' then rs else gm_sub m f)" by (simp add: gm_sub_def)
  show ?case using *(2) unfolding frs sub by (auto simp: Cons.IH [OF *(1)] listed_repos)
qed (simp add: gm_sub_def)

lemma fr_ok_find_add: "fr_ok fr \<Longrightarrow> fr_ok (find_add m fr)"
  unfolding find_add_def by (induction m arbitrary: fr) (auto simp: fr_ok_repos)

interpretation merged_names: result_merge FindResult_Update listed fr_ok
proof
  fix x r assume ok: "fr_ok x" "fr_ok r"
  let ?r = "r\<lparr>fr_Errors := gm_copy (fr_Errors x) (fr_Errors r)\<rparr>"
  have upd: "FindResult_Update x r = (find_add (fr_Matches x) ?r)\<lparr>fr_NumMatches := fr_NumMatches r + fr_NumMatches x\<rparr>"
    by (simp add: FindResult_Update_def Let_def find_add_def [symmetric])
  have "gm_ok (fr_Matches x)" using ok(1) by (simp add: fr_ok_def)
  then show "listed (FindResult_Update x r) = listed r ++ listed x"
    unfolding upd listed_fields
    by (auto simp: fun_eq_iff listed_find_add map_add_def) (auto simp: listed_def split: option.split)
  have "fr_ok ?r" using ok(2) by (simp add: fr_ok_def)
  then show "fr_ok (FindResult_Update x r)"
    using fr_ok_find_add [of ?r "fr_Matches x"] by (simp add: upd fr_ok_def)
qed

lemma listed_collect:
  "listed (find_collect found fr) p = (if p \<in> set found then Some () else listed fr p)"
  "fr_ok fr \<Longrightarrow> fr_ok (find_collect found fr)"
proof (induction found arbitrary: fr)
  case (Cons fk found)
  obtain f k where fk: "fk = (f, k)" by (cases fk)
  { case 1 then show ?case using Cons(1) by (simp add: fk find_collect_Cons)
  next
    case 2
    then have "fr_ok ((inc_match f k fr)\<lparr>fr_NumMatches := fr_NumMatches fr + 1\<rparr>)"
      using fr_ok_inc [of fr f k] by (simp add: fr_ok_def)
    then show ?case using Cons(2) by (simp add: fk find_collect_Cons) }
qed (simp_all add: find_collect_def)

section \<open>Instances\<close>

definition two_db :: "nat \<Rightarrow> (string, repo) gomap db" where
  "two_db n = \<lparr>db_R = [(''a'', one_repo\<lparr>r_Key := ''a'', r_NumShards := int n\<rparr>)], db_bfn = '''',
     db_bs = False, db_files = (\<lambda>_. None)\<rparr>"

definition a_query :: find_query where
  "a_query = NewFindQuery\<lparr>fq_PathRe := ''f'', fq_RepoKeys := [''a'', ''z'']\<rparr>"

lemma two_db_shards:
  "shards_valid (two_db n) [''a'', ''z'']" "length (find_shards (two_db n) [''a'', ''z'']) = n"
  by (simp_all add: shards_valid_def two_db_def db_Get_def db_get_def one_repo_def NewRepo_def
      find_shards_def)

lemma Find_counts_names_witness:
  "\<exists>fr. Find (tiny_env [(''f1'', [])]) ''.'' concat (two_db 2) a_query = Some (Returns (fr, None)) \<and>
    count_at fr (''f1'', ''a'') = 2 \<and> find_error_at fr ''z'' = Some kRepoUnavailableError"
proof -
  let ?env = "tiny_env [(''f1'', [])]"
  have c: "ge_compile ?env (if fq_IgnoreCase a_query then ''(?i)'' @ fq_PathRe a_query else fq_PathRe a_query)
      = Inr ''f''"
    by (simp add: a_query_def NewFindQuery_def tiny_env_def)
  have names: "concat (map (\<lambda>(fn, key). shardFind ?env ''.'' ''f'' fn key)
      (find_shards (two_db 2) (fq_RepoKeys a_query))) = [(''f1'', ''a''), (''f1'', ''a'')]"
    by (simp add: a_query_def find_shards_def two_db_def db_Get_def db_get_def one_repo_def
        NewRepo_def shardFind_def tiny_env_def numeral_2_eq_2 sublist_code)
  have keys: "fq_RepoKeys a_query = [''a'', ''z'']" by (simp add: a_query_def)
  have z: "db_Get (two_db 2) ''z'' = None" by (simp add: two_db_def db_Get_def db_get_def)
  have p: "fq_RepoKeys a_query \<noteq> []" "fq_PathRe a_query \<noteq> ''''"
    "shards_valid (two_db 2) (fq_RepoKeys a_query)"
    "length (find_shards (two_db 2) (fq_RepoKeys a_query)) \<le> 100"
    using two_db_shards [of 2] by (simp_all add: keys) (simp add: a_query_def)
  obtain fr where fr: "Find ?env ''.'' concat (two_db 2) a_query = Some (Returns (fr, None))"
    "\<forall>x. count_at fr x = int (count (mset [(''f1'', ''a''), (''f1'', ''a'')]) x)"
    "\<forall>key. find_error_at fr key = (if key \<in> set (fq_RepoKeys a_query) \<and> db_Get (two_db 2) key = None
       then Some kRepoUnavailableError else None)"
    using Find_counts_names [OF p(1,2) c p(3,4) refl, of "''.''"] unfolding names Let_def by blast
  show ?thesis using fr(1) fr(2,3) by (intro exI [of _ fr]) (simp add: keys z)
qed

lemma Find_returns_iff_shards_fit_witness:
  "Find (tiny_env []) ''.'' concat (two_db 101) a_query = None \<and>
   Find (tiny_env []) ''.'' concat (two_db 100) a_query \<noteq> None"
proof -
  have c: "ge_compile (tiny_env [])
      (if fq_IgnoreCase a_query then ''(?i)'' @ fq_PathRe a_query else fq_PathRe a_query) = Inr ''f''"
    by (simp add: a_query_def NewFindQuery_def tiny_env_def)
  have q: "fq_RepoKeys a_query = [''a'', ''z'']" "fq_PathRe a_query = ''f''" by (simp_all add: a_query_def)
  have "Find (tiny_env []) ''.'' concat (two_db n) a_query \<noteq> None \<longleftrightarrow> n \<le> 100" for n
    using Find_returns_iff_shards_fit [OF _ _ c, of "two_db n" "''.''" concat] two_db_shards [of n]
    by (simp add: q)
  from this [of 101] this [of 100] show ?thesis by simp
qed

lemma FindResult_Update_counts_witness:
  "count_at (FindResult_Update (NewFindResult\<lparr>fr_Matches := [(''f'', [(''k'', 7)])], fr_NumMatches := 7\<rparr>)
     NewFindResult) (''f'', ''k'') = 1"
  using FindResult_Update_counts
    [of "NewFindResult\<lparr>fr_Matches := [(''f'', [(''k'', 7)])], fr_NumMatches := 7\<rparr>"
      NewFindResult "''f''" "''k''"]
  by (simp add: fr_ok_def NewFindResult_def gm_ok_def gm_sub_def count_at_def)

end
