(* ===== verification/Api_Find.thy ===== *)
theory Api_Find
  imports Api_Search Find
begin

text \<open>
  \<open>afind/api/find.go\<close>: the find service, built like the search service: one request per host,
  the results merged as they arrive (\<open>arrive\<close>).
\<close>

section \<open>Requests\<close>

text \<open>Local requests carry all the host's keys, copied one by one; remote ones the slice itself.\<close>

definition find_mk_local :: "find_query \<Rightarrow> meta \<Rightarrow> string list \<Rightarrow> find_query list" where
  "find_mk_local q meta keys =
     [q\<lparr>fq_Meta := meta, fq_RepoKeys := fold (\<lambda>key ks. ks @ [key]) keys []\<rparr>]"

definition find_mk_remote :: "find_query \<Rightarrow> meta \<Rightarrow> string list \<Rightarrow> find_query" where
  "find_mk_remote q meta keys = q\<lparr>fq_Meta := meta, fq_RepoKeys := keys\<rparr>"

text \<open>The limit on backend requests is the limit on matches.\<close>

definition getFindRequests ::
  "string option \<Rightarrow> regexp_compile \<Rightarrow> ((string \<times> string list) list \<Rightarrow> (string \<times> string list) list) \<Rightarrow>
   config \<Rightarrow> 'c db \<Rightarrow> find_query \<Rightarrow> find_query request list outcome" where
  "getFindRequests hostname compile visit c d q =
     (let repos = genGetReqpos compile d (fq_RepoKeys q) (fq_Meta q) (fq_MetaRegexpMatch q);
          maxBe = fq_MaxMatches q
      in if length repos < 1 then Returns []
         else dispatch hostname (\<lambda>countBe. maxBe > 0 \<and> countBe \<ge> unat maxBe) (find_mk_local q)
           (find_mk_remote q) c (fq_Meta q) 0 (visit (group_hosts repos)))"

record find_backend =
  fb_find :: "find_query \<Rightarrow> find_result \<times> go_error option"
  fb_dial :: "string \<Rightarrow> go_error option"
  fb_call :: "string \<Rightarrow> find_query \<Rightarrow> find_result \<times> go_error option"

definition localFind :: "find_backend \<Rightarrow> find_query \<Rightarrow> bool \<Rightarrow> find_result option" where
  "localFind be q expired =
     (let (fr, err) = fb_find be q;
          fr = (case err of None \<Rightarrow> fr | Some e \<Rightarrow> fr\<lparr>fr_Error := Some (NewStructError e)\<rparr>)
      in if expired then None else Some fr)"

text \<open>A daemon that cannot be reached sends nothing: the result that holds the error is dropped.\<close>

definition remoteFind ::
  "find_backend \<Rightarrow> string \<Rightarrow> find_query \<Rightarrow> meta \<Rightarrow> bool \<Rightarrow> find_result option \<times> go_error option" where
  "remoteFind be addr q meta expired =
     (let q = q\<lparr>fq_Meta := meta\<rparr>
      in case fb_dial be addr of
           Some err \<Rightarrow> (None, Some err)
         | None \<Rightarrow>
             (let (fr, err) = fb_call be addr q;
                  fr = (case err of
                     None \<Rightarrow> fr
                   | Some e \<Rightarrow> fr\<lparr>fr_Errors :=
                       gm_put (Meta_Host (fq_Meta q)) (NewStructError e) (fr_Errors fr)\<rparr>)
              in (if expired then None else Some fr, None)))"

definition timeoutFind :: "find_query \<Rightarrow> config \<Rightarrow> duration \<times> config" where
  "timeoutFind q cfg = (if fq_Timeout q = 0 then GetTimeoutFind cfg else (fq_Timeout q, cfg))"

definition logmsgFind :: "find_query \<Rightarrow> string" where
  "logmsgFind q = ''find ['' @ fq_PathRe q @ '']''"

section \<open>The service\<close>

text \<open>
  Enough results cancel the requests, but the loop goes on with whatever still arrives.
\<close>

fun find_merge :: "find_result list \<Rightarrow> nat \<Rightarrow> find_result \<Rightarrow> find_result \<times> nat" where
  "find_merge [] cnt fr = (fr, cnt)"
| "find_merge (x # xs) cnt fr = find_merge xs (cnt + 1) (FindResult_Update x fr)"

definition doFind ::
  "string option \<Rightarrow> regexp_compile \<Rightarrow> ((string \<times> string list) list \<Rightarrow> (string \<times> string list) list) \<Rightarrow>
   config \<Rightarrow> (find_query request list \<Rightarrow> find_result list) \<Rightarrow> find_query \<Rightarrow> 'c db \<Rightarrow>
   (find_result \<times> go_error option) outcome" where
  "doFind hostname compile visit c arrive q d =
     (let (local, c) = isLocal hostname c (Meta_Host (fq_Meta q));
          fr = NewFindResult\<lparr>fr_MaxMatches := fq_MaxMatches q\<rparr>
      in case FindQuery_Normalize q of
           Some e \<Rightarrow> Returns (FindResult_SetError (Some e) fr, Some e)
         | None \<Rightarrow>
             (case getFindRequests hostname compile visit c d q of
                Panics msg \<Rightarrow> Panics msg
              | Returns reqs \<Rightarrow>
                  (let (fr, cnt) = find_merge (arrive reqs) 0 fr
                   in Returns (fr, if cnt < 1 then Some NewRepoUnavailableError else None))))"

definition rpc_Find :: "find_result \<times> go_error option \<Rightarrow> find_result" where
  "rpc_Find res = (case res of (fr, err) \<Rightarrow> FindResult_SetError err fr)"

definition webFind_reply :: "find_result \<times> go_error option \<Rightarrow> int \<times> find_result http_body" where
  "webFind_reply res =
     (case res of
        (fr, None) \<Rightarrow> (200, Body fr)
      | (fr, Some e) \<Rightarrow> (500, ErrorBody (NewStructError e)))"

definition webFind ::
  "string option \<Rightarrow> regexp_compile \<Rightarrow> ((string \<times> string list) list \<Rightarrow> (string \<times> string list) list) \<Rightarrow>
   config \<Rightarrow> (find_query request list \<Rightarrow> find_result list) \<Rightarrow> go_error + find_query \<Rightarrow> 'c db \<Rightarrow>
   (int \<times> find_result http_body) outcome" where
  "webFind hostname compile visit c arrive body d =
     (case body of
        Inl e \<Rightarrow> Returns (bad_request 400 (Error e))
      | Inr q \<Rightarrow>
          (let q = q\<lparr>fq_Recurse := True\<rparr>; (timeout, c) = timeoutFind q c
           in case doFind hostname compile visit c arrive q d of
                Panics msg \<Rightarrow> Panics msg
              | Returns res \<Rightarrow> Returns (webFind_reply res)))"

section \<open>Requests and backends\<close>

lemma fold_snoc: "fold (\<lambda>key ks. ks @ [key]) keys acc = acc @ keys"
  by (induction keys arbitrary: acc) simp_all

lemma getFindRequests_reqs:
  assumes "\<forall>m. mset (visit m) = mset m" "fq_MaxMatches q = 0"
    and "repos = genGetReqpos compile d (fq_RepoKeys q) (fq_Meta q) (fq_MetaRegexpMatch q)"
  shows "\<exists>reqs. getFindRequests hostname compile visit c d q = Returns reqs \<and>
    mset (concat (map (fq_RepoKeys \<circ> request_query) reqs)) = mset (map r_Key repos)"
proof (cases "repos = []")
  case True
  then show ?thesis using assms(3) by (simp add: getFindRequests_def)
next
  case False
  let ?hosts = "visit (group_hosts repos)"
  have full: "\<forall>n < 0 + length ?hosts. \<not> (fq_MaxMatches q > 0 \<and> n \<ge> unat (fq_MaxMatches q))"
    using assms(2) by simp
  have loc: "\<forall>meta keys. concat (map fq_RepoKeys (find_mk_local q meta keys)) = keys"
    by (simp add: find_mk_local_def fold_snoc)
  have rem: "\<forall>meta keys. fq_RepoKeys (find_mk_remote q meta keys) = keys"
    by (simp add: find_mk_remote_def)
  obtain reqs where reqs: "dispatch hostname (\<lambda>n. fq_MaxMatches q > 0 \<and> n \<ge> unat (fq_MaxMatches q))
      (find_mk_local q) (find_mk_remote q) c (fq_Meta q) 0 ?hosts = Returns reqs"
    "concat (map (fq_RepoKeys \<circ> request_query) reqs) = concat (map snd ?hosts)"
    using dispatch_keys [OF full loc rem, of hostname c "fq_Meta q"] by (elim exE conjE)
  have "mset (concat (map snd ?hosts)) = mset (concat (map snd (group_hosts repos)))"
    using assms(1) mset_concat_map by blast
  with reqs False show ?thesis
    using assms(3) by (auto simp: getFindRequests_def Let_def group_hosts_keys)
qed

text \<open>The limit on the matches of a find request also limits the hosts it asks: with a limit of
  \<open>m\<close> matches, at most \<open>m\<close> other hosts are asked, whether or not they have any match; without
  one, the requests ask for every selected repository exactly once.\<close>

theorem find_limits_hosts_by_matches:
  assumes "\<forall>m. mset (visit m) = mset m"
  shows "\<exists>reqs. getFindRequests hostname compile visit c d q = Returns reqs \<and>
    (if fq_MaxMatches q > 0 then length (filter is_remote reqs) \<le> unat (fq_MaxMatches q)
     else mset (concat (map (fq_RepoKeys \<circ> request_query) reqs)) = mset (map r_Key
       (genGetReqpos compile d (fq_RepoKeys q) (fq_Meta q) (fq_MetaRegexpMatch q))))"
proof (cases "fq_MaxMatches q > 0")
  case True
  have full: "\<forall>n. (fq_MaxMatches q > 0 \<and> n \<ge> unat (fq_MaxMatches q)) \<longleftrightarrow> unat (fq_MaxMatches q) \<le> n"
    using True by simp
  from dispatch_limit [OF full, of 0] True show ?thesis
    by (fastforce simp: getFindRequests_def Let_def)
next
  case False
  then have "fq_MaxMatches q = 0" by (metis word_gt_0)
  from getFindRequests_reqs [OF assms this refl, where hostname = hostname and compile = compile and c = c and d = d] show ?thesis
    using False by simp
qed

text \<open>A host that cannot be reached is reported by a search but not by a find: its find request
  sends no result, so when all the repositories asked for are on that host the reply is that
  no repository is available, and otherwise the host's files are missing without a word.\<close>

theorem unreachable_host_is_lost_by_find:
  assumes "fb_dial fbe addr = Some e" "sb_dial sbe addr = Some e"
  shows "fst (remoteFind fbe addr fq meta expired) = None \<and>
    (\<exists>sr. remoteSearch sbe addr sq meta False = Some sr \<and>
       error_at sr (Meta_Host meta) = Some (NewStructError e)) \<and>
    (FindQuery_Normalize q = None \<longrightarrow> (\<forall>reqs. arrive reqs = []) \<longrightarrow>
       (\<exists>fr. doFind hostname compile visit c arrive q d = Returns (fr, Some NewRepoUnavailableError)
         \<and> fr_Errors fr = []))"
proof -
  have returns: "\<exists>reqs. getFindRequests hostname compile visit c d q = Returns reqs" for c
    by (simp add: getFindRequests_def Let_def dispatch_returns)
  obtain reqs where "getFindRequests hostname compile visit (snd (isLocal hostname c (Meta_Host (fq_Meta q)))) d q
      = Returns reqs"
    using returns by blast
  then show ?thesis
    using assms by (simp add: remoteFind_def remoteSearch_def error_at_def doFind_def split_def Let_def
        NewFindResult_def)
qed

lemma find_limits_hosts_by_matches_witness:
  "\<exists>reqs. getFindRequests None (\<lambda>_. None) rev zero_config one_db (a_query\<lparr>fq_MaxMatches := 1\<rparr>) = Returns reqs \<and>
     length (filter is_remote reqs) \<le> 1"
  using find_limits_hosts_by_matches [of rev None "\<lambda>_. None" zero_config one_db "a_query\<lparr>fq_MaxMatches := 1\<rparr>"]
  by simp

lemma unreachable_host_is_lost_by_find_witness:
  "let e = NetError False ''refused'';
       fbe = \<lparr>fb_find = (\<lambda>_. (NewFindResult, None)), fb_dial = (\<lambda>_. Some e), fb_call = (\<lambda>_ _. (NewFindResult, None))\<rparr>
   in fst (remoteFind fbe ''h:1'' a_query [(''host'', ''h'')] False) = None \<and>
     (\<exists>fr. doFind None (\<lambda>_. None) rev zero_config (\<lambda>_. []) (a_query\<lparr>fq_PathRe := ''abc''\<rparr>) one_db
        = Returns (fr, Some NewRepoUnavailableError))"
proof -
  let ?e = "NetError False ''refused''"
  let ?fbe = "\<lparr>fb_find = (\<lambda>_. (NewFindResult, None)), fb_dial = (\<lambda>_. Some ?e), fb_call = (\<lambda>_ _. (NewFindResult, None))\<rparr>"
  let ?sbe = "\<lparr>sb_search = (\<lambda>_. (NewSearchResult, None)), sb_dial = (\<lambda>_. Some ?e), sb_call = (\<lambda>_ _. (NewSearchResult, None))\<rparr>"
  have dials: "fb_dial ?fbe ''h:1'' = Some ?e" "sb_dial ?sbe ''h:1'' = Some ?e" by simp_all
  have "FindQuery_Normalize (a_query\<lparr>fq_PathRe := ''abc''\<rparr>) = None"
    by (simp add: FindQuery_Normalize_def)
  then show ?thesis
    using unreachable_host_is_lost_by_find [OF dials, of a_query "[(''host'', ''h'')]" False one_query
        "a_query\<lparr>fq_PathRe := ''abc''\<rparr>" "\<lambda>_. []" None "\<lambda>_. None" rev zero_config one_db]
    by (auto simp: Let_def)
qed

end
