(* ===== verification/Servers.thy ===== *)
theory Servers
  imports Api_Index
begin

text \<open>
  The rest of the server package: the repository service (\<open>afind/api/repos.go\<close>), the accept loop
  of the RPC server (\<open>afind/api/rpc_server.go\<close>) and the routes of the HTTP server
  (\<open>afind/api/http_server.go\<close>).
\<close>

section \<open>Repositories\<close>

text \<open>The RPC replies: maps from keys to repositories.\<close>

definition repos_Get :: "'c db \<Rightarrow> string \<Rightarrow> (string, repo) gomap" where
  "repos_Get d key = (case db_Get d key of None \<Rightarrow> [] | Some repo \<Rightarrow> gm_put (r_Key repo) repo [])"

definition repos_GetAll :: "'c db \<Rightarrow> (string, repo) gomap" where
  "repos_GetAll d = db_ForEach d (\<lambda>key value replyv. (gm_put key value replyv, True)) []"

definition repos_Delete :: "'c fs_env \<Rightarrow> string \<Rightarrow> 'c db \<Rightarrow> 'c db" where
  "repos_Delete env key d = fst (db_Delete env key d)"

definition repos_webDelete :: "'c fs_env \<Rightarrow> string \<Rightarrow> 'c db \<Rightarrow> (int \<times> unit http_body) \<times> 'c db" where
  "repos_webDelete env key d =
     (case db_Delete env key d of
        (d', None) \<Rightarrow> ((200, NoBody), d')
      | (d', Some e) \<Rightarrow> ((500, ErrorBody \<lparr>se_T = ''delete_repo'', se_M = Error e\<rparr>), d'))"

definition repos_webGet :: "'c db \<Rightarrow> string \<Rightarrow> int \<times> (string, repo) gomap http_body" where
  "repos_webGet d key =
     (let repos = (if key \<noteq> '''' then
            (case db_Get d key of None \<Rightarrow> [] | Some v \<Rightarrow> gm_put key v [])
          else db_ForEach d (\<lambda>key value repos. (gm_put key value repos, True)) [])
      in if length repos > 0 then (200, Body repos) else (404, NoBody))"

lemma repos_GetAll_at: "db_ok d \<Longrightarrow> map_of (repos_GetAll d) = db_Get d"
proof -
  assume ok: "db_ok d"
  have "repos_GetAll d = fold (\<lambda>(k, r). gm_put k r) (db_R d) []"
    unfolding repos_GetAll_def by (rule db_ForEach_fold [OF ok]) simp
  then show ?thesis
    using ok gomap.fold_put_distinct [of "db_R d" "[]"] by (simp add: db_ok_def db_Get_map)
qed

text \<open>On a database whose repositories are stored under their own keys, the repository service
  answers the same through RPC and HTTP: all repositories or the one asked for, and 404 exactly
  when there is none; a deleted repository is gone from every later answer.\<close>

theorem repos_service_consistent:
  assumes "db_ok d" "db_keyed d" "key \<noteq> ''''"
  shows "map_of (repos_GetAll d) = db_Get d \<and>
    repos_webGet d key = (if db_Get d key = None then (404, NoBody) else (200, Body (repos_Get d key))) \<and>
    map_of (repos_Get d key) = (if db_Get d key = None then Map.empty else [key \<mapsto> the (db_Get d key)]) \<and>
    fst (repos_webGet d '''') = (if db_Get d = Map.empty then 404 else 200) \<and>
    map_of (repos_GetAll (repos_Delete env key d)) = (db_Get d)(key := None) \<and>
    repos_webDelete env key d = ((200, NoBody), repos_Delete env key d)"
proof -
  have keyed: "db_Get d key = Some r \<Longrightarrow> r_Key r = key" for r
    using assms(2) by (simp add: db_keyed_def)
  have "repos_webGet d '''' = (if length (repos_GetAll d) > 0 then (200, Body (repos_GetAll d)) else (404, NoBody))"
    by (simp add: repos_webGet_def repos_GetAll_def)
  moreover have "repos_GetAll d = [] \<longleftrightarrow> db_Get d = Map.empty"
    using repos_GetAll_at [OF assms(1)] by (metis empty_eq_map_of_iff)
  moreover have "snd (db_Delete env key d) = None" by (simp add: db_Delete_def)
  ultimately show ?thesis
    using assms keyed repos_GetAll_at [OF assms(1)] repos_GetAll_at [of "repos_Delete env key d"]
    by (auto simp: repos_webGet_def repos_Get_def repos_Delete_def repos_webDelete_def gm_put_def
        fun_eq_iff split: option.splits prod.splits)
qed

section \<open>The accept loop\<close>

text \<open>One round: whether the quit signal is there, and what accepting a connection gives.\<close>

datatype accept = Conn | AcceptErr go_error

text \<open>The loop still runs, with its delay, or has returned an error value.\<close>

datatype serve_end = Serving duration | Stopped "go_error option"

definition startDelay :: duration where
  "startDelay = 3000000"

definition maxDelay :: duration where
  "maxDelay = 5000000000"

text \<open>The delays slept and the end, for the rounds so far. An error that is no \<open>net.Error\<close> is
  returned through a variable of that type, where the failed assertion has left \<open>nil\<close>.\<close>

fun Serve :: "duration \<Rightarrow> (bool \<times> accept) list \<Rightarrow> duration list \<times> serve_end" where
  "Serve delay [] = ([], Serving delay)"
| "Serve delay ((quit, a) # rounds) =
     (if quit then ([], Stopped None)
      else (case a of
          Conn \<Rightarrow> Serve startDelay rounds
        | AcceptErr (NetError True msg) \<Rightarrow>
            (let delay = delay * 2;
                 delay = (if sint delay > sint maxDelay then maxDelay else delay);
                 (sleeps, e) = Serve delay rounds
             in (delay # sleeps, e))
        | AcceptErr (NetError False msg) \<Rightarrow> ([], Stopped (Some (NetError False msg)))
        | AcceptErr err \<Rightarrow> ([], Stopped None)))"

definition backoff :: "nat \<Rightarrow> int" where
  "backoff k = min (3000000 * 2 ^ k) 5000000000"

lemma backoff_bounds: "0 < backoff k" "backoff k \<le> 5000000000"
  by (simp_all add: backoff_def)

lemma backoff_Suc: "backoff (Suc k) = min (2 * backoff k) 5000000000"
  by (simp add: backoff_def min_def)

lemma sint_double:
  assumes "0 \<le> sint d" "sint d \<le> 5000000000"
  shows "sint ((d :: duration) * 2) = 2 * sint d"
proof -
  have "sint (d * 2) = signed_take_bit 63 (sint d * sint (2 :: duration))"
    using sint_word_ariths(3) [of d 2] by simp
  also have "\<dots> = signed_take_bit 63 (2 * sint d)" by (simp add: mult.commute)
  also have "\<dots> = 2 * sint d" using assms by (intro signed_take_bit_int_eq_self) auto
  finally show ?thesis .
qed

lemma sint_maxDelay: "sint maxDelay = 5000000000"
  by (simp add: maxDelay_def)

lemma sint_next_delay:
  assumes "sint d = backoff k"
  shows "sint (if sint (d * 2) > sint maxDelay then maxDelay else d * 2) = backoff (Suc k)"
proof -
  have "sint (d * 2) = 2 * backoff k"
    using sint_double [of d] backoff_bounds [of k] assms by simp
  then show ?thesis by (simp add: sint_maxDelay backoff_Suc min_def)
qed

lemma Serve_temporary:
  assumes "sint d = backoff k"
  shows "\<exists>d'. Serve d (replicate n (False, AcceptErr (NetError True m)) @ rounds) =
      (let (sleeps, e) = Serve d' rounds in (fst (Serve d (replicate n (False, AcceptErr (NetError True m)))) @ sleeps, e)) \<and>
    sint d' = backoff (k + n) \<and>
    map sint (fst (Serve d (replicate n (False, AcceptErr (NetError True m))))) = map (\<lambda>i. backoff (k + i + 1)) [0..<n]"
  using assms
proof (induction n arbitrary: d k)
  case 0
  then show ?case by (intro exI [of _ d]) (simp add: split_def)
next
  case (Suc n)
  let ?d = "if sint (d * 2) > sint maxDelay then maxDelay else d * 2"
  from Suc.IH [OF sint_next_delay [OF Suc.prems]] obtain d' where
    IH: "Serve ?d (replicate n (False, AcceptErr (NetError True m)) @ rounds) =
      (let (sleeps, e) = Serve d' rounds in (fst (Serve ?d (replicate n (False, AcceptErr (NetError True m)))) @ sleeps, e))"
    "sint d' = backoff (Suc k + n)"
    "map sint (fst (Serve ?d (replicate n (False, AcceptErr (NetError True m))))) = map (\<lambda>i. backoff (Suc k + i + 1)) [0..<n]"
    by blast
  have step: "Serve d ((False, AcceptErr (NetError True m)) # rs) = (let (sleeps, e) = Serve ?d rs in (?d # sleeps, e))" for rs
    by (simp add: Let_def)
  have "map (\<lambda>i. backoff (k + i + 1)) [0..<Suc n] = backoff (Suc k) # map (\<lambda>i. backoff (Suc k + i + 1)) [0..<n]"
    by (simp add: map_upt_Suc del: upt_Suc)
  with IH sint_next_delay [OF Suc.prems] show ?case
    unfolding replicate_Suc append_Cons step
    by (intro exI [of _ d']) (simp add: split_def Let_def del: upt_Suc)
qed

text \<open>C37. The accept loop backs off exponentially: the \<open>i\<close>-th consecutive temporary error is followed
  by a sleep of three milliseconds times \<open>2\<^sup>i\<close>, never more than five seconds and without
  overflow, and a permanent error ends the loop. Of the permanent errors only network errors
  are returned; after any other error the loop ends reporting none.\<close>

theorem Serve_backs_off:
  assumes "\<nexists>msg. err = NetError True msg"
  shows "let (sleeps, e) = Serve startDelay
      (replicate n (False, AcceptErr (NetError True m)) @ (False, AcceptErr err) # rounds)
    in map sint sleeps = map (\<lambda>i. min (3000000 * 2 ^ i) 5000000000) [1..<Suc n] \<and>
      e = Stopped (if IsNetError err then Some err else None)"
proof -
  let ?t = "replicate n (False, AcceptErr (NetError True m))"
  have "sint startDelay = backoff 0" by (simp add: startDelay_def backoff_def)
  from Serve_temporary [OF this, of n m "(False, AcceptErr err) # rounds"] obtain d' where
    run: "Serve startDelay (?t @ (False, AcceptErr err) # rounds) =
      (let (sleeps, e) = Serve d' ((False, AcceptErr err) # rounds) in (fst (Serve startDelay ?t) @ sleeps, e))"
    "map sint (fst (Serve startDelay ?t)) = map (\<lambda>i. backoff (i + 1)) [0..<n]"
    by auto
  have "Serve d' ((False, AcceptErr err) # rounds) = ([], Stopped (if IsNetError err then Some err else None))"
    using assms by (cases err) (auto split: bool.splits)
  moreover have "map (\<lambda>i. backoff (i + 1)) [0..<n] = map backoff [1..<Suc n]"
    by (simp add: map_Suc_upt [symmetric] o_def del: upt_Suc)
  ultimately show ?thesis using run by (simp add: backoff_def del: upt_Suc)
qed

lemma Serve_backs_off_witness:
  "let (sleeps, e) = Serve startDelay (replicate 12 (False, AcceptErr (NetError True ''busy''))
       @ [(False, AcceptErr (OtherError ''closed''))])
   in length sleeps = 12 \<and> sint (sleeps ! 11) = 5000000000 \<and> e = Stopped None"
proof -
  obtain sleeps e where r: "Serve startDelay (replicate 12 (False, AcceptErr (NetError True ''busy''))
       @ [(False, AcceptErr (OtherError ''closed''))]) = (sleeps, e)"
    by (cases "Serve startDelay (replicate 12 (False, AcceptErr (NetError True ''busy''))
       @ [(False, AcceptErr (OtherError ''closed''))])")
  have *: "map sint sleeps = map (\<lambda>i. min (3000000 * 2 ^ i) 5000000000) [1..<Suc 12]" "e = Stopped None"
    using Serve_backs_off [of "OtherError ''closed''" 12 "''busy''" "[]"] by (simp_all add: r del: upt_Suc)
  then have "length sleeps = 12" by (metis diff_Suc_1 length_map length_upt)
  moreover from this have "sint (sleeps ! 11) = map sint sleeps ! 11" by simp
  ultimately show ?thesis by (simp add: r *)
qed

lemma repos_service_consistent_witness:
  "repos_webGet (fst (db_Set plain_env ''k'' (Some (NewRepo\<lparr>r_Key := ''k''\<rparr>)) no_repos)) ''k''
     = (200, Body [(''k'', NewRepo\<lparr>r_Key := ''k''\<rparr>)])"
proof -
  let ?d = "fst (db_Set plain_env ''k'' (Some (NewRepo\<lparr>r_Key := ''k''\<rparr>)) no_repos)"
  have "db_ok ?d" by (simp add: no_repos_def newDb_def db_ok_def)
  moreover have "db_keyed ?d" by (simp add: db_keyed_def)
  ultimately have "repos_webGet ?d ''k'' = (200, Body (repos_Get ?d ''k''))"
    using repos_service_consistent [of ?d "''k''" plain_env] by simp
  then show ?thesis by (simp add: repos_Get_def gm_put_def)
qed

end
