(* ===== verification/Endpoints.thy ===== *)
theory Endpoints
  imports Api_Find Servers
begin

text \<open>
  What the servers register and what the clients call: \<open>Register\<close> of \<open>afind/api/rpc_server.go\<close> and
  \<open>afind/api/http_server.go\<close>, and the RPC clients of \<open>afind/api\<close>. The RPC library, the router and the
  encoding of messages are not modelled: a call is given the reply it gets, or that its context
  ends first.
\<close>

section \<open>Registration\<close>

text \<open>Which parts the server was set up with.\<close>

record server_parts =
  sp_repos :: bool
  sp_indexer :: bool
  sp_searcher :: bool
  sp_finder :: bool

definition EPIndexer :: string where "EPIndexer = ''Indexer''"
definition EPSearcher :: string where "EPSearcher = ''Searcher''"
definition EPRepos :: string where "EPRepos = ''Repos''"
definition EPFinder :: string where "EPFinder = ''Finder''"

lemmas endpoint_defs = EPIndexer_def EPSearcher_def EPRepos_def EPFinder_def

text \<open>A service bound to its name, with the part it uses.\<close>

datatype bound = ReposServer bool | IndexServer bool | SearchServer bool | FindServer bool

definition rpc_Register :: "server_parts \<Rightarrow> (string \<times> bound) list outcome" where
  "rpc_Register s =
     (if \<not> sp_repos s \<or> \<not> sp_indexer s \<or> \<not> sp_searcher s
      then Panics ''server must be setup prior to Register being called''
      else Returns [(EPRepos, ReposServer (sp_repos s)), (EPIndexer, IndexServer (sp_indexer s)),
        (EPSearcher, SearchServer (sp_searcher s)), (EPFinder, FindServer (sp_finder s))])"

datatype handler = WebGet | WebDelete | WebIndex | WebSearch | WebFind

definition web_Register :: "server_parts \<Rightarrow> (string \<times> string \<times> handler) list outcome" where
  "web_Register s =
     (if \<not> sp_repos s \<or> \<not> sp_indexer s \<or> \<not> sp_searcher s
      then Panics ''server must be setup prior to Register being called''
      else Returns [
        (''GET'', ''/api/v1/repo'', WebGet),
        (''GET'', ''/api/v1/repo/:key'', WebGet),
        (''DELETE'', ''/api/v1/repo/:key'', WebDelete),
        (''POST'', ''/api/v1/index'', WebIndex),
        (''POST'', ''/api/v1/search'', WebSearch),
        (''POST'', ''/api/v1/find'', WebFind)])"

text \<open>The check leaves the finder out: a server without one registers, its find service without a part
  to call.\<close>

lemma Register_unchecked_finder:
  "returns (rpc_Register s) \<longleftrightarrow> sp_repos s \<and> sp_indexer s \<and> sp_searcher s"
  "rpc_Register s = Returns bs \<Longrightarrow> (EPFinder, FindServer (sp_finder s)) \<in> set bs"
  by (auto simp: rpc_Register_def split: if_splits)

section \<open>Clients\<close>

text \<open>\<open>Done\<close> is the context's end; a reply is what the call has decoded and its error.\<close>

datatype 'r call_end = Done | Reply 'r "go_error option"

definition SearcherClient_Search :: "search_result call_end \<Rightarrow> search_result \<times> go_error option" where
  "SearcherClient_Search e =
     (case e of Done \<Rightarrow> (NewSearchResult, Some (NewTimeoutError ''search'')) | Reply sr err \<Rightarrow> (sr, err))"

definition IndexerClient_Index :: "index_result call_end \<Rightarrow> index_result \<times> go_error option" where
  "IndexerClient_Index e =
     (case e of Done \<Rightarrow> (NewIndexResult, Some (NewTimeoutError ''index'')) | Reply ir err \<Rightarrow> (ir, err))"

definition finderClient_Find :: "find_result call_end \<Rightarrow> find_result \<times> go_error option" where
  "finderClient_Find e = (case e of Done \<Rightarrow> (NewFindResult, None) | Reply fr err \<Rightarrow> (fr, err))"

text \<open>A search or an index call whose context ends is a timeout; a find call is an empty success.\<close>

lemma client_timeouts:
  "\<exists>e. snd (SearcherClient_Search Done) = Some e \<and> IsTimeoutError e"
  "\<exists>e. snd (IndexerClient_Index Done) = Some e \<and> IsTimeoutError e"
  "finderClient_Find Done = (NewFindResult, None)"
  by (simp_all add: SearcherClient_Search_def IndexerClient_Index_def finderClient_Find_def go_defs)

end
