(* ===== verification/Closing.thy ===== *)
theory Closing
  imports Prelude
begin

text \<open>
  How a server is closed: \<open>Quit\<close> of \<open>afind/api/server.go\<close>, \<open>Close\<close> and the accept loop of
  \<open>afind/api/rpc_server.go\<close>, as steps of the goroutines involved.

  \<open>Quit\<close> starts a goroutine that sends on the \<open>quit\<close> channel, of capacity one, and then itself
  receives from that channel; the accept loop polls the channel before it accepts, and \<open>Serve\<close> runs
  \<open>Close\<close> when it returns. What is in the channel does not tell for whom it was meant.
\<close>

section \<open>State\<close>

datatype loop_place = Polling | Accepting | Deferred | Ended

text \<open>\<open>q_sending\<close>: goroutines still to send; \<open>q_buf\<close>: the buffer is full; \<open>q_closing\<close>: calls of \<open>Close\<close>,
  other than the deferred one of \<open>Serve\<close>, that wait in \<open>Quit\<close>; \<open>q_listening\<close>: the listener is open.\<close>

record quit_state =
  q_place :: loop_place
  q_sending :: nat
  q_buf :: bool
  q_closing :: nat
  q_listening :: bool

definition serving :: quit_state where
  "serving = \<lparr>q_place = Polling, q_sending = 0, q_buf = False, q_closing = 0, q_listening = True\<rparr>"

text \<open>The start of \<open>Quit\<close>: a goroutine to send, and a caller to wait.\<close>

definition Quit_start :: "quit_state \<Rightarrow> quit_state" where
  "Quit_start s = s\<lparr>q_sending := q_sending s + 1\<rparr>"

section \<open>Steps\<close>

text \<open>The accept loop takes what is in the channel for its own signal to stop.\<close>

inductive take_step :: "quit_state \<Rightarrow> quit_state \<Rightarrow> bool" where
  poll_quit: "q_place s = Polling \<Longrightarrow> q_buf s \<Longrightarrow>
    take_step s (Quit_start (s\<lparr>q_buf := False, q_place := Deferred\<rparr>))"

inductive close_step :: "quit_state \<Rightarrow> quit_state \<Rightarrow> bool" where
  close: "close_step s (Quit_start (s\<lparr>q_closing := q_closing s + 1\<rparr>))"
| send: "q_sending s > 0 \<Longrightarrow> \<not> q_buf s \<Longrightarrow>
    close_step s (s\<lparr>q_sending := q_sending s - 1, q_buf := True\<rparr>)"
| receive: "q_closing s > 0 \<Longrightarrow> q_buf s \<Longrightarrow>
    close_step s (s\<lparr>q_buf := False, q_closing := q_closing s - 1, q_listening := False\<rparr>)"
| receive_deferred: "q_place s = Deferred \<Longrightarrow> q_buf s \<Longrightarrow>
    close_step s (s\<lparr>q_buf := False, q_place := Ended, q_listening := False\<rparr>)"
| poll: "q_place s = Polling \<Longrightarrow> \<not> q_buf s \<Longrightarrow> close_step s (s\<lparr>q_place := Accepting\<rparr>)"
| accept: "q_place s = Accepting \<Longrightarrow> q_listening s \<Longrightarrow> close_step s (s\<lparr>q_place := Polling\<rparr>)"
| accept_fails: "q_place s = Accepting \<Longrightarrow> close_step s (Quit_start (s\<lparr>q_place := Deferred\<rparr>))"

definition quit_step :: "quit_state \<Rightarrow> quit_state \<Rightarrow> bool" where
  "quit_step s s' \<longleftrightarrow> take_step s s' \<or> close_step s s'"

inductive_cases take_stepE: "take_step s s'"
inductive_cases close_stepE: "close_step s s'"

lemma two_close_steps: "close_step s s' \<Longrightarrow> close_step s' s'' \<Longrightarrow> quit_step\<^sup>*\<^sup>* s s''"
  by (meson quit_step_def r_into_rtranclp rtranclp.rtrancl_into_rtrancl)

section \<open>Signals and waiting calls\<close>

definition signals :: "quit_state \<Rightarrow> nat" where
  "signals s = q_sending s + (if q_buf s then 1 else 0)"

definition waiting :: "quit_state \<Rightarrow> nat" where
  "waiting s = q_closing s + (if q_place s = Deferred then 1 else 0)"

lemmas quit_defs = signals_def waiting_def Quit_start_def

lemma close_step_balance: "close_step s s' \<Longrightarrow> int (waiting s') - int (signals s') = int (waiting s) - int (signals s)"
  by (erule close_stepE) (auto simp: quit_defs)

lemma take_step_balance: "take_step s s' \<Longrightarrow> int (waiting s') - int (signals s') = int (waiting s) - int (signals s) + 1"
  by (erule take_stepE) (auto simp: quit_defs)

lemma quit_step_places:
  "quit_step s s' \<Longrightarrow> q_place s \<in> {Deferred, Ended} \<Longrightarrow> q_place s' \<in> {Deferred, Ended} \<and> close_step s s'"
  unfolding quit_step_def by (auto elim!: take_stepE close_stepE simp: Quit_start_def)

lemma quit_run_after:
  assumes "quit_step\<^sup>*\<^sup>* s s'" "q_place s \<in> {Deferred, Ended}"
  shows "q_place s' \<in> {Deferred, Ended} \<and>
    int (waiting s') - int (signals s') = int (waiting s) - int (signals s)"
  using assms
  by (induction rule: rtranclp_induct) (auto dest!: quit_step_places dest: close_step_balance)

lemma close_run_balance:
  "close_step\<^sup>*\<^sup>* s s' \<Longrightarrow> int (waiting s') - int (signals s') = int (waiting s) - int (signals s)"
  by (induction rule: rtranclp_induct) (auto dest: close_step_balance)

lemma quit_run_before:
  assumes "quit_step\<^sup>*\<^sup>* s s'" "q_place s' \<in> {Polling, Accepting}"
  shows "close_step\<^sup>*\<^sup>* s s'"
  using assms
proof (induction rule: rtranclp_induct)
  case (step s1 s2)
  have "q_place s1 \<notin> {Deferred, Ended}"
    using quit_step_places [OF step.hyps(2)] step.prems by auto
  then have "q_place s1 \<in> {Polling, Accepting}" by (cases "q_place s1") auto
  moreover have "\<not> take_step s1 s2" using step.prems by (auto elim!: take_stepE simp: Quit_start_def)
  ultimately show ?case using step by (auto simp: quit_step_def intro: rtranclp.rtrancl_into_rtrancl)
qed simp

text \<open>C38. When the accept loop itself takes a signal, one signal is missing for good: from then on,
  whatever happens and however often the server is closed again, some call of \<open>Close\<close> (the deferred
  one of \<open>Serve\<close> included) is still waiting, so not all of them ever return.\<close>

theorem quit_signal_lost:
  assumes "quit_step\<^sup>*\<^sup>* serving s" "take_step s s1" "quit_step\<^sup>*\<^sup>* s1 s2"
  shows "waiting s2 = signals s2 + 1"
proof -
  have "q_place s = Polling" using assms(2) by (auto elim: take_stepE)
  then have "close_step\<^sup>*\<^sup>* serving s" using quit_run_before [OF assms(1)] by simp
  then have "int (waiting s) - int (signals s) = 0"
    by (drule_tac close_run_balance) (simp add: quit_defs serving_def)
  then have "int (waiting s1) - int (signals s1) = 1" using take_step_balance [OF assms(2)] by simp
  moreover have "q_place s1 \<in> {Deferred, Ended}" using assms(2) by (auto elim!: take_stepE simp: Quit_start_def)
  ultimately show ?thesis using quit_run_after [OF assms(3)] by simp
qed

text \<open>Taken at the poll that follows a call of \<open>Close\<close>: the deferred call then takes the second
  signal, and the first call waits for ever.\<close>

lemma quit_signal_lost_witness:
  "\<exists>s s1 s2. quit_step\<^sup>*\<^sup>* serving s \<and> take_step s s1 \<and> quit_step\<^sup>*\<^sup>* s1 s2 \<and>
    q_place s2 = Ended \<and> q_closing s2 = 1 \<and> signals s2 = 0"
proof -
  let ?a = "\<lparr>q_place = Polling, q_sending = 1, q_buf = False, q_closing = 1, q_listening = True\<rparr>"
  let ?s = "\<lparr>q_place = Polling, q_sending = 0, q_buf = True, q_closing = 1, q_listening = True\<rparr>"
  let ?s1 = "\<lparr>q_place = Deferred, q_sending = 1, q_buf = False, q_closing = 1, q_listening = True\<rparr>"
  let ?b = "\<lparr>q_place = Deferred, q_sending = 0, q_buf = True, q_closing = 1, q_listening = True\<rparr>"
  let ?s2 = "\<lparr>q_place = Ended, q_sending = 0, q_buf = False, q_closing = 1, q_listening = False\<rparr>"
  have "close_step serving ?a" using close [of serving] by (simp add: serving_def Quit_start_def)
  moreover have "close_step ?a ?s" using send [of ?a] by simp
  ultimately have s: "quit_step\<^sup>*\<^sup>* serving ?s" by (rule two_close_steps)
  have t: "take_step ?s ?s1" using poll_quit [of ?s] by (simp add: Quit_start_def)
  have "close_step ?s1 ?b" using send [of ?s1] by simp
  moreover have "close_step ?b ?s2" using receive_deferred [of ?b] by simp
  ultimately have s2: "quit_step\<^sup>*\<^sup>* ?s1 ?s2" by (rule two_close_steps)
  have "waiting ?s2 = signals ?s2 + 1" using quit_signal_lost [OF s t s2] .
  then have "signals ?s2 = 0" by (simp add: waiting_def)
  with s t s2 show ?thesis by fastforce
qed

section \<open>Otherwise every call returns\<close>

lemma drain:
  assumes "waiting s = signals s"
  shows "\<exists>s'. close_step\<^sup>*\<^sup>* s s' \<and> waiting s' = 0 \<and> (waiting s > 0 \<longrightarrow> \<not> q_listening s')"
  using assms
proof (induction "waiting s" arbitrary: s)
  case 0
  then show ?case by auto
next
  case (Suc n)
  have "\<exists>s1. close_step\<^sup>*\<^sup>* s s1 \<and> q_buf s1 \<and> waiting s1 = waiting s \<and> signals s1 = signals s"
  proof (cases "q_buf s")
    case False
    with Suc have "q_sending s > 0" by (simp add: signals_def)
    with send [OF this False] False show ?thesis
      by (intro exI [of _ "s\<lparr>q_sending := q_sending s - 1, q_buf := True\<rparr>"]) (auto simp: quit_defs)
  qed auto
  then obtain s1 where s1: "close_step\<^sup>*\<^sup>* s s1" "q_buf s1" "waiting s1 = Suc n" "signals s1 = Suc n"
    using Suc by auto
  have "\<exists>s2. close_step s1 s2 \<and> waiting s2 = n \<and> signals s2 = n \<and> \<not> q_listening s2"
  proof (cases "q_closing s1 > 0")
    case True
    with receive [OF True s1(2)] s1 show ?thesis
      by (intro exI [of _ "s1\<lparr>q_buf := False, q_closing := q_closing s1 - 1, q_listening := False\<rparr>"])
        (auto simp: quit_defs)
  next
    case False
    with s1(3) have "q_place s1 = Deferred" by (auto simp: waiting_def split: if_splits)
    with receive_deferred [OF this s1(2)] s1 False show ?thesis
      by (intro exI [of _ "s1\<lparr>q_buf := False, q_place := Ended, q_listening := False\<rparr>"])
        (auto simp: quit_defs)
  qed
  then obtain s2 where s2: "close_step s1 s2" "waiting s2 = n" "signals s2 = n" "\<not> q_listening s2" by blast
  obtain s' where s': "close_step\<^sup>*\<^sup>* s2 s'" "waiting s' = 0" "waiting s2 > 0 \<longrightarrow> \<not> q_listening s'"
    using Suc.hyps(1) [of s2] s2 by auto
  have "\<not> q_listening s'"
    using s'(1) s2(4) by (induction rule: rtranclp_induct) (auto elim!: close_stepE simp: Quit_start_def)
  with s1(1) s2(1) s'(1,2) show ?case
    by (meson converse_rtranclp_into_rtranclp rtranclp_trans)
qed

text \<open>As long as the loop takes no signal, every waiting call of \<open>Close\<close> can return, with the listener
  closed.\<close>

theorem closes_return:
  assumes "close_step\<^sup>*\<^sup>* serving s"
  shows "\<exists>s'. close_step\<^sup>*\<^sup>* s s' \<and> waiting s' = 0 \<and> (waiting s > 0 \<longrightarrow> \<not> q_listening s')"
  using close_run_balance [OF assms] by (intro drain) (simp add: quit_defs serving_def)

end
