(* ===== verification/Counters.thy ===== *)
theory Counters
  imports Prelude
begin

text \<open>
  \<open>counters/counters.go\<close>: a map of named 64-bit counters that one goroutine, \<open>loop\<close>, owns and the
  callers of \<open>Inc\<close>, \<open>Get\<close>, \<open>GetAll\<close> and \<open>Close\<close> reach through channels.

  The state holds the map, the goroutine's place in its loop and the requests in the channels:
  \<open>c_get\<close> and \<open>c_getall\<close> are the buffers of \<open>chGet\<close> and \<open>chGetAll\<close> followed by the senders blocked
  on them (the buffer is the part up to the channel's capacity), \<open>c_inc\<close> and \<open>c_quit\<close> the senders
  blocked on the unbuffered \<open>chInc\<close> and \<open>chQuit\<close>, in any order. Every reply channel is named by the
  number of its call. \<open>ctr_step\<close> is one step of a caller or of the goroutine; its label is what a
  client can see of it. A send on a closed channel panics, which ends the program: \<open>Crashed\<close>.
\<close>

section \<open>State\<close>

type_synonym ctrmap = "(string, uint64) gomap"

datatype place = AtQuit | AtInc | AtGet | Stopped | Crashed

record counters =
  c_ctr :: ctrmap
  c_place :: place
  c_get :: "(nat \<times> string) list"
  c_getall :: "nat list"
  c_inc :: "(string \<times> uint64) list"
  c_quit :: "nat list"

definition chGetDepth :: nat where [go_defs]: "chGetDepth = 100"
definition chGetAllDepth :: nat where [go_defs]: "chGetAllDepth = 100"

definition New :: counters where
  "New = \<lparr>c_ctr = [], c_place = AtQuit, c_get = [], c_getall = [], c_inc = [], c_quit = []\<rparr>"

definition ctr_value :: "ctrmap \<Rightarrow> string \<Rightarrow> uint64" where
  "ctr_value m k = (case map_of m k of Some v \<Rightarrow> v | None \<Rightarrow> 0)"

text \<open>The copy of the map that \<open>GetAll\<close> is answered with.\<close>

definition ctr_copy :: "ctrmap \<Rightarrow> ctrmap" where
  "ctr_copy m = gm_copy m []"

datatype event =
    CallInc string uint64
  | CallGet nat string
  | CallGetAll nat
  | CallClose nat
  | IncDone string uint64
  | GetReply nat string uint64
  | GetAllReply nat ctrmap
  | CloseReply nat
  | SendPanic
  | Loop

definition closed :: "counters \<Rightarrow> bool" where
  "closed s \<longleftrightarrow> c_place s = Stopped"

section \<open>The calls\<close>

definition Inc :: "string \<Rightarrow> uint64 \<Rightarrow> counters \<Rightarrow> event \<times> counters" where
  "Inc key amount s =
    (if key \<noteq> [] \<and> amount > 0
     then if closed s then (SendPanic, s\<lparr>c_place := Crashed\<rparr>)
          else (CallInc key amount, s\<lparr>c_inc := c_inc s @ [(key, amount)]\<rparr>)
     else (Loop, s))"

definition Get :: "nat \<Rightarrow> string \<Rightarrow> counters \<Rightarrow> event \<times> counters" where
  "Get i key s =
    (if key = [] then (GetReply i key 0, s)
     else if closed s then (SendPanic, s\<lparr>c_place := Crashed\<rparr>)
     else (CallGet i key, s\<lparr>c_get := c_get s @ [(i, key)]\<rparr>))"

definition GetAll :: "nat \<Rightarrow> counters \<Rightarrow> event \<times> counters" where
  "GetAll i s =
    (if closed s then (SendPanic, s\<lparr>c_place := Crashed\<rparr>)
     else (CallGetAll i, s\<lparr>c_getall := c_getall s @ [i]\<rparr>))"

definition Close :: "nat \<Rightarrow> counters \<Rightarrow> event \<times> counters" where
  "Close i s = (CallClose i, s\<lparr>c_quit := c_quit s @ [i]\<rparr>)"

text \<open>\<open>close\<close> closes the three request channels; every sender blocked on one of them panics.\<close>

definition close_channels :: "counters \<Rightarrow> bool" where
  "close_channels s \<longleftrightarrow>
    c_inc s = [] \<and> length (c_get s) \<le> chGetDepth \<and> length (c_getall s) \<le> chGetAllDepth"

definition add_ctr :: "string \<Rightarrow> uint64 \<Rightarrow> ctrmap \<Rightarrow> ctrmap" where
  "add_ctr k v m = gm_put k (ctr_value m k + v) m"

section \<open>The steps\<close>

inductive loop_step :: "counters \<Rightarrow> event \<Rightarrow> counters \<Rightarrow> bool" where
  quit: "c_place s = AtQuit \<Longrightarrow> c_quit s = qs @ q # rs \<Longrightarrow> close_channels s \<Longrightarrow>
    loop_step s (CloseReply q) (s\<lparr>c_place := Stopped, c_quit := qs @ rs\<rparr>)"
| quit_panic: "c_place s = AtQuit \<Longrightarrow> c_quit s = qs @ q # rs \<Longrightarrow> \<not> close_channels s \<Longrightarrow>
    loop_step s SendPanic (s\<lparr>c_place := Crashed, c_quit := qs @ rs\<rparr>)"
| no_quit: "c_place s = AtQuit \<Longrightarrow> c_quit s = [] \<Longrightarrow> loop_step s Loop (s\<lparr>c_place := AtInc\<rparr>)"
| inc: "c_place s = AtInc \<Longrightarrow> c_inc s = xs @ (k, v) # ys \<Longrightarrow> k \<noteq> [] \<Longrightarrow>
    loop_step s (IncDone k v)
      (s\<lparr>c_place := AtQuit, c_inc := xs @ ys, c_ctr := add_ctr k v (c_ctr s)\<rparr>)"
| inc_empty: "c_place s = AtInc \<Longrightarrow> c_inc s = xs @ ([], v) # ys \<Longrightarrow>
    loop_step s (IncDone [] v) (s\<lparr>c_place := AtGet, c_inc := xs @ ys\<rparr>)"
| no_inc: "c_place s = AtInc \<Longrightarrow> c_inc s = [] \<Longrightarrow> loop_step s Loop (s\<lparr>c_place := AtGet\<rparr>)"
| get: "c_place s = AtGet \<Longrightarrow> c_get s = (i, k) # gs \<Longrightarrow>
    loop_step s (GetReply i k (ctr_value (c_ctr s) k)) (s\<lparr>c_place := AtQuit, c_get := gs\<rparr>)"
| getall: "c_place s = AtGet \<Longrightarrow> c_getall s = i # is \<Longrightarrow>
    loop_step s (GetAllReply i (ctr_copy (c_ctr s))) (s\<lparr>c_place := AtQuit, c_getall := is\<rparr>)"
| no_get: "c_place s = AtGet \<Longrightarrow> c_get s = [] \<Longrightarrow> c_getall s = [] \<Longrightarrow>
    loop_step s Loop (s\<lparr>c_place := AtQuit\<rparr>)"

inductive call_step :: "counters \<Rightarrow> event \<Rightarrow> counters \<Rightarrow> bool" where
  call_inc: "c_place s \<noteq> Crashed \<Longrightarrow> Inc k v s = (e, s') \<Longrightarrow> call_step s e s'"
| call_get: "c_place s \<noteq> Crashed \<Longrightarrow> Get i k s = (e, s') \<Longrightarrow> call_step s e s'"
| call_getall: "c_place s \<noteq> Crashed \<Longrightarrow> GetAll i s = (e, s') \<Longrightarrow> call_step s e s'"
| call_close: "c_place s \<noteq> Crashed \<Longrightarrow> Close i s = (e, s') \<Longrightarrow> call_step s e s'"

definition ctr_step :: "counters \<Rightarrow> event \<Rightarrow> counters \<Rightarrow> bool" where
  "ctr_step s e s' \<longleftrightarrow> loop_step s e s' \<or> call_step s e s'"

inductive run :: "(counters \<Rightarrow> event \<Rightarrow> counters \<Rightarrow> bool) \<Rightarrow> counters \<Rightarrow> event list \<Rightarrow> counters \<Rightarrow> bool"
  for step s where
  stay: "run step s [] s"
| more: "run step s es s' \<Longrightarrow> step s' e s'' \<Longrightarrow> run step s (es @ [e]) s''"

inductive_cases loop_stepE: "loop_step s e s'"
inductive_cases call_stepE: "call_step s e s'"

section \<open>What the counters count\<close>

lemma run_split: "run step s (es1 @ es2) s'' \<Longrightarrow> \<exists>s'. run step s es1 s' \<and> run step s' es2 s''"
proof (induction es2 arbitrary: s'' rule: rev_induct)
  case Nil
  then show ?case using run.stay by auto
next
  case (snoc e es2)
  from snoc.prems obtain s1 where "run step s (es1 @ es2) s1" "step s1 e s''"
    by (auto elim: run.cases)
  then show ?case using snoc.IH run.more by blast
qed

lemma run_first: "run step s (e # es) s'' \<Longrightarrow> \<exists>s'. step s e s' \<and> run step s' es s''"
proof -
  assume "run step s (e # es) s''"
  then obtain s' where s': "run step s [e] s'" "run step s' es s''"
    using run_split [of step s "[e]" es s''] by auto
  from s'(1) have "step s e s'" by cases (auto elim: run.cases)
  with s'(2) show ?thesis by blast
qed

definition amount_of :: "string \<Rightarrow> (string \<times> uint64) \<Rightarrow> uint64" where
  "amount_of k = (\<lambda>(k', v). if k' = k then v else 0)"

fun accepted :: "string \<Rightarrow> event \<Rightarrow> uint64" where
  "accepted k (IncDone k' v) = amount_of k (k', v)"
| "accepted k _ = 0"

fun requested :: "string \<Rightarrow> event \<Rightarrow> uint64" where
  "requested k (CallInc k' v) = amount_of k (k', v)"
| "requested k _ = 0"

text \<open>Everything that can be said of a state from the labels of the steps that led to it.\<close>

definition ctr_inv :: "event list \<Rightarrow> counters \<Rightarrow> bool" where
  "ctr_inv es s \<longleftrightarrow> gm_ok (c_ctr s) \<and> ctr_value (c_ctr s) [] = 0 \<and>
    (\<forall>p \<in> set (c_inc s). fst p \<noteq> []) \<and> (\<forall>p \<in> set (c_get s). snd p \<noteq> []) \<and>
    (\<forall>k. ctr_value (c_ctr s) k = sum_list (map (accepted k) es)) \<and>
    (\<forall>k. sum_list (map (requested k) es) =
       sum_list (map (accepted k) es) + sum_list (map (amount_of k) (c_inc s)))"

lemma ctr_value_put [simp]: "ctr_value (gm_put k v m) k' = (if k' = k then v else ctr_value m k')"
  by (simp add: ctr_value_def)

lemma ctr_inv_New: "ctr_inv [] New"
  by (simp add: ctr_inv_def New_def ctr_value_def)

lemma ctr_inv_loop: "loop_step s e s' \<Longrightarrow> ctr_inv es s \<Longrightarrow> ctr_inv (es @ [e]) s'"
  by (cases rule: loop_step.cases)
     (auto simp: ctr_inv_def add_ctr_def amount_of_def ac_simps go_wf)

lemma ctr_inv_call: "call_step s e s' \<Longrightarrow> ctr_inv es s \<Longrightarrow> ctr_inv (es @ [e]) s'"
  by (cases rule: call_step.cases)
     (auto simp: ctr_inv_def Inc_def Get_def GetAll_def Close_def amount_of_def ac_simps
       split: if_splits)

lemma ctr_inv_run: "run ctr_step New es s \<Longrightarrow> ctr_inv es s"
  by (induction rule: run.induct)
     (auto simp: ctr_inv_New ctr_step_def intro: ctr_inv_loop ctr_inv_call)

lemma run_last: "run step s (es @ [e]) s'' \<Longrightarrow> \<exists>s'. run step s es s' \<and> step s' e s''"
  by (auto elim: run.cases)

lemma ctr_reply:
  assumes "run ctr_step New (es1 @ e # es2) s"
  obtains s1 s2 where "ctr_inv es1 s1" "ctr_step s1 e s2" "run ctr_step s2 es2 s"
proof -
  obtain s1 where "run ctr_step New es1 s1" "run ctr_step s1 (e # es2) s"
    using run_split assms by blast
  then show thesis using that ctr_inv_run run_first by blast
qed

lemma reply_values:
  assumes "ctr_step s e s'" "ctr_inv es s"
  shows "case e of GetReply i k v \<Rightarrow> v = ctr_value (c_ctr s) k
    | GetAllReply i m \<Rightarrow> \<forall>k. ctr_value m k = ctr_value (c_ctr s) k | _ \<Rightarrow> True"
  using assms unfolding ctr_step_def
  by (auto elim!: loop_stepE call_stepE simp: Inc_def Get_def GetAll_def Close_def ctr_inv_def
        ctr_copy_def map_of_gm_copy ctr_value_def split: if_splits)

text \<open>C39. Whatever the callers do and however their calls interleave with the goroutine, \<open>Get\<close> is
  answered with the sum, modulo 2 to the power 64, of the amounts of that key which the goroutine
  has accepted before it answers, and \<open>GetAll\<close> with a map of those sums; an increment is accepted
  at the moment its \<open>Inc\<close> returns, so a caller reads its own increments.\<close>

theorem counters_read_sums:
  assumes "run ctr_step New (es1 @ e # es2) s"
  shows "case e of GetReply i k v \<Rightarrow> v = sum_list (map (accepted k) es1)
    | GetAllReply i m \<Rightarrow> \<forall>k. ctr_value m k = sum_list (map (accepted k) es1) | _ \<Rightarrow> True"
proof -
  obtain s1 s2 where s1: "ctr_inv es1 s1" "ctr_step s1 e s2"
    using assms by (rule ctr_reply)
  then show ?thesis using reply_values [OF s1(2,1)] by (auto simp: ctr_inv_def split: event.splits)
qed

section \<open>Running a schedule\<close>

text \<open>One iteration step of the goroutine that serves the sender that waits longest; in \<open>AtGet\<close> a
  \<open>Get\<close> before a \<open>GetAll\<close>. It is one of the steps of \<open>loop_step\<close>, and the goroutine always has one
  until it is stopped.\<close>

definition loop_once :: "counters \<Rightarrow> (event \<times> counters) option" where
  "loop_once s = (case c_place s of
      AtQuit \<Rightarrow> (case c_quit s of
          [] \<Rightarrow> Some (Loop, s\<lparr>c_place := AtInc\<rparr>)
        | q # qs \<Rightarrow>
            if close_channels s then Some (CloseReply q, s\<lparr>c_place := Stopped, c_quit := qs\<rparr>)
            else Some (SendPanic, s\<lparr>c_place := Crashed, c_quit := qs\<rparr>))
    | AtInc \<Rightarrow> (case c_inc s of
          [] \<Rightarrow> Some (Loop, s\<lparr>c_place := AtGet\<rparr>)
        | (k, v) # ps \<Rightarrow>
            if k \<noteq> [] then
              Some (IncDone k v, s\<lparr>c_place := AtQuit, c_inc := ps, c_ctr := add_ctr k v (c_ctr s)\<rparr>)
            else Some (IncDone k v, s\<lparr>c_place := AtGet, c_inc := ps\<rparr>))
    | AtGet \<Rightarrow> (case c_get s of
          (i, k) # gs \<Rightarrow>
            Some (GetReply i k (ctr_value (c_ctr s) k), s\<lparr>c_place := AtQuit, c_get := gs\<rparr>)
        | [] \<Rightarrow> (case c_getall s of
              i # is \<Rightarrow> Some (GetAllReply i (ctr_copy (c_ctr s)), s\<lparr>c_place := AtQuit, c_getall := is\<rparr>)
            | [] \<Rightarrow> Some (Loop, s\<lparr>c_place := AtQuit\<rparr>)))
    | _ \<Rightarrow> None)"

lemma loop_once_step: "loop_once s = Some (e, s') \<Longrightarrow> loop_step s e s'"
  by (auto simp: loop_once_def split: place.splits list.splits if_splits
      intro: loop_step.intros loop_step.quit [where qs = "[]", simplified]
        loop_step.quit_panic [where qs = "[]", simplified] loop_step.inc [where xs = "[]", simplified]
        loop_step.inc_empty [where xs = "[]", simplified])

lemma loop_once_None: "loop_once s = None \<longleftrightarrow> c_place s \<in> {Stopped, Crashed}"
  by (auto simp: loop_once_def split: place.splits list.splits)

datatype action = DoInc string uint64 | DoGet nat string | DoGetAll nat | DoClose nat | DoLoop

definition perform :: "action \<Rightarrow> counters \<Rightarrow> (event \<times> counters) option" where
  "perform a s = (case a of
      DoLoop \<Rightarrow> loop_once s
    | DoInc k v \<Rightarrow> if c_place s = Crashed then None else Some (Inc k v s)
    | DoGet i k \<Rightarrow> if c_place s = Crashed then None else Some (Get i k s)
    | DoGetAll i \<Rightarrow> if c_place s = Crashed then None else Some (GetAll i s)
    | DoClose i \<Rightarrow> if c_place s = Crashed then None else Some (Close i s))"

fun perform_all :: "action list \<Rightarrow> counters \<Rightarrow> (event list \<times> counters) option" where
  "perform_all [] s = Some ([], s)"
| "perform_all (a # as) s = (case perform a s of
      None \<Rightarrow> None
    | Some (e, s') \<Rightarrow> (case perform_all as s' of
          None \<Rightarrow> None
        | Some (es, s'') \<Rightarrow> Some (e # es, s'')))"

lemma perform_step: "perform a s = Some (e, s') \<Longrightarrow> ctr_step s e s'"
  by (auto simp: perform_def ctr_step_def split: action.splits if_splits
      intro: call_step.intros loop_once_step)

lemma step_run: "step s e s' \<Longrightarrow> run step s' es s'' \<Longrightarrow> run step s (e # es) s''"
proof (induction es arbitrary: s'' rule: rev_induct)
  case Nil
  then show ?case using run.more [OF run.stay, of step s e s'] by (auto elim: run.cases)
next
  case (snoc x es)
  then obtain s1 where "run step s' es s1" "step s1 x s''" using run_last by metis
  then show ?case using snoc.IH snoc.prems(1) run.more [of step s "e # es" s1 x s''] by auto
qed

lemma perform_all_run: "perform_all as s = Some (es, s') \<Longrightarrow> run ctr_step s es s'"
proof (induction as arbitrary: s es)
  case (Cons a as)
  then obtain e s1 es' where "perform a s = Some (e, s1)" "perform_all as s1 = Some (es', s')" "es = e # es'"
    by (auto split: option.splits)
  then show ?case using Cons.IH perform_step step_run by blast
qed (simp add: run.stay)

text \<open>Two increments of one key wrap around; a third, asked for before the reply but accepted after
  it, is not counted.\<close>

lemma counters_read_sums_witness:
  "\<exists>s es. run ctr_step New es s \<and>
    (\<exists>es1 es2 v. es = es1 @ GetReply 7 ''x'' v # es2 \<and> v = 2 \<and>
      v = sum_list (map (accepted ''x'') es1)) \<and> CallInc ''x'' 5 \<in> set es"
proof -
  let ?as = "[DoInc ''x'' 18446744073709551615, DoLoop, DoLoop, DoInc ''x'' 3, DoLoop, DoLoop,
     DoGet 7 ''x'', DoLoop, DoLoop, DoInc ''x'' 5, DoLoop]"
  let ?es = "[CallInc ''x'' 18446744073709551615, Loop, IncDone ''x'' 18446744073709551615,
     CallInc ''x'' 3, Loop, IncDone ''x'' 3, CallGet 7 ''x'', Loop, Loop, CallInc ''x'' 5]"
  have "\<exists>s. perform_all ?as New = Some (?es @ [GetReply 7 ''x'' 2], s)"
    by (simp add: New_def perform_def Inc_def Get_def loop_once_def closed_def add_ctr_def
        word_gt_0 gm_put_def ctr_value_def)
  then have "\<exists>s. run ctr_step New (?es @ GetReply 7 ''x'' 2 # []) s"
    by (blast dest: perform_all_run)
  then obtain s where "run ctr_step New (?es @ GetReply 7 ''x'' 2 # []) s" ..
  then show ?thesis
    using counters_read_sums [of ?es "GetReply 7 ''x'' 2" "[]" s]
    by (intro exI [of _ s] exI [of _ "?es @ [GetReply 7 ''x'' 2]"] conjI exI [of _ ?es] exI [of _ "[]"]
        exI [of _ "2 :: uint64"]) (auto simp: amount_of_def)
qed

section \<open>Nothing is lost, and everything is answered\<close>

text \<open>No increment is lost or counted twice: at every moment the counter of a key together with
  the increments still waiting is the sum of everything asked for, modulo 2 to the power 64.\<close>

theorem increments_conserved:
  assumes "run ctr_step New es s"
  shows "ctr_value (c_ctr s) k + sum_list (map (amount_of k) (c_inc s))
    = sum_list (map (requested k) es)"
  using ctr_inv_run [OF assms] by (simp add: ctr_inv_def)

lemma increments_conserved_witness:
  "\<exists>s. run ctr_step New [CallInc ''x'' 18446744073709551615, Loop, IncDone ''x'' 18446744073709551615,
      CallInc ''x'' 3] s \<and>
    ctr_value (c_ctr s) ''x'' + sum_list (map (amount_of ''x'') (c_inc s)) = 2"
proof -
  let ?es = "[CallInc ''x'' 18446744073709551615, Loop, IncDone ''x'' 18446744073709551615, CallInc ''x'' 3]"
  have "\<exists>s. perform_all [DoInc ''x'' 18446744073709551615, DoLoop, DoLoop, DoInc ''x'' 3] New
      = Some (?es, s)"
    by (simp add: New_def perform_def Inc_def loop_once_def closed_def word_gt_0)
  then have "\<exists>s. run ctr_step New ?es s" by (blast dest: perform_all_run)
  then obtain s where s: "run ctr_step New ?es s" ..
  then show ?thesis using increments_conserved [OF s, of "''x''"]
    by (intro exI [of _ s]) (simp add: amount_of_def)
qed

definition idle :: "counters \<Rightarrow> bool" where
  "idle s \<longleftrightarrow> c_inc s = [] \<and> c_get s = [] \<and> c_getall s = []"

text \<open>The steps the goroutine needs at most before nothing waits.\<close>

definition work :: "counters \<Rightarrow> nat" where
  "work s = (if idle s then 0 else
     2 * length (c_inc s) + 3 * (length (c_get s) + length (c_getall s)) +
     (case c_place s of AtQuit \<Rightarrow> 2 | AtInc \<Rightarrow> 1
       | _ \<Rightarrow> if c_get s = [] \<and> c_getall s = [] then 3 else 0))"

definition serving :: "counters \<Rightarrow> bool" where
  "serving s \<longleftrightarrow> c_quit s = [] \<and> c_place s \<in> {AtQuit, AtInc, AtGet} \<and> (\<forall>p \<in> set (c_inc s). fst p \<noteq> [])"

lemma loop_step_work:
  assumes "loop_step s e s'" "serving s"
  shows "work s' \<le> work s - 1" "serving s'"
  using assms by (cases rule: loop_step.cases; auto simp: work_def idle_def serving_def)+

lemma loop_run_work:
  "run loop_step s es s' \<Longrightarrow> serving s \<Longrightarrow> work s' \<le> work s - length es \<and> serving s'"
proof (induction rule: run.induct)
  case (more es s' e s'')
  then have "work s'' \<le> work s' - 1" "serving s''" "work s' \<le> work s - length es"
    using loop_step_work by auto
  then show ?case by auto
qed simp

lemma work_0: "work s = 0 \<Longrightarrow> serving s \<Longrightarrow> idle s"
  by (auto simp: work_def serving_def split: if_splits place.splits)

lemma work_le: "work s \<le> 2 * length (c_inc s) + 3 * (length (c_get s) + length (c_getall s)) + 3"
  by (auto simp: work_def split: place.splits)

lemma serving_reachable:
  "run ctr_step New es s \<Longrightarrow> c_quit s = [] \<Longrightarrow> c_place s \<notin> {Stopped, Crashed} \<Longrightarrow> serving s"
  using ctr_inv_run [of es s] by (cases "c_place s") (auto simp: serving_def ctr_inv_def)

lemma serving_progress: "serving s \<Longrightarrow> \<exists>e s'. loop_step s e s'"
proof -
  assume "serving s"
  then have "loop_once s \<noteq> None" unfolding loop_once_None serving_def by auto
  then show ?thesis using loop_once_step by fastforce
qed

lemma loop_runs: "serving s \<Longrightarrow> \<exists>ls s'. length ls = n \<and> run loop_step s ls s'"
proof (induction n)
  case 0
  then show ?case using run.stay by auto
next
  case (Suc n)
  then obtain ls s' where ls: "length ls = n" "run loop_step s ls s'" by auto
  then obtain e s'' where "loop_step s' e s''"
    using serving_progress loop_run_work Suc.prems by blast
  then show ?case using run.more [OF ls(2)] ls(1) by (intro exI [of _ "ls @ [e]"]) auto
qed

text \<open>What waits keeps waiting until it is answered.\<close>

definition waits_or_answered :: "counters \<Rightarrow> event list \<Rightarrow> counters \<Rightarrow> bool" where
  "waits_or_answered s ls s' \<longleftrightarrow>
    (\<forall>(k, v) \<in> set (c_inc s). (k, v) \<in> set (c_inc s') \<or> IncDone k v \<in> set ls) \<and>
    (\<forall>(i, k) \<in> set (c_get s). (i, k) \<in> set (c_get s') \<or> (\<exists>v. GetReply i k v \<in> set ls)) \<and>
    (\<forall>i \<in> set (c_getall s). i \<in> set (c_getall s') \<or> (\<exists>m. GetAllReply i m \<in> set ls))"

lemma loop_step_keeps: "loop_step s e s' \<Longrightarrow> waits_or_answered s [e] s'"
  by (cases rule: loop_step.cases) (auto simp: waits_or_answered_def)

lemma loop_run_keeps: "run loop_step s ls s' \<Longrightarrow> waits_or_answered s ls s'"
proof (induction rule: run.induct)
  case stay
  then show ?case by (auto simp: waits_or_answered_def)
next
  case (more es s' e s'')
  from loop_step_keeps [OF more.hyps(2)] more.IH show ?case
    unfolding waits_or_answered_def by (auto split: prod.splits) metis+
qed

text \<open>C40. Once the callers pause, the goroutine never blocks, and after two steps for each waiting
  increment, three for each waiting read and three more, whatever it chooses to receive first,
  every increment has been accepted and every read answered. (Only then: as long as increments
  keep arriving the goroutine goes back to its loop's head and reads may starve.)\<close>

theorem counters_serve_all:
  assumes "run ctr_step New es s" "c_quit s = []" "c_place s \<notin> {Stopped, Crashed}"
    and "n \<ge> 2 * length (c_inc s) + 3 * (length (c_get s) + length (c_getall s)) + 3"
  shows "(\<exists>ls s'. length ls = n \<and> run loop_step s ls s') \<and>
    (\<forall>ls s'. length ls = n \<and> run loop_step s ls s' \<longrightarrow>
      (\<forall>(k, v) \<in> set (c_inc s). IncDone k v \<in> set ls) \<and>
      (\<forall>(i, k) \<in> set (c_get s). \<exists>v. GetReply i k v \<in> set ls) \<and>
      (\<forall>i \<in> set (c_getall s). \<exists>m. GetAllReply i m \<in> set ls))"
proof (intro conjI allI impI; (elim conjE)?)
  have serving: "serving s" using assms(1-3) by (rule serving_reachable)
  then show "\<exists>ls s'. length ls = n \<and> run loop_step s ls s'" by (rule loop_runs)
  fix ls s'
  assume ls: "length ls = n" "run loop_step s ls s'"
  have "work s' = 0" "serving s'"
    using loop_run_work [OF ls(2) serving] work_le [of s] assms(4) ls(1) by auto
  then have "idle s'" by (rule work_0)
  then show "\<forall>(k, v) \<in> set (c_inc s). IncDone k v \<in> set ls"
    "\<forall>(i, k) \<in> set (c_get s). \<exists>v. GetReply i k v \<in> set ls"
    "\<forall>i \<in> set (c_getall s). \<exists>m. GetAllReply i m \<in> set ls"
    using loop_run_keeps [OF ls(2)] by (auto simp: waits_or_answered_def idle_def)
qed

lemma counters_serve_all_witness:
  "\<exists>s ls s' v. run ctr_step New [CallInc ''x'' 1, CallGet 4 ''x''] s \<and> length ls = 8 \<and>
    run loop_step s ls s' \<and> IncDone ''x'' 1 \<in> set ls \<and> GetReply 4 ''x'' v \<in> set ls"
proof -
  let ?s = "New\<lparr>c_inc := [(''x'', 1)], c_get := [(4, ''x'')]\<rparr>"
  have r: "run ctr_step New [CallInc ''x'' 1, CallGet 4 ''x''] ?s"
    by (rule perform_all_run [of "[DoInc ''x'' 1, DoGet 4 ''x'']"])
       (simp add: New_def perform_def Inc_def Get_def closed_def word_gt_0)
  have "c_quit ?s = []" "c_place ?s \<notin> {Stopped, Crashed}"
    "8 \<ge> 2 * length (c_inc ?s) + 3 * (length (c_get ?s) + length (c_getall ?s)) + 3"
    by (simp_all add: New_def)
  note all = counters_serve_all [OF r this]
  obtain ls s' where ls: "length ls = 8" "run loop_step ?s ls s'"
    using all by blast
  moreover have "IncDone ''x'' 1 \<in> set ls" "\<exists>v. GetReply 4 ''x'' v \<in> set ls"
    using conjunct2 [OF all, rule_format, of ls s'] ls by simp_all
  ultimately show ?thesis using r by blast
qed

section \<open>Closing\<close>

fun served_after_close :: "event \<Rightarrow> bool" where
  "served_after_close (IncDone k v) = True"
| "served_after_close (GetReply i k v) = (k \<noteq> [])"
| "served_after_close (GetAllReply i m) = True"
| "served_after_close (CloseReply i) = True"
| "served_after_close (CallInc k v) = True"
| "served_after_close (CallGet i k) = True"
| "served_after_close (CallGetAll i) = True"
| "served_after_close _ = False"

lemma stopped_step:
  "ctr_step s e s' \<Longrightarrow> c_place s \<in> {Stopped, Crashed} \<Longrightarrow>
    c_place s' \<in> {Stopped, Crashed} \<and> \<not> served_after_close e"
  unfolding ctr_step_def
  by (auto elim!: loop_stepE call_stepE simp: Inc_def Get_def GetAll_def Close_def closed_def split: if_splits)

lemma stopped_run:
  "run ctr_step s es s' \<Longrightarrow> c_place s \<in> {Stopped, Crashed} \<Longrightarrow>
    c_place s' \<in> {Stopped, Crashed} \<and> (\<forall>e \<in> set es. \<not> served_after_close e)"
  by (induction rule: run.induct) (auto dest: stopped_step)

text \<open>A \<open>Close\<close> that returns ends the service: nothing is accepted or answered afterwards, the
  requests still in the buffers of \<open>Get\<close> and \<open>GetAll\<close> and every other \<open>Close\<close> included, whose callers
  wait for ever; and the calls that come later panic instead of returning (except for an empty
  name or amount, which no request is made for).\<close>

theorem close_ends_service:
  assumes "run ctr_step New (es1 @ CloseReply c # es2) s"
  shows "(\<forall>e \<in> set es2. \<not> served_after_close e) \<and>
    (c_place s = Stopped \<longrightarrow>
      (\<forall>k v. k \<noteq> [] \<and> v > 0 \<longrightarrow> fst (Inc k v s) = SendPanic) \<and>
      (\<forall>i k. k \<noteq> [] \<longrightarrow> fst (Get i k s) = SendPanic) \<and> (\<forall>i. fst (GetAll i s) = SendPanic))"
proof -
  obtain s1 s2 where "ctr_step s1 (CloseReply c) s2" "run ctr_step s2 es2 s"
    using assms by (rule ctr_reply)
  moreover from this(1) have "c_place s2 = Stopped"
    unfolding ctr_step_def
    by (auto elim!: loop_stepE call_stepE simp: Inc_def Get_def GetAll_def Close_def split: if_splits)
  ultimately have "\<forall>e \<in> set es2. \<not> served_after_close e" using stopped_run by blast
  then show ?thesis by (simp add: Inc_def Get_def GetAll_def closed_def)
qed

text \<open>A read waits in its buffer while the counters are closed; it is never answered.\<close>

lemma close_ends_service_witness:
  "\<exists>s. run ctr_step New [CallGet 1 ''x'', CallClose 2, CloseReply 2, GetReply 3 [] 0] s \<and>
    c_get s = [(1, ''x'')] \<and> fst (Get 4 ''x'' s) = SendPanic"
proof -
  let ?s = "New\<lparr>c_get := [(1, ''x'')], c_place := Stopped\<rparr>"
  have r: "run ctr_step New [CallGet 1 ''x'', CallClose 2, CloseReply 2, GetReply 3 [] 0] ?s"
    by (rule perform_all_run [of "[DoGet 1 ''x'', DoClose 2, DoLoop, DoGet 3 []]"])
       (simp add: New_def perform_def Get_def Close_def closed_def loop_once_def close_channels_def go_defs)
  have "fst (Get 4 ''x'' ?s) = SendPanic"
    using close_ends_service [of "[CallGet 1 ''x'', CallClose 2]" 2 "[GetReply 3 [] 0]" ?s] r by simp
  then show ?thesis using r by (intro exI [of _ ?s]) simp
qed

end
