(* ===== verification/Flags.thy ===== *)
theory Flags
  imports Errs
begin

text \<open>
  \<open>flags/flags.go\<close>, the two flag types of the command line tools, and the part of Go's \<open>flag\<close>
  package that reads a command line: flags come first, a Boolean flag takes a value only after an
  equals sign, any other flag takes the next argument, and \<open>--\<close> or the first argument that is not
  a flag ends them.
\<close>

section \<open>The flag types\<close>

definition StringSlice_String :: "string list \<Rightarrow> string" where
  "StringSlice_String ss = ''['' @ Join '' '' ss @ '']''"

definition StringSlice_Set :: "string \<Rightarrow> string list \<Rightarrow> string list" where
  "StringSlice_Set value ss = fold (\<lambda>v ss. ss @ [v]) (Split CHR '','' value) ss"

definition AsSliceOfString :: "string list \<Rightarrow> string list" where
  "AsSliceOfString ss = ss"

definition SSMap_String :: "(string, string) gomap \<Rightarrow> string" where
  "SSMap_String m =
     (if length m = 0 then ''key=value''
      else ''map['' @ Join '' '' (map (\<lambda>(k, v). k @ '':'' @ v) m) @ '']'')"

definition SSMap_Set :: "string \<Rightarrow> (string, string) gomap \<Rightarrow> go_error + (string, string) gomap" where
  "SSMap_Set value m =
     (let kv = Split CHR ''='' value
      in if length kv \<noteq> 2
         then Inl (NewValueError ''meta'' ''Value must ust be in the form \"k=v\"'')
         else Inr (gm_put (kv ! 0) (kv ! 1) m))"

lemma StringSlice_Set_eq: "StringSlice_Set value ss = ss @ Split CHR '','' value"
proof -
  have "fold (\<lambda>v ss. ss @ [v]) ws ss = ss @ ws" for ws :: "string list"
    by (induction ws arbitrary: ss) simp_all
  then show ?thesis by (simp add: StringSlice_Set_def)
qed

lemma Split_2_iff: "length (Split sep s) = 2 \<longleftrightarrow> (\<exists>k v. s = k @ sep # v \<and> sep \<notin> set k \<and> sep \<notin> set v)"
proof
  assume "length (Split sep s) = 2"
  then obtain k v where kv: "Split sep s = [k, v]" by (auto simp: numeral_2_eq_2 length_Suc_conv)
  then have "s = k @ sep # v" using Join_Split [of sep s] by simp
  moreover have "sep \<notin> set k" "sep \<notin> set v" using Split_no_sep [of _ sep s] kv by auto
  ultimately show "\<exists>k v. s = k @ sep # v \<and> sep \<notin> set k \<and> sep \<notin> set v" by blast
qed (auto simp: Split_append Split_word)

text \<open>Repeating a list flag with comma-separated groups gives the concatenation of the groups.\<close>

lemma StringSlice_Set_groups:
  "(\<forall>g \<in> set groups. g \<noteq> [] \<and> (\<forall>w \<in> set g. CHR '','' \<notin> set w)) \<Longrightarrow>
    fold (\<lambda>g. StringSlice_Set (Join '','' g)) groups ss = ss @ concat groups"
  by (induction groups arbitrary: ss) (auto simp: StringSlice_Set_eq Split_Join)

text \<open>A map flag accepts exactly the values with one equals sign and stores what is on its two sides;
  anything else is a value error that leaves the map alone.\<close>

lemma SSMap_Set_pair:
  "CHR ''='' \<notin> set k \<Longrightarrow> CHR ''='' \<notin> set v \<Longrightarrow> SSMap_Set (k @ ''='' @ v) m = Inr (gm_put k v m)"
  by (simp add: SSMap_Set_def Split_append Split_word)

lemma SSMap_Set_error:
  "(\<nexists>k v. s = k @ ''='' @ v \<and> CHR ''='' \<notin> set k \<and> CHR ''='' \<notin> set v) \<Longrightarrow>
    \<exists>e. SSMap_Set s m = Inl e \<and> IsValueError e"
  using Split_2_iff [of "CHR ''=''" s] by (auto simp: SSMap_Set_def go_defs)

section \<open>Reading a command line\<close>

text \<open>A flag set: for each flag, whether it is Boolean and what setting it to a text does. The result
  holds the settings and the arguments left, or the message the flag package reports.\<close>

type_synonym 's flag_set = "string \<Rightarrow> (bool \<times> (string \<Rightarrow> 's \<Rightarrow> 's option)) option"

datatype 's parsed = Parsed 's "string list" | BadFlags string | HelpAsked

definition is_flag :: "string \<Rightarrow> bool" where
  "is_flag s \<longleftrightarrow> length s \<ge> 2 \<and> hd s = CHR ''-''"

definition flag_name :: "string \<Rightarrow> string" where
  "flag_name s = (if s ! 1 = CHR ''-'' then drop 2 s else drop 1 s)"

text \<open>The name and the value after an equals sign, which cannot be the first character.\<close>

definition flag_value :: "string \<Rightarrow> string \<times> string option" where
  "flag_value name =
     (let i = IndexByte (drop 1 name) (CHR ''='')
      in if i < 0 then (name, None) else (take (nat i + 1) name, Some (drop (nat i + 2) name)))"

definition set_flag :: "(string \<Rightarrow> 's \<Rightarrow> 's option) \<Rightarrow> string \<Rightarrow> string \<Rightarrow> 's \<Rightarrow> 's parsed \<Rightarrow> ('s \<Rightarrow> 's parsed) \<Rightarrow> 's parsed" where
  "set_flag upd name v st bad k = (case upd v st of None \<Rightarrow> bad | Some st' \<Rightarrow> k st')"

fun Parse :: "'s flag_set \<Rightarrow> string list \<Rightarrow> 's \<Rightarrow> 's parsed" where
  "Parse fs [] st = Parsed st []"
| "Parse fs (s # args) st =
     (if \<not> is_flag s then Parsed st (s # args)
      else if s = ''--'' then Parsed st args
      else if flag_name s = '''' \<or> hd (flag_name s) \<in> {CHR ''-'', CHR ''=''}
      then BadFlags (''bad flag syntax: '' @ s)
      else (let (name, value) = flag_value (flag_name s); bad = BadFlags (''invalid value for flag -'' @ name)
        in case fs name of
            None \<Rightarrow> if name = ''help'' \<or> name = ''h'' then HelpAsked
                    else BadFlags (''flag provided but not defined: -'' @ name)
          | Some (True, upd) \<Rightarrow>
              set_flag upd name (case value of Some v \<Rightarrow> v | None \<Rightarrow> ''true'') st bad (Parse fs args)
          | Some (False, upd) \<Rightarrow>
              (case value of
                 Some v \<Rightarrow> set_flag upd name v st bad (Parse fs args)
               | None \<Rightarrow>
                   (case args of
                      [] \<Rightarrow> BadFlags (''flag needs an argument: -'' @ name)
                    | v # args' \<Rightarrow> set_flag upd name v st bad (Parse fs args')))))"

end
