(* ===== verification/Daemon.thy ===== *)
theory Daemon
  imports Flags Servers
begin

text \<open>
  \<open>cmd/afindd/afindd.go\<close>: the daemon's flags, the configuration made from them, and what \<open>main\<close>
  starts. The host name, the sockets and the readers of numbers and durations are parameters.
\<close>

section \<open>Flags\<close>

record daemon_flags =
  df_index_root :: string
  df_index_in_repo :: bool
  df_noindex :: string
  df_rpc :: string
  df_http :: string
  df_https :: string
  df_nshards :: int
  df_dbfile :: string
  df_verbose :: bool
  df_timeout_index :: duration
  df_timeout_search :: duration
  df_timeout_find :: duration
  df_timeout_tcp_keepalive :: duration
  df_num_parallel :: int
  df_num_repo :: int
  df_num_request_be :: int
  df_log :: string
  df_delete_repo_on_error :: bool
  df_meta :: meta

definition default_daemon_flags :: daemon_flags where
  "default_daemon_flags = \<lparr>df_index_root = ''/tmp/afind'', df_index_in_repo = True, df_noindex = [],
     df_rpc = '':30800'', df_http = [], df_https = [], df_nshards = 4, df_dbfile = [],
     df_verbose = False, df_timeout_index = 30 * 60 * 1000000000,
     df_timeout_search = 30 * 1000000000, df_timeout_find = 5000 * 1000000,
     df_timeout_tcp_keepalive = 3 * 60 * 1000000000, df_num_parallel = 200, df_num_repo = 0,
     df_num_request_be = 300, df_log = ''/dev/null'', df_delete_repo_on_error = True, df_meta = []\<rparr>"

record flag_readers =
  fr_bool :: "string \<Rightarrow> bool option"
  fr_int :: "string \<Rightarrow> int option"
  fr_duration :: "string \<Rightarrow> duration option"

definition D_flag :: "string \<Rightarrow> daemon_flags \<Rightarrow> daemon_flags option" where
  "D_flag v st = (case SSMap_Set v (df_meta st) of Inl e \<Rightarrow> None | Inr m \<Rightarrow> Some (st\<lparr>df_meta := m\<rparr>))"

text \<open>One line per flag, in the order of the source; the metadata flag \<open>D\<close> is set up by \<open>init\<close>.\<close>

definition daemon_flag_table ::
  "flag_readers \<Rightarrow> (string \<times> bool \<times> (string \<Rightarrow> daemon_flags \<Rightarrow> daemon_flags option)) list" where
  "daemon_flag_table rd = [
     (''D'', False, D_flag),
     (''index_root'', False, \<lambda>v st. Some (st\<lparr>df_index_root := v\<rparr>)),
     (''index_in_repo'', True, \<lambda>v st. map_option (\<lambda>b. st\<lparr>df_index_in_repo := b\<rparr>) (fr_bool rd v)),
     (''noindex'', False, \<lambda>v st. Some (st\<lparr>df_noindex := v\<rparr>)),
     (''rpc'', False, \<lambda>v st. Some (st\<lparr>df_rpc := v\<rparr>)),
     (''http'', False, \<lambda>v st. Some (st\<lparr>df_http := v\<rparr>)),
     (''https'', False, \<lambda>v st. Some (st\<lparr>df_https := v\<rparr>)),
     (''nshards'', False, \<lambda>v st. map_option (\<lambda>n. st\<lparr>df_nshards := n\<rparr>) (fr_int rd v)),
     (''dbfile'', False, \<lambda>v st. Some (st\<lparr>df_dbfile := v\<rparr>)),
     (''v'', True, \<lambda>v st. map_option (\<lambda>b. st\<lparr>df_verbose := b\<rparr>) (fr_bool rd v)),
     (''timeout_index'', False, \<lambda>v st. map_option (\<lambda>d. st\<lparr>df_timeout_index := d\<rparr>) (fr_duration rd v)),
     (''timeout_search'', False, \<lambda>v st. map_option (\<lambda>d. st\<lparr>df_timeout_search := d\<rparr>) (fr_duration rd v)),
     (''timeout_find'', False, \<lambda>v st. map_option (\<lambda>d. st\<lparr>df_timeout_find := d\<rparr>) (fr_duration rd v)),
     (''timeout_tcp_keepalive'', False,
        \<lambda>v st. map_option (\<lambda>d. st\<lparr>df_timeout_tcp_keepalive := d\<rparr>) (fr_duration rd v)),
     (''num_parallel'', False, \<lambda>v st. map_option (\<lambda>n. st\<lparr>df_num_parallel := n\<rparr>) (fr_int rd v)),
     (''num_repo'', False, \<lambda>v st. map_option (\<lambda>n. st\<lparr>df_num_repo := n\<rparr>) (fr_int rd v)),
     (''num_request_be'', False, \<lambda>v st. map_option (\<lambda>n. st\<lparr>df_num_request_be := n\<rparr>) (fr_int rd v)),
     (''log'', False, \<lambda>v st. Some (st\<lparr>df_log := v\<rparr>)),
     (''delete_repo_on_error'', True,
        \<lambda>v st. map_option (\<lambda>b. st\<lparr>df_delete_repo_on_error := b\<rparr>) (fr_bool rd v))]"

definition daemon_flag_set :: "flag_readers \<Rightarrow> daemon_flags flag_set" where
  "daemon_flag_set rd = map_of (daemon_flag_table rd)"

section \<open>Configuration\<close>

definition getConfig :: "string option \<Rightarrow> daemon_flags \<Rightarrow> config" where
  "getConfig hostname fl =
     (let c = zero_config\<lparr>
        c_IndexRoot := df_index_root fl,
        c_IndexInRepo := df_index_in_repo fl,
        c_HTTPBind := df_http fl,
        c_HTTPSBind := df_https fl,
        c_RPCBind := df_rpc fl,
        c_NumShards := df_nshards fl,
        c_RepoMeta := df_meta fl,
        c_DbFile := df_dbfile fl,
        c_TimeoutIndex := df_timeout_index fl,
        c_TimeoutSearch := df_timeout_search fl,
        c_TimeoutTcpKeepAlive := df_timeout_tcp_keepalive fl,
        c_TimeoutFind := df_timeout_find fl,
        c_MaxSearchC := df_num_parallel fl,
        c_MaxSearchRepo := df_num_repo fl,
        c_MaxSearchReqBe := df_num_request_be fl,
        c_DeleteRepoOnError := df_delete_repo_on_error fl\<rparr>;
        c = SetVerbose (df_verbose fl) c
      in snd (Config_Host hostname c))"

text \<open>The database of \<open>newAfind\<close>; the indexer, the searcher and the finder only refer to it.\<close>

definition newAfind :: "'c fs_env \<Rightarrow> daemon_flags \<Rightarrow> (string \<Rightarrow> 'c option) \<Rightarrow> 'c db" where
  "newAfind env fl files =
     (if df_dbfile fl \<noteq> [] then newJsonBackedDb env (df_dbfile fl) files else newDb files)"

section \<open>Starting\<close>

datatype service =
    RpcServing string duration
  | HttpServing string duration
  | HttpsServing string string string
  | Critical go_error

record daemon_env =
  de_hostname :: "string option"
  de_listen :: "string \<Rightarrow> duration \<Rightarrow> go_error option"
  de_tls :: "string \<Rightarrow> string \<Rightarrow> string \<Rightarrow> go_error option"

text \<open>The servers the configuration asks for, or the errors logged instead. The HTTPS server's error
  is logged by its goroutine.\<close>

definition start_rpc :: "daemon_env \<Rightarrow> config \<Rightarrow> service list \<times> config" where
  "start_rpc env cfg =
     (if c_RPCBind cfg \<noteq> [] then
        (let (timeout, cfg) = GetTimeoutTcpKeepAlive cfg
         in case de_listen env (c_RPCBind cfg) timeout of
              None \<Rightarrow> ([RpcServing (c_RPCBind cfg) timeout], cfg)
            | Some err \<Rightarrow> ([Critical err], cfg))
      else ([], cfg))"

definition start_http :: "daemon_env \<Rightarrow> config \<Rightarrow> service list \<times> config" where
  "start_http env cfg =
     (if c_HTTPBind cfg \<noteq> [] then
        (let (timeout, cfg) = GetTimeoutTcpKeepAlive cfg
         in case de_listen env (c_HTTPBind cfg) timeout of
              None \<Rightarrow> ([HttpServing (c_HTTPBind cfg) timeout], cfg)
            | Some err \<Rightarrow> ([Critical err], cfg))
      else ([], cfg))"

definition start_https :: "daemon_env \<Rightarrow> config \<Rightarrow> service list" where
  "start_https env cfg =
     (if c_HTTPSBind cfg \<noteq> [] then
        (case de_tls env (c_HTTPSBind cfg) (c_TLSCertfile cfg) (c_TLSKeyfile cfg) of
           None \<Rightarrow> [HttpsServing (c_HTTPSBind cfg) (c_TLSCertfile cfg) (c_TLSKeyfile cfg)]
         | Some err \<Rightarrow> [Critical err])
      else [])"

definition start_services :: "daemon_env \<Rightarrow> config \<Rightarrow> service list" where
  "start_services env cfg =
     (let (rpc, cfg) = start_rpc env cfg; (http, cfg) = start_http env cfg
      in rpc @ http @ start_https env cfg)"

text \<open>Until the signal: \<open>None\<close> when the command line is unusable and the process exits.\<close>

definition main :: "daemon_env \<Rightarrow> flag_readers \<Rightarrow> 'c fs_env \<Rightarrow> (string \<Rightarrow> 'c option) \<Rightarrow> string list \<Rightarrow>
    (service list \<times> config \<times> 'c db) option" where
  "main env rd fenv files argv =
     (case Parse (daemon_flag_set rd) argv default_daemon_flags of
        Parsed fl _ \<Rightarrow>
          (let cfg = getConfig (de_hostname env) fl
           in Some (start_services env cfg, cfg, newAfind fenv fl files))
      | _ \<Rightarrow> None)"

section \<open>The metadata of the daemon\<close>

definition meta_args :: "(string \<times> string) list \<Rightarrow> string list" where
  "meta_args kvs = concat (map (\<lambda>(k, v). [''-D'', k @ ''='' @ v]) kvs)"

lemma Parse_D_pair:
  assumes "CHR ''='' \<notin> set k" "CHR ''='' \<notin> set v"
  shows "Parse (daemon_flag_set rd) (''-D'' # (k @ ''='' @ v) # args) st
    = Parse (daemon_flag_set rd) args (st\<lparr>df_meta := gm_put k v (df_meta st)\<rparr>)"
proof -
  have "daemon_flag_set rd ''D'' = Some (False, D_flag)"
    by (simp add: daemon_flag_set_def daemon_flag_table_def)
  then show ?thesis
    using SSMap_Set_pair [OF assms]
    by (simp add: is_flag_def flag_name_def flag_value_def set_flag_def D_flag_def)
qed

lemma Parse_meta_args:
  "(\<forall>(k, v) \<in> set kvs. CHR ''='' \<notin> set k \<and> CHR ''='' \<notin> set v) \<Longrightarrow>
    Parse (daemon_flag_set rd) (meta_args kvs) st
      = Parsed (st\<lparr>df_meta := fold (\<lambda>(k, v). gm_put k v) kvs (df_meta st)\<rparr>) []"
proof (induction kvs arbitrary: st)
  case (Cons p kvs)
  obtain k v where p: "p = (k, v)" by force
  have "meta_args (p # kvs) = ''-D'' # (k @ ''='' @ v) # meta_args kvs" by (simp add: meta_args_def p)
  then show ?case using Cons Parse_D_pair [of k v rd "meta_args kvs" st] by (simp add: p del: Parse.simps)
qed (simp add: meta_args_def)

lemma map_of_fold_put: "map_of (fold (\<lambda>(k, v). gm_put k v) kvs m) = map_of m ++ map_of (rev kvs)"
  by (induction kvs arbitrary: m) (auto simp: map_add_def fun_eq_iff split: option.splits)

lemma getConfig_RepoMeta:
  "c_RepoMeta (getConfig hn fl) =
    (if gm_str (df_meta fl) ''host'' \<noteq> [] then df_meta fl
     else gm_put ''host'' (case hn of None \<Rightarrow> ''localhost'' | Some h \<Rightarrow> h) (df_meta fl))"
  by (simp add: getConfig_def Config_Host_def SetVerbose_def Let_def zero_config_def)

definition own_host :: "string option \<Rightarrow> (string \<times> string) list \<Rightarrow> string" where
  "own_host hn kvs = (case map_of (rev kvs) ''host'' of
      Some (c # cs) \<Rightarrow> c # cs
    | _ \<Rightarrow> (case hn of None \<Rightarrow> ''localhost'' | Some h \<Rightarrow> h))"

text \<open>The metadata a daemon stamps on what it indexes is what its \<open>-D key=value\<close> flags say, the last
  one of a key counting, with a \<open>host\<close> that is the one given or else the machine's name; and the
  daemon takes repositories of that host for its own.\<close>

theorem daemon_metadata:
  assumes "\<forall>(k, v) \<in> set kvs. CHR ''='' \<notin> set k \<and> CHR ''='' \<notin> set v" "de_hostname env \<noteq> Some []"
  shows "\<exists>svcs cfg db. main env rd fenv files (meta_args kvs) = Some (svcs, cfg, db) \<and>
    map_of (c_RepoMeta cfg) = (map_of (rev kvs))(''host'' \<mapsto> own_host (de_hostname env) kvs) \<and>
    fst (isLocal (de_hostname env) cfg (own_host (de_hostname env) kvs))"
proof -
  let ?hn = "de_hostname env"
  let ?fl = "default_daemon_flags\<lparr>df_meta := fold (\<lambda>(k, v). gm_put k v) kvs []\<rparr>"
  let ?cfg = "getConfig ?hn ?fl"
  have "Parse (daemon_flag_set rd) (meta_args kvs) default_daemon_flags = Parsed ?fl []"
    using Parse_meta_args [OF assms(1), of rd default_daemon_flags] by (simp add: default_daemon_flags_def)
  then have main: "main env rd fenv files (meta_args kvs)
      = Some (start_services env ?cfg, ?cfg, newAfind fenv ?fl files)"
    by (simp add: main_def Let_def)
  have meta: "map_of (df_meta ?fl) = map_of (rev kvs)"
    by (simp add: map_of_fold_put)
  have h: "map_of (c_RepoMeta ?cfg) = (map_of (rev kvs))(''host'' \<mapsto> own_host ?hn kvs)"
    unfolding getConfig_RepoMeta gm_str_def meta
    by (auto simp: own_host_def map_of_fold_put fun_eq_iff split: option.splits list.splits)
  have "own_host ?hn kvs \<noteq> []"
    using assms(2) by (auto simp: own_host_def split: option.splits list.splits)
  then have "Config_Host ?hn ?cfg = (own_host ?hn kvs, ?cfg)"
    unfolding Config_Host_def gm_str_def h by simp
  then have "fst (isLocal ?hn ?cfg (own_host ?hn kvs))" by (simp add: isLocal_eq)
  with main h show ?thesis by blast
qed

definition toy_daemon_env :: daemon_env where
  "toy_daemon_env = \<lparr>de_hostname = Some ''box'', de_listen = \<lambda>_ _. None,
     de_tls = \<lambda>a cert key. if cert = [] then Some (OtherError ''open : no such file'') else None\<rparr>"

definition toy_readers :: flag_readers where
  "toy_readers = \<lparr>fr_bool = \<lambda>_. None, fr_int = Atoi, fr_duration = \<lambda>_. None\<rparr>"

lemma daemon_metadata_witness:
  "\<exists>svcs cfg db. main toy_daemon_env toy_readers plain_env (\<lambda>_. None)
      [''-D'', ''a=1'', ''-D'', ''host=h'', ''-D'', ''a=2''] = Some (svcs, cfg, db) \<and>
    map_of (c_RepoMeta cfg) = [''a'' \<mapsto> ''2'', ''host'' \<mapsto> ''h''] \<and> fst (isLocal (Some ''box'') cfg ''h'')"
proof -
  let ?kvs = "[(''a'', ''1''), (''host'', ''h''), (''a'', ''2'')]"
  have "meta_args ?kvs = [''-D'', ''a=1'', ''-D'', ''host=h'', ''-D'', ''a=2'']" by (simp add: meta_args_def)
  moreover have "own_host (Some ''box'') ?kvs = ''h''" by (simp add: own_host_def)
  moreover have "(map_of (rev ?kvs))(''host'' \<mapsto> ''h'') = [''a'' \<mapsto> ''2'', ''host'' \<mapsto> ''h'']"
    by (auto simp: fun_eq_iff)
  ultimately show ?thesis
    using daemon_metadata [of ?kvs toy_daemon_env toy_readers plain_env "\<lambda>_. None"]
    by (simp add: toy_daemon_env_def)
qed

section \<open>Flags without effect\<close>

text \<open>No command line gives the daemon a certificate: the HTTPS server is started with empty file
  names, so where a listener needs real ones, \<open>-https\<close> only logs an error and nothing is served; and
  the \<open>-noindex\<close> expression reaches no part of the configuration.\<close>

theorem daemon_never_serves_https:
  assumes "main env rd fenv files argv = Some (svcs, cfg, db)" "\<And>a. de_tls env a [] [] \<noteq> None"
  shows "HttpsServing addr cert key \<notin> set svcs \<and>
    (c_HTTPSBind cfg \<noteq> [] \<longrightarrow> (\<exists>e. last svcs = Critical e)) \<and>
    getConfig hn (fl\<lparr>df_noindex := x\<rparr>) = getConfig hn fl"
proof -
  obtain fl where cfg: "cfg = getConfig (de_hostname env) fl" "svcs = start_services env cfg"
    using assms(1) by (auto simp: main_def Let_def split: parsed.splits)
  have tls: "c_TLSCertfile cfg = [] \<and> c_TLSKeyfile cfg = []"
    unfolding cfg(1) by (simp add: getConfig_def Config_Host_def SetVerbose_def Let_def zero_config_def)
  have rpc: "HttpsServing addr cert key \<notin> set (fst (start_rpc env c))"
    "HttpsServing addr cert key \<notin> set (fst (start_http env c))" for c
    by (auto simp: start_rpc_def start_http_def split: prod.splits option.splits)
  have keep: "c_TLSCertfile (snd (start_rpc env c)) = c_TLSCertfile c \<and>
      c_TLSKeyfile (snd (start_rpc env c)) = c_TLSKeyfile c \<and>
      c_HTTPSBind (snd (start_rpc env c)) = c_HTTPSBind c"
    "c_TLSCertfile (snd (start_http env c)) = c_TLSCertfile c \<and>
      c_TLSKeyfile (snd (start_http env c)) = c_TLSKeyfile c \<and>
      c_HTTPSBind (snd (start_http env c)) = c_HTTPSBind c" for c
    by (auto simp: start_rpc_def start_http_def GetTimeoutTcpKeepAlive_def Let_def split: option.splits)
  obtain c' where svcs: "svcs = fst (start_rpc env cfg) @ fst (start_http env (snd (start_rpc env cfg)))
      @ start_https env c'" "c_TLSCertfile c' = [] \<and> c_TLSKeyfile c' = []" "c_HTTPSBind c' = c_HTTPSBind cfg"
    unfolding cfg(2) start_services_def Let_def using keep tls by (simp add: case_prod_beta)
  have "start_https env c' = (if c_HTTPSBind cfg = [] then [] else [Critical (the (de_tls env (c_HTTPSBind cfg) [] []))])"
    using svcs(2,3) assms(2) [of "c_HTTPSBind cfg"] by (auto simp: start_https_def)
  moreover have "getConfig hn (fl\<lparr>df_noindex := x\<rparr>) = getConfig hn fl" for fl
    by (simp add: getConfig_def)
  ultimately show ?thesis using rpc by (auto simp: svcs(1))
qed

lemma daemon_never_serves_https_witness:
  "\<exists>svcs cfg db. main toy_daemon_env toy_readers plain_env (\<lambda>_. None) [''-https'', '':443''] = Some (svcs, cfg, db) \<and>
    c_HTTPSBind cfg = '':443'' \<and> HttpsServing '':443'' [] [] \<notin> set svcs \<and> (\<exists>e. last svcs = Critical e)"
proof -
  have "daemon_flag_set toy_readers ''https'' = Some (False, \<lambda>v st. Some (st\<lparr>df_https := v\<rparr>))"
    by (simp add: daemon_flag_set_def daemon_flag_table_def)
  then have "\<exists>svcs cfg db. main toy_daemon_env toy_readers plain_env (\<lambda>_. None) [''-https'', '':443''] = Some (svcs, cfg, db) \<and>
      c_HTTPSBind cfg = '':443''"
    by (simp add: main_def is_flag_def flag_name_def flag_value_def set_flag_def getConfig_def Config_Host_def
        SetVerbose_def zero_config_def Let_def default_daemon_flags_def)
  then obtain svcs cfg db where
    "main toy_daemon_env toy_readers plain_env (\<lambda>_. None) [''-https'', '':443''] = Some (svcs, cfg, db)"
    "c_HTTPSBind cfg = '':443''" by blast
  then show ?thesis
    using daemon_never_serves_https [of toy_daemon_env toy_readers plain_env "\<lambda>_. None" "[''-https'', '':443'']"
        svcs cfg db "'':443''" "[]" "[]"]
    by (auto simp: toy_daemon_env_def)
qed

end
