(* ===== verification/Bytesize.thy ===== *)
theory Bytesize
  imports Complex_Main Go_Strings
begin

text \<open>
  \<open>afind/bytesize.go\<close>: sizes in bytes, shown with a unit or written to JSON as a plain number.

  A \<open>ByteSize\<close> is a \<open>float64\<close>; the model has the finite ones, as the rational numbers they are. The
  divisions by a unit are exact for a size of at least that unit, since the units are powers of
  two, so the only rounding is that of the verbs \<open>%.2f\<close> and \<open>%.f\<close>: to the nearest decimal, ties to
  the even one.
\<close>

section \<open>Formatting\<close>

definition round_half_even :: "rat \<Rightarrow> int" where
  "round_half_even x =
     (let n = \<lfloor>x\<rfloor>; r = x - of_int n
      in if r < 1 / 2 \<or> r = 1 / 2 \<and> even n then n else n + 1)"

definition pad_zeros :: "nat \<Rightarrow> string \<Rightarrow> string" where
  "pad_zeros p s = replicate (p - length s) CHR ''0'' @ s"

definition decimal :: "nat \<Rightarrow> nat \<Rightarrow> string" where
  "decimal p n = Itoa_nat (n div 10 ^ p) @
     (if p = 0 then '''' else ''.'' @ pad_zeros p (Itoa_nat (n mod 10 ^ p)))"

text \<open>\<open>Sprintf(\"%.pf\", x)\<close>\<close>

definition format_fixed :: "nat \<Rightarrow> rat \<Rightarrow> string" where
  "format_fixed p x =
     (if x < 0 then ''-'' else '''') @ decimal p (nat (round_half_even (\<bar>x\<bar> * 10 ^ p)))"

section \<open>Sizes\<close>

definition KB :: rat where "KB = 2 ^ 10"
definition MB :: rat where "MB = 2 ^ 20"
definition GB :: rat where "GB = 2 ^ 30"
definition TB :: rat where "TB = 2 ^ 40"

lemmas unit_defs = KB_def MB_def GB_def TB_def

definition String :: "rat \<Rightarrow> string" where
  "String b =
     (if b \<ge> TB then format_fixed 2 (b / TB) @ ''TB''
      else if b \<ge> GB then format_fixed 2 (b / GB) @ ''GB''
      else if b \<ge> MB then format_fixed 2 (b / MB) @ ''MB''
      else if b \<ge> KB then format_fixed 2 (b / KB) @ ''KB''
      else format_fixed 0 b @ ''B'')"

definition MarshalText :: "rat \<Rightarrow> string" where
  "MarshalText b = String b"

definition MarshalJSON :: "rat \<Rightarrow> string" where
  "MarshalJSON b = format_fixed 0 b"

section \<open>Lemmas\<close>

lemma round_half_even_near: "\<bar>of_int (round_half_even x) - x\<bar> \<le> 1 / 2"
proof -
  have "of_int \<lfloor>x\<rfloor> \<le> x" "x < of_int \<lfloor>x\<rfloor> + 1" by linarith+
  then show ?thesis unfolding round_half_even_def Let_def by auto
qed

lemma round_half_even_of_int [simp]: "round_half_even (of_int n) = n"
  by (simp add: round_half_even_def)

lemma round_half_even_nonneg: "0 \<le> x \<Longrightarrow> 0 \<le> round_half_even x"
  unfolding round_half_even_def Let_def by auto

lemma format_fixed_near:
  assumes "0 \<le> x"
  shows "\<exists>n. format_fixed p x = decimal p n \<and> \<bar>of_nat n / 10 ^ p - x\<bar> \<le> 1 / (2 * 10 ^ p)"
proof (intro exI conjI)
  let ?n = "round_half_even (x * 10 ^ p)"
  show "format_fixed p x = decimal p (nat ?n)"
    using assms by (simp add: format_fixed_def)
  have "0 \<le> ?n" using assms by (intro round_half_even_nonneg) simp
  then have eq: "(of_nat (nat ?n) :: rat) = of_int ?n" by simp
  have "\<bar>of_int ?n - x * 10 ^ p\<bar> \<le> 1 / 2" by (rule round_half_even_near)
  moreover have "(of_nat (nat ?n) :: rat) / 10 ^ p - x = (of_int ?n - x * 10 ^ p) / 10 ^ p"
    unfolding eq by (simp add: diff_divide_distrib)
  ultimately show "\<bar>of_nat (nat ?n) / 10 ^ p - x\<bar> \<le> 1 / (2 * 10 ^ p)"
    by (simp add: abs_divide divide_le_eq field_simps)
qed

text \<open>The unit a size is shown in, and its digits after the point.\<close>

definition unit_of :: "rat \<Rightarrow> rat \<times> string \<times> nat" where
  "unit_of b =
     (if b \<ge> 2 ^ 40 then (2 ^ 40, ''TB'', 2) else if b \<ge> 2 ^ 30 then (2 ^ 30, ''GB'', 2)
      else if b \<ge> 2 ^ 20 then (2 ^ 20, ''MB'', 2) else if b \<ge> 2 ^ 10 then (2 ^ 10, ''KB'', 2)
      else (1, ''B'', 0))"

lemma String_unit: "String b = (case unit_of b of (u, name, p) \<Rightarrow> format_fixed p (b / u) @ name)"
  unfolding String_def unit_of_def unit_defs by auto

lemma unit_of_pos: "fst (unit_of b) > 0"
  by (simp add: unit_of_def)

text \<open>A non-negative size is shown as a decimal number of its largest unit not above it, with two
  digits after the point (none for bytes), and what is shown differs from the size by at most half
  a unit of the last digit.\<close>

theorem String_near:
  assumes "0 \<le> b" "unit_of b = (u, name, p)"
  shows "\<exists>n. String b = decimal p n @ name \<and> \<bar>of_nat n / 10 ^ p * u - b\<bar> \<le> u / (2 * 10 ^ p)"
proof -
  have u: "u > 0" using unit_of_pos [of b] assms(2) by simp
  then have "0 \<le> b / u" using assms(1) by simp
  from format_fixed_near [OF this, of p] obtain n where
    n: "format_fixed p (b / u) = decimal p n" "\<bar>of_nat n / 10 ^ p - b / u\<bar> \<le> 1 / (2 * 10 ^ p)" by blast
  have "of_nat n / 10 ^ p * u - b = (of_nat n / 10 ^ p - b / u) * u"
    using u by (simp add: left_diff_distrib)
  then have "\<bar>of_nat n / 10 ^ p * u - b\<bar> = \<bar>of_nat n / 10 ^ p - b / u\<bar> * u"
    using u by (simp add: abs_mult)
  also have "\<dots> \<le> 1 / (2 * 10 ^ p) * u" using n(2) u by (intro mult_right_mono) auto
  finally show ?thesis using n(1) assms(2) by (intro exI [of _ n]) (simp add: String_unit)
qed

text \<open>A size just below a mebibyte rounds up to 1024.00KB.\<close>

lemma String_near_witness:
  "\<exists>n. String 1048575 = decimal 2 n @ ''KB'' \<and> \<bar>of_nat n / 10 ^ 2 * 2 ^ 10 - (1048575 :: rat)\<bar> \<le> 2 ^ 10 / (2 * 10 ^ 2)"
  using String_near [of 1048575 "2 ^ 10" "''KB''" 2] by (simp add: unit_of_def)

lemma MarshalJSON_Itoa: "MarshalJSON (of_int n) = Itoa n"
  using round_half_even_of_int [of "\<bar>n\<bar>"]
  by (simp add: MarshalJSON_def format_fixed_def decimal_def Itoa_def)

text \<open>A size that is a whole number of bytes, small enough for a float to hold every such number,
  survives being written to JSON and read back as a number.\<close>

theorem MarshalJSON_roundtrip:
  assumes "\<bar>n\<bar> \<le> 2 ^ 53"
  shows "Atoi (MarshalJSON (of_int n)) = Some n"
  using assms by (simp add: MarshalJSON_Itoa Atoi_Itoa abs_le_iff)

lemma MarshalJSON_roundtrip_witness: "Atoi (MarshalJSON 4096) = Some 4096"
  using MarshalJSON_roundtrip [of 4096] by simp

end
