(* ===== verification/Client.thy ===== *)
theory Client
  imports Index Search Flags Bytesize
begin

text \<open>
  \<open>cmd/afind/afind.go\<close>: the command line client. It reads its flags, connects to a daemon and runs
  one of the commands \<open>index\<close>, \<open>search\<close> and \<open>repos\<close>.

  The daemon, with a state of any type, and the operating system are the parameter \<open>client_env\<close>. What
  the client prints is a list of texts; a usage message is one event that names its flag set. An
  unusable command line ends the process (\<open>ExitOnError\<close>).
\<close>

section \<open>Flags and environment\<close>

record client_flags =
  fl_server :: string
  fl_verbose :: bool
  fl_timeout :: duration
  fl_log :: string
  fl_path :: string
  fl_insens :: bool
  fl_max :: uint64
  fl_keys :: "string list"
  fl_meta :: meta
  fl_post :: int
  fl_pre :: int
  fl_both :: int
  fl_delete :: bool

definition default_flags :: client_flags where
  "default_flags = \<lparr>fl_server = '''', fl_verbose = False, fl_timeout = 30 * 1000000000,
     fl_log = ''/dev/null'', fl_path = '''', fl_insens = False, fl_max = 100, fl_keys = [],
     fl_meta = [], fl_post = 0, fl_pre = 0, fl_both = 0, fl_delete = False\<rparr>"

text \<open>\<open>ce_lstat\<close> tells whether a path that exists is a directory. The readers of numbers and durations
  and the \<open>%v\<close> texts of times belong to the libraries of \<open>strconv\<close> and \<open>time\<close>.\<close>

record 's client_env =
  ce_server :: string
  ce_dial :: "string \<Rightarrow> go_error option"
  ce_search :: "search_query \<Rightarrow> 's \<Rightarrow> (search_result \<times> go_error option) \<times> 's"
  ce_index :: "index_query \<Rightarrow> 's \<Rightarrow> (index_result \<times> go_error option) \<times> 's"
  ce_get :: "string \<Rightarrow> 's \<Rightarrow> (string, repo) gomap \<times> go_error option"
  ce_getall :: "'s \<Rightarrow> (string, repo) gomap \<times> go_error option"
  ce_delete :: "string \<Rightarrow> 's \<Rightarrow> go_error option \<times> 's"
  ce_lstat :: "string \<Rightarrow> bool option"
  ce_int :: "string \<Rightarrow> int option"
  ce_uint :: "string \<Rightarrow> uint64 option"
  ce_duration :: "string \<Rightarrow> duration option"
  ce_show_time :: "int \<Rightarrow> string"
  ce_show_duration :: "duration \<Rightarrow> string"

datatype printed = Stdout string | Stderr string | Usage string

text \<open>How a command ends: with an error or \<open>nil\<close>, or inside the flag package with an exit status.\<close>

datatype ending = Finished "go_error option" | Exited nat

definition ParseBool :: "string \<Rightarrow> bool option" where
  "ParseBool s =
     (if s \<in> {''1'', ''t'', ''T'', ''TRUE'', ''true'', ''True''} then Some True
      else if s \<in> {''0'', ''f'', ''F'', ''FALSE'', ''false'', ''False''} then Some False
      else None)"

definition meta_flag :: "string \<Rightarrow> client_flags \<Rightarrow> client_flags option" where
  "meta_flag v st = (case SSMap_Set v (fl_meta st) of Inl e \<Rightarrow> None | Inr m \<Rightarrow> Some (st\<lparr>fl_meta := m\<rparr>))"

definition flagGlobal :: "'s client_env \<Rightarrow> client_flags flag_set" where
  "flagGlobal env name =
     (if name = ''server'' then Some (False, \<lambda>v st. Some (st\<lparr>fl_server := v\<rparr>))
      else if name = ''v'' then Some (True, \<lambda>v st. map_option (\<lambda>b. st\<lparr>fl_verbose := b\<rparr>) (ParseBool v))
      else if name = ''timeout''
      then Some (False, \<lambda>v st. map_option (\<lambda>d. st\<lparr>fl_timeout := d\<rparr>) (ce_duration env v))
      else if name = ''log'' then Some (False, \<lambda>v st. Some (st\<lparr>fl_log := v\<rparr>))
      else None)"

definition flagSetSearch :: "'s client_env \<Rightarrow> client_flags flag_set" where
  "flagSetSearch env name =
     (if name = ''f'' then Some (False, \<lambda>v st. Some (st\<lparr>fl_path := v\<rparr>))
      else if name = ''i'' then Some (True, \<lambda>v st. map_option (\<lambda>b. st\<lparr>fl_insens := b\<rparr>) (ParseBool v))
      else if name = ''n'' then Some (False, \<lambda>v st. map_option (\<lambda>n. st\<lparr>fl_max := n\<rparr>) (ce_uint env v))
      else if name = ''key'' then Some (False, \<lambda>v st. Some (st\<lparr>fl_keys := StringSlice_Set v (fl_keys st)\<rparr>))
      else if name = ''m'' then Some (False, meta_flag)
      else if name = ''A'' then Some (False, \<lambda>v st. map_option (\<lambda>n. st\<lparr>fl_post := n\<rparr>) (ce_int env v))
      else if name = ''B'' then Some (False, \<lambda>v st. map_option (\<lambda>n. st\<lparr>fl_pre := n\<rparr>) (ce_int env v))
      else if name = ''C'' then Some (False, \<lambda>v st. map_option (\<lambda>n. st\<lparr>fl_both := n\<rparr>) (ce_int env v))
      else None)"

definition flagSetIndex :: "client_flags flag_set" where
  "flagSetIndex name = (if name = ''m'' then Some (False, meta_flag) else None)"

definition flagSetRepos :: "client_flags flag_set" where
  "flagSetRepos name =
     (if name = ''D'' then Some (True, \<lambda>v st. map_option (\<lambda>b. st\<lparr>fl_delete := b\<rparr>) (ParseBool v))
      else None)"

definition getFlagRpcAddress :: "'s client_env \<Rightarrow> client_flags \<Rightarrow> string" where
  "getFlagRpcAddress env fl =
     (if fl_server fl \<noteq> '''' then fl_server fl
      else (let server = ce_server env
            in if server = '''' then '':'' @ DefaultRpcPort
               else if CHR '':'' \<notin> set server then '':'' @ server
               else server))"

definition setupContext :: "'s client_env \<Rightarrow> client_flags \<Rightarrow> go_error option" where
  "setupContext env fl = ce_dial env (getFlagRpcAddress env fl)"

definition getSearchContext :: "client_flags \<Rightarrow> search_context" where
  "getSearchContext fl = \<lparr>sc_Both = fl_both fl, sc_Pre = fl_pre fl, sc_Post = fl_post fl\<rparr>"

section \<open>Printing\<close>

definition repoAsString :: "'s client_env \<Rightarrow> repo \<Rightarrow> string" where
  "repoAsString env r =
     (let meta = fold (\<lambda>(k, v) s. s @ k @ '':'' @ '' \"'' @ v @ ''\", '') (r_Meta r) ''{'';
          meta = (if length (r_Meta r) > 0 then take (length meta - 2) meta @ ''}'' else ''{}'')
      in ''repo: '' @ r_Key r @ '' ['' @ r_State r @ '']'' @ [nl] @
         ''  last updated: '' @ ce_show_time env (r_TimeUpdated r) @ [nl] @
         ''  indexed in:   '' @ ce_show_duration env (r_ElapsedIndexing r) @ [nl] @
         ''  state:        '' @ r_State r @ [nl] @
         ''  root path:    '' @ r_Root r @ [nl] @
         ''  data size:    '' @ Bytesize.String (of_nat (r_SizeData r)) @ [nl] @
         ''  index size:   '' @ Bytesize.String (of_nat (r_SizeIndex r)) @ [nl] @
         ''  files:        '' @ Itoa (r_NumFiles r) @ [nl] @
         ''  metadata:     '' @ meta @ [nl])"

definition println :: "string \<Rightarrow> printed" where
  "println s = Stdout (s @ [nl])"

text \<open>The lines of one file of one repository: line numbers that parse, in increasing order.\<close>

definition print_lines :: "string \<Rightarrow> string \<Rightarrow> fileMap \<Rightarrow> printed list" where
  "print_lines repo name matches =
     (let nums = fold (\<lambda>(l, _) nums. case Atoi l of Some linenum \<Rightarrow> nums @ [linenum] | None \<Rightarrow> nums) matches []
      in map (\<lambda>linenum. let textlinenum = Itoa linenum
           in Stdout (repo @ '':'' @ name @ '':'' @ textlinenum @ '':'' @ gm_str matches textlinenum))
         (sort nums))"

definition printMatches :: "search_result \<Rightarrow> printed list" where
  "printMatches sr =
     concat (map (\<lambda>(name, repos). concat (map (\<lambda>(repo, matches). print_lines repo name matches) repos))
       (sr_Matches sr))"

text \<open>The heading is printed once, before the first error.\<close>

definition pfirst :: "printed list \<Rightarrow> bool \<Rightarrow> printed list \<times> bool" where
  "pfirst out first = (if first then (out @ [println ''Errors:''], False) else (out, first))"

definition printErrors :: "search_result \<Rightarrow> printed list" where
  "printErrors sr =
     (let (out, first) = fold (\<lambda>(key, err) (out, first).
            if se_T err \<noteq> '''' then
              (let (out, first) = pfirst out first;
                   out = out @ [Stdout (''repo '' @ key @ '' ['' @ se_T err @ '']'')];
                   out = (if se_M err \<noteq> '''' then out @ [Stdout ('' '' @ se_M err)] else out)
               in (out @ [println ''''], first))
            else (out, first)) (sr_Errors sr) ([], True)
      in if sr_Error sr \<noteq> '''' then fst (pfirst out first) @ [println (sr_Error sr)] else out)"

definition printRepos :: "'s client_env \<Rightarrow> search_result \<Rightarrow> printed list" where
  "printRepos env sr =
     println ''Repos in result:'' # map (\<lambda>(_, repo). println (repoAsString env repo)) (sr_Repos sr)"

section \<open>The commands\<close>

definition search_request :: "client_flags \<Rightarrow> string \<Rightarrow> search_query" where
  "search_request fl query =
     \<lparr>sq_Re = query, sq_PathRe = fl_path fl, sq_IgnoreCase = fl_insens fl, sq_RepoKeys = fl_keys fl,
      sq_Meta = fl_meta fl, sq_MetaRegexpMatch = False, sq_MetaReplicaKey = '''', sq_MetaReplicaMax = 0,
      sq_Context = getSearchContext fl, sq_MaxMatches = fl_max fl, sq_Timeout = fl_timeout fl,
      sq_Recurse = True\<rparr>"

definition search :: "'s client_env \<Rightarrow> client_flags \<Rightarrow> string \<Rightarrow> 's \<Rightarrow> go_error option \<times> printed list \<times> 's" where
  "search env fl query s =
     (let ((sr, err), s) = ce_search env (search_request fl query) s;
          out = printMatches sr @ printErrors sr @ (if fl_verbose fl then printRepos env sr else []);
          err = (if sr_Error sr \<noteq> '''' then Some (OtherError (sr_Error sr)) else err)
      in (err, out, s))"

text \<open>The names to index are sorted into directories and files; one that does not exist is left out.\<close>

definition index_request :: "'s client_env \<Rightarrow> client_flags \<Rightarrow> string \<Rightarrow> string \<Rightarrow> string list \<Rightarrow> index_query" where
  "index_request env fl key rootdir dirsOrFiles =
     fold (\<lambda>path request.
         case ce_lstat env (path_Join [rootdir, path]) of
           Some True \<Rightarrow> request\<lparr>iq_Dirs := iq_Dirs request @ [path]\<rparr>
         | Some False \<Rightarrow> request\<lparr>iq_Files := iq_Files request @ [path]\<rparr>
         | None \<Rightarrow> request) dirsOrFiles
       \<lparr>iq_Key = key, iq_Root = rootdir, iq_Dirs = [], iq_Files = [], iq_Meta = fl_meta fl,
        iq_Recurse = True, iq_Timeout = 0\<rparr>"

definition index :: "'s client_env \<Rightarrow> client_flags \<Rightarrow> string \<Rightarrow> string \<Rightarrow> string list \<Rightarrow> 's \<Rightarrow>
    go_error option \<times> printed list \<times> 's" where
  "index env fl key rootdir dirsOrFiles s =
     (let ((ir, err), s) = ce_index env (index_request env fl key rootdir dirsOrFiles) s;
          out = (case ir_Repo ir of
              Some r \<Rightarrow> [println (''index ['' @ r_Key r @ ''] done in '' @
                 ce_show_duration env (r_ElapsedIndexing r))]
            | None \<Rightarrow> [])
      in if ir_Repo ir = None \<and> err \<noteq> None then (err, out, s)
         else (case ir_Error ir of
             Some e \<Rightarrow> (Some (StructError Ptr e), out, s)
           | None \<Rightarrow> (None, out, s)))"

definition repos :: "'s client_env \<Rightarrow> client_flags \<Rightarrow> string \<Rightarrow> 's \<Rightarrow> go_error option \<times> printed list \<times> 's" where
  "repos env fl key s =
     (if key = '''' then
        (case ce_getall env s of
           (rs, Some allerr) \<Rightarrow> (Some allerr, [], s)
         | (rs, None) \<Rightarrow> (None, map (\<lambda>(_, v). println (repoAsString env v)) rs, s))
      else if \<not> fl_delete fl then
        (case ce_get env key s of
           (rs, None) \<Rightarrow> (None, map (\<lambda>(_, repo). println (repoAsString env repo)) rs, s)
         | (rs, Some _) \<Rightarrow> (None, [], s))
      else (let (err, s) = ce_delete env key s in (err, [Stderr (''deleting repo '' @ key)], s)))"

text \<open>\<open>err\<close> is that of the last key.\<close>

fun repos_each :: "'s client_env \<Rightarrow> client_flags \<Rightarrow> string list \<Rightarrow> go_error option \<Rightarrow> 's \<Rightarrow>
    go_error option \<times> printed list \<times> 's" where
  "repos_each env fl [] err s = (err, [], s)"
| "repos_each env fl (arg # args) err s =
     (let (err, out, s) = repos env fl arg s; (err, out', s) = repos_each env fl args err s
      in (err, out @ out', s))"

definition show_strings :: "string list \<Rightarrow> string" where
  "show_strings ss = ''['' @ Join '' '' ss @ '']''"

text \<open>\<open>strings.ToLower\<close>, of the letters that occur in a command.\<close>

definition lower_char :: "char \<Rightarrow> char" where
  "lower_char c = (let n = of_char c :: nat in if 65 \<le> n \<and> n \<le> 90 then char_of (n + 32) else c)"

definition ToLower :: "string \<Rightarrow> string" where
  "ToLower s = map lower_char s"

text \<open>A flag set whose arguments do not parse reports them, shows its usage and exits.\<close>

fun parse_exit :: "string \<Rightarrow> client_flags parsed \<Rightarrow>
    (client_flags \<Rightarrow> string list \<Rightarrow> 's \<Rightarrow> ending \<times> printed list \<times> 's) \<Rightarrow> 's \<Rightarrow> ending \<times> printed list \<times> 's" where
  "parse_exit name (Parsed fl args) k s = k fl args s"
| "parse_exit name (BadFlags msg) k s = (Exited 2, [Stderr msg, Usage name], s)"
| "parse_exit name HelpAsked k s = (Exited 2, [Usage name], s)"

definition finished :: "go_error option \<times> printed list \<times> 's \<Rightarrow> ending \<times> printed list \<times> 's" where
  "finished r = (case r of (err, out, s) \<Rightarrow> (Finished err, out, s))"

definition prints :: "printed list \<Rightarrow> ending \<times> printed list \<times> 's \<Rightarrow> ending \<times> printed list \<times> 's" where
  "prints out r = (case r of (e, out', s) \<Rightarrow> (e, out @ out', s))"

text \<open>The connection is made first; a failure to connect ends the command.\<close>

definition connected :: "'s client_env \<Rightarrow> client_flags \<Rightarrow>
    ('s \<Rightarrow> go_error option \<times> printed list \<times> 's) \<Rightarrow> 's \<Rightarrow> ending \<times> printed list \<times> 's" where
  "connected env fl k s =
     (case setupContext env fl of Some e \<Rightarrow> (Finished (Some e), [], s) | None \<Rightarrow> finished (k s))"

definition doAfind :: "'s client_env \<Rightarrow> client_flags \<Rightarrow> string list \<Rightarrow> 's \<Rightarrow> ending \<times> printed list \<times> 's" where
  "doAfind env fl argv s =
     (let command = ToLower (hd argv); args = tl argv
      in if command = ''index'' then
           parse_exit ''index'' (Parse flagSetIndex args fl) (\<lambda>fl args s.
             if length args < 3 then (Finished None, [Usage ''index''], s)
             else prints [println (args ! 0 @ '' '' @ args ! 1 @ '' '' @ show_strings (drop 2 args))]
                    (connected env fl (index env fl (args ! 0) (args ! 1) (drop 2 args)) s)) s
         else if command = ''search'' then
           parse_exit ''search'' (Parse (flagSetSearch env) args fl) (\<lambda>fl args s.
             if length args < 1 then (Finished None, [Usage ''search''], s)
             else connected env fl (search env fl (Join '' '' args)) s) s
         else if command = ''repos'' then
           parse_exit ''repos'' (Parse flagSetRepos args fl) (\<lambda>fl _ s.
             connected env fl (if length args = 0 then repos env fl '''' else repos_each env fl args None) s) s
         else (Finished None, [], s))"

definition main :: "'s client_env \<Rightarrow> string list \<Rightarrow> 's \<Rightarrow> nat \<times> printed list \<times> 's" where
  "main env argv s =
     (case Parse (flagGlobal env) argv default_flags of
        BadFlags msg \<Rightarrow> (2, [Stderr msg, Usage ''''], s)
      | HelpAsked \<Rightarrow> (2, [Usage ''''], s)
      | Parsed fl args \<Rightarrow>
          if length args < 1 then (2, [Usage ''''], s)
          else (case doAfind env fl args s of
              (Exited n, out, s) \<Rightarrow> (n, out, s)
            | (Finished None, out, s) \<Rightarrow> (0, out, s)
            | (Finished (Some err), out, s) \<Rightarrow> (1, out @ [Stderr (''error: '' @ Error err @ [nl])], s)))"

section \<open>What is printed\<close>

lemma print_lines_nums:
  "fold (\<lambda>(l, _) nums. case Atoi l of Some linenum \<Rightarrow> nums @ [linenum] | None \<Rightarrow> nums) m acc
    = acc @ List.map_filter (\<lambda>(l, _). Atoi l) m"
  by (induction m arbitrary: acc) (auto simp: List.map_filter_simps split: option.splits)

definition print_line :: "string \<Rightarrow> string \<Rightarrow> int \<Rightarrow> string \<Rightarrow> printed" where
  "print_line repo name n text = Stdout (repo @ '':'' @ name @ '':'' @ Itoa n @ '':'' @ text)"

text \<open>The keys of a file's lines are the decimal numbers of a set \<open>N\<close>.\<close>

definition numbered :: "int set \<Rightarrow> fileMap \<Rightarrow> bool" where
  "numbered N m \<longleftrightarrow> gm_ok m \<and> fst ` set m = Itoa ` N \<and> N \<subseteq> {- (2 ^ 63)..< 2 ^ 63}"

lemma Atoi_in: "N \<subseteq> {- (2 ^ 63)..< 2 ^ 63} \<Longrightarrow> n \<in> N \<Longrightarrow> Atoi (Itoa n) = Some n"
  by (auto intro!: Atoi_Itoa)

lemma numbered_nums:
  assumes "fst ` set m \<subseteq> Itoa ` N" "N \<subseteq> {- (2 ^ 63)..< 2 ^ 63}"
  shows "map Itoa (List.map_filter (\<lambda>(l, _). Atoi l) m) = map fst m"
  using assms(1) by (induction m) (auto simp: List.map_filter_simps Atoi_in [OF assms(2)])

lemma sort_eq_sorted_list_of_set: "distinct xs \<Longrightarrow> sort xs = sorted_list_of_set (set xs)"
  by (simp add: sorted_list_of_set_sort_remdups distinct_remdups_id)

lemma print_lines_numbered:
  assumes "numbered N m"
  shows "print_lines repo name m
    = map (\<lambda>n. print_line repo name n (the (map_of m (Itoa n)))) (sorted_list_of_set N)"
proof -
  let ?nums = "List.map_filter (\<lambda>(l, _). Atoi l) m"
  from assms have m: "distinct (map fst m)" "fst ` set m = Itoa ` N" "N \<subseteq> {- (2 ^ 63)..< 2 ^ 63}"
    by (simp_all add: numbered_def gm_ok_def)
  then have nums: "map Itoa ?nums = map fst m" using numbered_nums [of m N] by simp
  then have "distinct (map Itoa ?nums)" using m(1) by simp
  then have d: "distinct ?nums" by (simp add: distinct_map)
  have "Itoa ` set ?nums = Itoa ` N" using nums m(2) by (metis list.set_map)
  then have set: "set ?nums = N" by (simp add: inj_image_eq_iff inj_def)
  have "gm_str m (Itoa n) = the (map_of m (Itoa n))" if "n \<in> N" for n
  proof -
    have "Itoa n \<in> fst ` set m" using m(2) that by simp
    then have "map_of m (Itoa n) \<noteq> None" by (simp add: map_of_eq_None_iff)
    then show ?thesis by (auto simp: gm_str_def)
  qed
  moreover have "set (sort ?nums) = N" using set by simp
  ultimately show ?thesis
    unfolding print_lines_def Let_def print_lines_nums print_line_def
    using sort_eq_sorted_list_of_set [OF d] set by (auto simp: map_eq_conv)
qed

section \<open>Deleting\<close>

lemma repos_delete:
  "fl_delete fl \<Longrightarrow> key \<noteq> [] \<Longrightarrow>
    repos env fl key s = (fst (ce_delete env key s), [Stderr (''deleting repo '' @ key)], snd (ce_delete env key s))"
  by (auto simp: repos_def split: prod.splits)

lemma repos_each_delete:
  "fl_delete fl \<Longrightarrow> [] \<notin> set args \<Longrightarrow>
    fst (snd (repos_each env fl args err s)) = map (\<lambda>k. Stderr (''deleting repo '' @ k)) args \<and>
    snd (snd (repos_each env fl args err s)) = fold (\<lambda>k s. snd (ce_delete env k s)) args s"
proof (induction args arbitrary: err s)
  case (Cons k ks)
  from Cons.IH [of "fst (ce_delete env k s)" "snd (ce_delete env k s)"] Cons.prems
  show ?case by (auto simp: repos_delete case_prod_beta Let_def)
qed simp

lemma repos_each_lost:
  "\<not> fl_delete fl \<Longrightarrow> '''' \<notin> set args \<Longrightarrow> (\<And>k. snd (ce_get env k s) \<noteq> None) \<Longrightarrow> err = None \<Longrightarrow>
    repos_each env fl args err s = (None, [], s)"
proof (induction args arbitrary: err)
  case (Cons k ks)
  obtain rs e where "ce_get env k s = (rs, Some e)"
    using Cons.prems(3) [of k] by (cases "ce_get env k s") auto
  then have "repos env fl k s = (None, [], s)"
    using Cons.prems(1,2) by (auto simp: repos_def)
  with Cons show ?case by simp
qed simp

lemma Parse_plain: "\<not> is_flag k \<Longrightarrow> Parse fs (k # ks) fl = Parsed fl (k # ks)"
  by simp

lemma Parse_D: "Parse flagSetRepos (''-D'' # args) fl = Parse flagSetRepos args (fl\<lparr>fl_delete := True\<rparr>)"
  by (simp add: is_flag_def flag_name_def flag_value_def flagSetRepos_def set_flag_def ParseBool_def)

lemma main_repos:
  assumes "Parse flagSetRepos args default_flags = Parsed fl rest" "ce_dial env (getFlagRpcAddress env fl) = None"
    "args \<noteq> []" "repos_each env fl args None s = (err, out, s')"
  shows "main env (''repos'' # args) s =
    (case err of None \<Rightarrow> (0, out, s') | Some e \<Rightarrow> (1, out @ [Stderr (''error: '' @ Error e @ [nl])], s'))"
proof -
  have "ToLower ''repos'' = ''repos''" by code_simp
  moreover have "\<not> is_flag ''repos''" by (simp add: is_flag_def)
  ultimately show ?thesis
    using assms by (simp add: main_def doAfind_def connected_def setupContext_def finished_def split: option.splits)
qed

text \<open>\<open>afind repos -D\<close> runs over the arguments before its flags are taken off: it deletes a repository
  named \<open>-D\<close> and then every key that is given, however many they are.\<close>

theorem repos_D_deletes_all:
  assumes "\<not> is_flag k" "'''' \<notin> set (k # ks)" "\<And>a. ce_dial env a = None"
  shows "\<exists>code errs. main env (''repos'' # ''-D'' # k # ks) s =
    (code, map (\<lambda>k. Stderr (''deleting repo '' @ k)) (''-D'' # k # ks) @ errs,
     fold (\<lambda>k s. snd (ce_delete env k s)) (''-D'' # k # ks) s)"
proof -
  let ?fl = "default_flags\<lparr>fl_delete := True\<rparr>" and ?args = "''-D'' # k # ks"
  have p: "Parse flagSetRepos ?args default_flags = Parsed ?fl (k # ks)"
    unfolding Parse_D using assms(1) by (rule Parse_plain)
  obtain err out s' where r: "repos_each env ?fl ?args None s = (err, out, s')"
    by (cases "repos_each env ?fl ?args None s") auto
  have "out = map (\<lambda>k. Stderr (''deleting repo '' @ k)) ?args"
    "s' = fold (\<lambda>k s. snd (ce_delete env k s)) ?args s"
    using repos_each_delete [of ?fl ?args env None s] assms(2) unfolding r by simp_all
  with main_repos [OF p assms(3) _ r] show ?thesis by (cases err) auto
qed

text \<open>\<open>afind repos\<close> with keys reports nothing and succeeds when the daemon answers every request with
  an error: the error of \<open>Get\<close> is dropped.\<close>

theorem repos_get_errors_lost:
  assumes "\<not> is_flag k" "'''' \<notin> set (k # ks)" "\<And>a. ce_dial env a = None"
    and "\<And>k. snd (ce_get env k s) \<noteq> None"
  shows "main env (''repos'' # k # ks) s = (0, [], s)"
proof -
  have "Parse flagSetRepos (k # ks) default_flags = Parsed default_flags (k # ks)"
    using assms(1) by (rule Parse_plain)
  moreover have "repos_each env default_flags (k # ks) None s = (None, [], s)"
    using assms(2,4) by (intro repos_each_lost) (auto simp: default_flags_def)
  ultimately show ?thesis using main_repos [of "k # ks" default_flags "k # ks" env s None "[]" s] assms(3)
    by simp
qed

text \<open>A daemon that is a set of keys, answering every \<open>Get\<close> with an error.\<close>

definition toy_env :: "string set client_env" where
  "toy_env = \<lparr>ce_server = '''', ce_dial = \<lambda>_. None, ce_search = \<lambda>_ s. ((NewSearchResult, None), s),
     ce_index = \<lambda>_ s. ((NewIndexResult, None), s), ce_get = \<lambda>_ _. ([], Some (OtherError ''rpc'')),
     ce_getall = \<lambda>_. ([], None), ce_delete = \<lambda>k s. (None, s - {k}), ce_lstat = \<lambda>p. Some (p = ''/r/d''),
     ce_int = Atoi, ce_uint = \<lambda>_. None, ce_duration = \<lambda>_. None, ce_show_time = Itoa,
     ce_show_duration = \<lambda>_. ''0''\<rparr>"

lemma repos_D_deletes_all_witness:
  "\<exists>code out. main toy_env [''repos'', ''-D'', ''a'', ''b''] {''a'', ''b'', ''c'', ''-D''} = (code, out, {''c''})"
  using repos_D_deletes_all [of "''a''" "[''b'']" toy_env "{''a'', ''b'', ''c'', ''-D''}"]
  by (auto simp: is_flag_def toy_env_def insert_Diff_if)

lemma repos_get_errors_lost_witness: "main toy_env [''repos'', ''a'', ''b''] {} = (0, [], {})"
  using repos_get_errors_lost [of "''a''" "[''b'']" toy_env "{}"]
  by (simp add: is_flag_def toy_env_def)

section \<open>Index requests\<close>

lemma index_request_sorted:
  "index_request env fl key rootdir paths =
    \<lparr>iq_Key = key, iq_Root = rootdir,
     iq_Dirs = filter (\<lambda>p. ce_lstat env (path_Join [rootdir, p]) = Some True) paths,
     iq_Files = filter (\<lambda>p. ce_lstat env (path_Join [rootdir, p]) = Some False) paths,
     iq_Meta = fl_meta fl, iq_Recurse = True, iq_Timeout = 0\<rparr>"
proof -
  have "fold (\<lambda>path request. case ce_lstat env (path_Join [rootdir, path]) of
        Some True \<Rightarrow> request\<lparr>iq_Dirs := iq_Dirs request @ [path]\<rparr>
      | Some False \<Rightarrow> request\<lparr>iq_Files := iq_Files request @ [path]\<rparr>
      | None \<Rightarrow> request) paths q
    = q\<lparr>iq_Dirs := iq_Dirs q @ filter (\<lambda>p. ce_lstat env (path_Join [rootdir, p]) = Some True) paths,
        iq_Files := iq_Files q @ filter (\<lambda>p. ce_lstat env (path_Join [rootdir, p]) = Some False) paths\<rparr>"
    for q :: index_query
    by (induction paths arbitrary: q) (auto split: option.split bool.split)
  then show ?thesis by (simp add: index_request_def)
qed

text \<open>The daemon's validation accepts what \<open>afind index\<close> sends for a non-empty key, an absolute root and
  relative names of which at least one exists: the directories among the names, each once and with
  \<open>.\<close> read as the root, and the other files; names that do not exist are left out silently.\<close>

theorem index_request_accepted:
  assumes "\<And>xs. mset (order xs) = mset xs" "key \<noteq> []" "IsAbs rootdir"
    and "\<And>p. p \<in> set paths \<Longrightarrow> \<not> IsAbs p"
    and "p0 \<in> set paths" "ce_lstat env (path_Join [rootdir, p0]) \<noteq> None"
  shows "\<exists>q. IndexQuery_Normalize order (index_request env fl key rootdir paths) = Inr q \<and>
    iq_Key q = key \<and> iq_Root q = rootdir \<and> distinct (iq_Dirs q) \<and>
    set (iq_Dirs q) = dir_norm ` {p \<in> set paths. ce_lstat env (path_Join [rootdir, p]) = Some True} \<and>
    iq_Files q = filter (\<lambda>p. ce_lstat env (path_Join [rootdir, p]) = Some False) paths"
proof -
  let ?q = "index_request env fl key rootdir paths"
  have d: "set (iq_Dirs ?q) = {p \<in> set paths. ce_lstat env (path_Join [rootdir, p]) = Some True}"
    by (auto simp: index_request_sorted)
  have ok: "\<forall>d \<in> set (iq_Dirs ?q). dir_ok d"
    using assms(4) by (auto simp: index_request_sorted dir_ok_def)
  obtain ds where ds: "normalize_dirs (iq_Dirs ?q) [] = Inr ds" "distinct ds"
    "set ds = dir_norm ` set (iq_Dirs ?q)"
    using normalize_dirs_iff [of "[]" "iq_Dirs ?q"] ok by (auto split: sum.splits)
  have "iq_Dirs ?q \<noteq> [] \<or> iq_Files ?q \<noteq> []"
    using assms(5) by (cases "the (ce_lstat env (path_Join [rootdir, p0]))")
      (use assms(6) in \<open>auto simp: index_request_sorted filter_empty_conv\<close>)
  then have "IndexQuery_Normalize order ?q = Inr (?q\<lparr>iq_Dirs := order ds\<rparr>)"
    using assms(2,3) ds(1) by (auto simp: IndexQuery_Normalize_def index_request_sorted)
  moreover have "distinct (order ds)" "set (order ds) = set ds"
    using assms(1) [of ds] ds(2) by (metis mset_eq_imp_distinct_iff, metis set_mset_mset)
  ultimately show ?thesis using ds(3) d by (auto simp: index_request_sorted)
qed

lemma index_request_accepted_witness:
  "\<exists>q. IndexQuery_Normalize rev (index_request toy_env default_flags ''k'' ''/r'' [''d'', ''f'']) = Inr q \<and>
     iq_Dirs q = [''d''] \<and> iq_Files q = [''f'']"
proof -
  have j: "path_Join [''/r'', ''d''] = ''/r/d''" "path_Join [''/r'', ''f''] = ''/r/f''" by code_simp+
  have hyps: "\<And>xs :: string list. mset (rev xs) = mset xs" "''k'' \<noteq> []" "IsAbs ''/r''"
    "\<And>p. p \<in> set [''d'', ''f''] \<Longrightarrow> \<not> IsAbs p" "''d'' \<in> set [''d'', ''f'']"
    "ce_lstat toy_env (path_Join [''/r'', ''d'']) \<noteq> None"
    by (auto simp: toy_env_def IsAbs_def HasPrefix_def)
  obtain q where q: "IndexQuery_Normalize rev (index_request toy_env default_flags ''k'' ''/r'' [''d'', ''f'']) = Inr q"
    "distinct (iq_Dirs q)"
    "set (iq_Dirs q) = dir_norm ` {p \<in> set [''d'', ''f'']. ce_lstat toy_env (path_Join [''/r'', p]) = Some True}"
    "iq_Files q = filter (\<lambda>p. ce_lstat toy_env (path_Join [''/r'', p]) = Some False) [''d'', ''f'']"
    using index_request_accepted [OF hyps, of default_flags] by blast
  have "{p \<in> set [''d'', ''f'']. ce_lstat toy_env (path_Join [''/r'', p]) = Some True} = {''d''}"
    by (auto simp: j toy_env_def)
  with q(3) have "set (iq_Dirs q) = {''d''}" by (simp add: dir_norm_def)
  with q(2) have "iq_Dirs q = [''d'']" by (cases "iq_Dirs q") (auto simp: subset_singleton_iff)
  moreover have "iq_Files q = [''f'']" using q(4) by (simp add: j toy_env_def)
  ultimately show ?thesis using q(1) by blast
qed

end
