(* ===== verification/Printing.thy ===== *)
theory Printing
  imports Client
begin

text \<open>
  From the bytes of a file to what the client prints: the client's \<open>printMatches\<close> prints the map of
  lines that the scanner of \<open>afind/grepper.go\<close> returns as the matching lines of the file, in order.
\<close>

section \<open>What the client prints\<close>

lemma entries_numbered:
  assumes "entries L S m" "gm_ok m" "int (length L) < 2 ^ 63"
  shows "numbered ((\<lambda>i. int i + 1) ` {i \<in> S. i < length L}) m"
proof -
  have "fst ` set m = {k. map_of m k \<noteq> None}"
    by (auto simp: map_of_eq_None_iff)
  also have "\<dots> = Itoa ` (\<lambda>i. int i + 1) ` {i \<in> S. i < length L}"
    using assms(1) unfolding entries_def image_image by (fastforce simp: image_iff)
  finally show ?thesis using assms(2,3) by (auto simp: numbered_def)
qed

lemma sorted_list_of_set_suc:
  "sorted_list_of_set ((\<lambda>i. int i + 1) ` {i. i < n \<and> Q i}) = map (\<lambda>i. int i + 1) (filter Q [0..<n])"
proof (rule sorted_distinct_set_unique)
  have "sorted_wrt (<) (filter Q [0..<n])" by (rule sorted_wrt_filter) simp
  then have "sorted_wrt (<) (map (\<lambda>i. int i + 1) (filter Q [0..<n]))"
    unfolding sorted_wrt_map by (rule sorted_wrt_mono_rel [rotated]) simp
  then show "sorted (map (\<lambda>i. int i + 1) (filter Q [0..<n]))" by (rule strict_sorted_imp_sorted)
qed (auto simp: distinct_map inj_on_def)

text \<open>What the client prints for a file that the scanner has searched is exactly the matching lines
  of the file, each once, in the order of the file, headed by repository, file name and line number;
  whatever chunks the file was read in and in whatever order the map of its lines is visited.\<close>

theorem printed_lines_are_matches:
  assumes "line_matcher P rmatch" "npre g \<le> 0" "npost g \<le> 0" "0 < buf_cap g"
    and "fits (buf_cap g) (io_data r)" "L = lines (io_data r)" "int (length L) < 2 ^ 63"
  shows "\<exists>n m e. reader rmatch g r = Some (n, m, e) \<and> gm_ok m \<and>
    (\<forall>m'. gm_eq m m' \<longrightarrow> print_lines repo name m'
      = map (\<lambda>i. print_line repo name (int i + 1) (L ! i)) (filter (\<lambda>i. P (strip (L ! i))) [0..<length L]))"
proof -
  let ?H = "{i. i < length L \<and> P (strip (L ! i))}"
  obtain n m e S where r: "reader rmatch g r = Some (n, m, e)" "?H \<subseteq> S" "S \<subseteq> ?H \<union> above g ?H"
    "entries L S m"
    using reader_reports_lines [OF assms(1,3-5)] unfolding Let_def assms(6) [symmetric] by blast
  have S: "S = ?H" using r(2,3) assms(2) by (auto simp: above_def)
  have N: "(\<lambda>i. int i + 1) ` {i \<in> S. i < length L} = (\<lambda>i. int i + 1) ` ?H"
    unfolding S by auto
  have "print_lines repo name m' = map (\<lambda>i. print_line repo name (int i + 1) (L ! i))
      (filter (\<lambda>i. P (strip (L ! i))) [0..<length L])" if "gm_eq m m'" for m'
  proof -
    have m': "gm_ok m'" "entries L S m'" using that r(4) by (simp_all add: gm_eq_def entries_def)
    have "map_of m' (Itoa (int i + 1)) = Some (L ! i)" if "i \<in> ?H" for i
      using m'(2) that unfolding entries_def S by auto
    then show ?thesis
      using print_lines_numbered [OF entries_numbered [OF m'(2,1) assms(7)]]
      unfolding N sorted_list_of_set_suc by auto
  qed
  then show ?thesis using r(1) reader_wf [OF r(1)] by blast
qed

lemma printed_lines_are_matches_witness:
  "\<exists>n m e. reader (\<lambda>b _ e. line_match (\<lambda>l. CHR ''x'' \<in> set l) b e)
      ((newGrep [] [])\<lparr>g_buf := Some 3\<rparr>)
      \<lparr>io_data = ''ax'' @ [nl] @ ''b'' @ [nl] @ ''x'', io_err = EOF\<rparr> = Some (n, m, e) \<and>
    print_lines ''repo'' ''f'' m = [Stdout (''repo:f:1:ax'' @ [nl]), Stdout ''repo:f:3:x'']"
proof -
  let ?r = "\<lparr>io_data = ''ax'' @ [nl] @ ''b'' @ [nl] @ ''x'', io_err = EOF\<rparr>"
  let ?g = "(newGrep [] [])\<lparr>g_buf := Some 3\<rparr>"
  let ?P = "\<lambda>l :: string. CHR ''x'' \<in> set l"
  let ?L = "[''ax'' @ [nl], ''b'' @ [nl], ''x'']"
  have L: "lines (io_data ?r) = ?L" by (simp add: nl_def)
  have hyps: "line_matcher ?P (\<lambda>b _ e. line_match ?P b e)" "npre ?g \<le> 0" "npost ?g \<le> 0"
    "0 < buf_cap ?g" "fits (buf_cap ?g) (io_data ?r)" "int (length ?L) < 2 ^ 63"
    unfolding L fits_def
    by (simp_all add: L line_matcher_def npre_def npost_def newGrep_def buf_cap_def strip_def nl_def)
  obtain n m e where res: "reader (\<lambda>b _ e. line_match ?P b e) ?g ?r = Some (n, m, e)" "gm_ok m"
    "\<forall>m'. gm_eq m m' \<longrightarrow> print_lines ''repo'' ''f'' m'
      = map (\<lambda>i. print_line ''repo'' ''f'' (int i + 1) (?L ! i)) (filter (\<lambda>i. ?P (strip (?L ! i))) [0..<length ?L])"
    using printed_lines_are_matches [OF hyps(1-5) L [symmetric] hyps(6), of "''repo''" "''f''"] by blast
  have "filter (\<lambda>i. ?P (strip (?L ! i))) [0..<length ?L] = [0, 2]"
    by (simp add: upt_rec strip_def nl_def)
  moreover have "Itoa_nat (Suc 0) = ''1''" "Itoa_nat 3 = ''3''"
    by code_simp+
  moreover have "gm_eq m m" using res(2) by (simp add: gm_eq_def)
  ultimately have "print_lines ''repo'' ''f'' m = [Stdout (''repo:f:1:ax'' @ [nl]), Stdout ''repo:f:3:x'']"
    using res(3) by (simp add: print_line_def Itoa_def digit_def)
  with res(1) show ?thesis by blast
qed

end
