(* ===== verification/Stopwatch.thy ===== *)
theory Stopwatch
  imports Prelude
begin

text \<open>
  \<open>stopwatch/stopwatch.go\<close>: named stop watches. The clock is the argument \<open>now\<close>, a count of
  nanoseconds; \<open>time.Since\<close> is the difference as a \<open>time.Duration\<close>, which saturates at the ends of
  its 64-bit range.
\<close>

section \<open>The watches\<close>

type_synonym stopwatches = "(string, int) gomap"

definition New :: stopwatches where
  "New = []"

definition maxDuration :: int where
  "maxDuration = 2 ^ 63 - 1"

definition minDuration :: int where
  "minDuration = - (2 ^ 63)"

definition Since :: "int \<Rightarrow> int \<Rightarrow> duration" where
  "Since now started =
     word_of_int (if now - started > maxDuration then maxDuration
       else if now - started < minDuration then minDuration else now - started)"

definition Start :: "string \<Rightarrow> int \<Rightarrow> stopwatches \<Rightarrow> (int \<times> stopwatches) outcome" where
  "Start name now sw =
     (case map_of sw name of
        None \<Rightarrow> Returns (now, gm_put name now sw)
      | Some _ \<Rightarrow> Panics (''already started: '' @ name))"

definition Stop :: "string \<Rightarrow> int \<Rightarrow> stopwatches \<Rightarrow> (duration \<times> stopwatches) outcome" where
  "Stop name now sw =
     (case map_of sw name of
        Some started \<Rightarrow> Returns (Since now started, gm_delete name sw)
      | None \<Rightarrow> Panics (''not started: '' @ name))"

section \<open>Sequences of calls\<close>

datatype sw_call = SwStart string | SwStop string

fun sw_name :: "sw_call \<Rightarrow> string" where
  "sw_name (SwStart n) = n"
| "sw_name (SwStop n) = n"

text \<open>Calls with the times they are made at; the durations the stops return, in order.\<close>

fun sw_calls :: "(sw_call \<times> int) list \<Rightarrow> stopwatches \<Rightarrow> ((string \<times> duration) list \<times> stopwatches) outcome" where
  "sw_calls [] sw = Returns ([], sw)"
| "sw_calls ((SwStart n, t) # cs) sw =
     (case Start n t sw of
        Panics msg \<Rightarrow> Panics msg
      | Returns (_, sw') \<Rightarrow> sw_calls cs sw')"
| "sw_calls ((SwStop n, t) # cs) sw =
     (case Stop n t sw of
        Panics msg \<Rightarrow> Panics msg
      | Returns (d, sw') \<Rightarrow>
          (case sw_calls cs sw' of
             Panics msg \<Rightarrow> Panics msg
           | Returns (ds, sw'') \<Rightarrow> Returns ((n, d) # ds, sw'')))"

text \<open>The calls on one watch must alternate, a start first.\<close>

fun alternates :: "bool \<Rightarrow> sw_call list \<Rightarrow> bool" where
  "alternates running [] = True"
| "alternates running (SwStart n # cs) = (\<not> running \<and> alternates True cs)"
| "alternates running (SwStop n # cs) = (running \<and> alternates False cs)"

definition calls_on :: "string \<Rightarrow> (sw_call \<times> int) list \<Rightarrow> sw_call list" where
  "calls_on n cs = filter (\<lambda>c. sw_name c = n) (map fst cs)"

lemma calls_on_Cons: "calls_on n ((c, t) # cs) = (if sw_name c = n then c # calls_on n cs else calls_on n cs)"
  by (simp add: calls_on_def)

lemma sw_calls_ok_from:
  "returns (sw_calls cs sw) \<longleftrightarrow> (\<forall>n. alternates (map_of sw n \<noteq> None) (calls_on n cs))"
proof (induction cs sw rule: sw_calls.induct)
  case (1 sw)
  then show ?case by (simp add: calls_on_def)
next
  case (2 n t cs sw)
  show ?case
  proof (cases "map_of sw n")
    case None
    then have "returns (sw_calls cs (gm_put n t sw)) \<longleftrightarrow>
        (\<forall>m. alternates (map_of (gm_put n t sw) m \<noteq> None) (calls_on m cs))"
      using 2 by (simp add: Start_def)
    also have "\<dots> \<longleftrightarrow> (\<forall>m. alternates (map_of sw m \<noteq> None) (calls_on m ((SwStart n, t) # cs)))"
      using None by (intro all_cong1) (auto simp: calls_on_Cons)
    finally show ?thesis using None by (simp add: Start_def)
  next
    case (Some t')
    then have "\<not> alternates (map_of sw n \<noteq> None) (calls_on n ((SwStart n, t) # cs))"
      by (simp add: calls_on_Cons)
    then have "\<not> (\<forall>m. alternates (map_of sw m \<noteq> None) (calls_on m ((SwStart n, t) # cs)))" by blast
    moreover have "\<not> returns (sw_calls ((SwStart n, t) # cs) sw)" using Some by (simp add: Start_def)
    ultimately show ?thesis by blast
  qed
next
  case (3 n t cs sw)
  show ?case
  proof (cases "map_of sw n")
    case (Some t')
    then have "returns (sw_calls cs (gm_delete n sw)) \<longleftrightarrow>
        (\<forall>m. alternates (map_of (gm_delete n sw) m \<noteq> None) (calls_on m cs))"
      using 3 by (simp add: Stop_def)
    also have "\<dots> \<longleftrightarrow> (\<forall>m. alternates (map_of sw m \<noteq> None) (calls_on m ((SwStop n, t) # cs)))"
      using Some by (intro all_cong1) (auto simp: calls_on_Cons)
    finally show ?thesis using Some by (auto simp: Stop_def split: outcome.splits)
  next
    case None
    then have "\<not> alternates (map_of sw n \<noteq> None) (calls_on n ((SwStop n, t) # cs))"
      by (simp add: calls_on_Cons)
    then have "\<not> (\<forall>m. alternates (map_of sw m \<noteq> None) (calls_on m ((SwStop n, t) # cs)))" by blast
    moreover have "\<not> returns (sw_calls ((SwStop n, t) # cs) sw)" using None by (simp add: Stop_def)
    ultimately show ?thesis by blast
  qed
qed

text \<open>What one watch alone would show: the time from each start to the stop that follows it.\<close>

fun laps :: "string \<Rightarrow> int option \<Rightarrow> (sw_call \<times> int) list \<Rightarrow> duration list" where
  "laps n started [] = []"
| "laps n started ((SwStart m, t) # cs) = laps n (if m = n then Some t else started) cs"
| "laps n started ((SwStop m, t) # cs) =
     (if m = n
      then (case started of Some t' \<Rightarrow> Since t t' # laps n None cs | None \<Rightarrow> laps n None cs)
      else laps n started cs)"

lemma sw_calls_laps:
  "sw_calls cs sw = Returns (ds, sw') \<Longrightarrow>
    map snd (filter (\<lambda>(m, d). m = n) ds) = laps n (map_of sw n) cs"
  by (induction cs sw arbitrary: ds rule: sw_calls.induct)
     (auto simp: Start_def Stop_def split: outcome.splits option.splits prod.splits)

lemma Since_exact: "0 \<le> t \<Longrightarrow> t \<le> u \<Longrightarrow> u < 2 ^ 63 \<Longrightarrow> uint (Since u t) = u - t"
  by (simp add: Since_def maxDuration_def minDuration_def unsigned_of_int take_bit_int_eq_self
      del: of_int_diff)

text \<open>Watches do not interfere: a sequence of calls panics exactly when the calls on some one watch
  do not alternate between starting and stopping, and otherwise each watch returns the times
  between its own starts and stops, whatever the other watches do in between.\<close>

theorem stopwatches_independent:
  "(returns (sw_calls cs New) \<longleftrightarrow> (\<forall>n. alternates False (calls_on n cs))) \<and>
   (\<forall>ds sw. sw_calls cs New = Returns (ds, sw) \<longrightarrow>
     (\<forall>n. map snd (filter (\<lambda>(m, d). m = n) ds) = laps n None cs))"
  using sw_calls_ok_from [of cs New] sw_calls_laps [of cs New] by (simp add: New_def)

lemma stopwatches_independent_witness:
  "(let cs = [(SwStart ''*'', 5), (SwStart ''q'', 7), (SwStop ''q'', 9), (SwStart ''q'', 10),
       (SwStop ''*'', 30), (SwStop ''q'', 40)]
    in returns (sw_calls cs New) \<and> laps ''q'' None cs = [2, 30] \<and> laps ''*'' None cs = [25]) \<and>
   \<not> returns (sw_calls [(SwStart ''q'', 7), (SwStart ''q'', 9)] New)"
proof -
  let ?cs = "[(SwStart ''*'', 5 :: int), (SwStart ''q'', 7), (SwStop ''q'', 9), (SwStart ''q'', 10),
       (SwStop ''*'', 30), (SwStop ''q'', 40)]"
  have "\<forall>n. alternates False (calls_on n ?cs)" by (simp add: calls_on_def)
  then have "returns (sw_calls ?cs New)" using stopwatches_independent [of ?cs] by blast
  moreover have "\<not> alternates False (calls_on ''q'' [(SwStart ''q'', 7 :: int), (SwStart ''q'', 9)])"
    by (simp add: calls_on_def)
  then have "\<not> returns (sw_calls [(SwStart ''q'', 7), (SwStart ''q'', 9)] New)"
    using stopwatches_independent [of "[(SwStart ''q'', 7), (SwStart ''q'', 9)]"] by blast
  ultimately show ?thesis
    by (simp add: Let_def Since_def maxDuration_def minDuration_def)
qed

end
