(* ===== verification/Index_Writers.thy ===== *)
theory Index_Writers
  imports Index
begin

text \<open>
  What the indexer relies on of the writers of its shards, as the locale \<open>index_writer\<close>, and the
  writer of \<open>afind/index_mock.go\<close>, which counts the calls made on it and keeps the contract.
\<close>

section \<open>The contract\<close>

locale index_writer =
  fixes add :: "string \<Rightarrow> 'f \<Rightarrow> 'w \<Rightarrow> 'w" and flush :: "'w \<Rightarrow> 'w"
    and added :: "'w \<Rightarrow> nat" and flushes :: "'w \<Rightarrow> nat"
  assumes added_add: "added (add name r w) = Suc (added w)"
    and added_flush: "added (flush w) = added w"
    and flushes_add: "flushes (add name r w) = flushes w"
    and flushes_flush: "flushes (flush w) = Suc (flushes w)"
begin

lemma indexShard_adds:
  "ie_add env = add \<Longrightarrow> (\<And>i. \<not> expired i) \<Longrightarrow>
    added (fst (indexShard env root expired i names w num))
      = added w + length (filter (openable env root) names)"
  by (induction names arbitrary: i w num) (auto simp: openable_def added_add split: sum.splits)

lemma indexShard_flushes:
  "ie_add env = add \<Longrightarrow> flushes (fst (indexShard env root expired i names w num)) = flushes w"
  by (induction names arbitrary: i w num) (auto simp: flushes_add split: sum.splits)

lemma flushed_once:
  assumes "ie_add env = add" "ie_flush env = flush" "length ws = length sch"
  shows "map flushes (flush_shards env (run_shards env root ws sch)) = map (\<lambda>w. Suc (flushes (the w))) ws"
  using assms(3)
proof (induction ws sch rule: list_induct2)
  case (Cons w ws s sch)
  then show ?case
    by (auto simp: flush_shards_def run_shards_def flushes_flush indexShard_flushes assms split: prod.splits)
       (metis fst_conv indexShard_flushes assms(1))
qed (simp add: flush_shards_def run_shards_def)

lemma added_total:
  assumes "ie_add env = add" "ie_flush env = flush" "length ws = length sch"
    and "\<forall>(taken, expired) \<in> set sch. \<forall>i. \<not> expired i"
  shows "sum_list (map added (flush_shards env (run_shards env root ws sch)))
    = sum_list (map (added \<circ> the) ws) + length (filter (openable env root) (concat (map fst sch)))"
  using assms(3,4)
proof (induction ws sch rule: list_induct2)
  case (Cons w ws s sch)
  obtain taken expired where s: "s = (taken, expired)" by (cases s)
  with Cons.prems have "\<And>i. \<not> expired i" by auto
  then have "added (fst (indexShard env root expired 0 taken (the w) 0))
      = added (the w) + length (filter (openable env root) taken)"
    by (intro indexShard_adds [OF assms(1)])
  with Cons show ?case
    by (auto simp: s flush_shards_def run_shards_def added_flush assms(2) case_prod_beta)
qed (simp add: flush_shards_def run_shards_def)

end

section \<open>The counting writer\<close>

record mockIndexWriter =
  mw_name :: string
  mw_called :: "(string, nat) gomap"

type_synonym mockIndices = "(string, mockIndexWriter) gomap"

definition mw_calls :: "string \<Rightarrow> mockIndexWriter \<Rightarrow> nat" where
  "mw_calls key w = (case map_of (mw_called w) key of Some n \<Rightarrow> n | None \<Rightarrow> 0)"

text \<open>\<open>iw.called[key]++\<close>, under the writer's lock.\<close>

definition mw_count :: "string \<Rightarrow> mockIndexWriter \<Rightarrow> mockIndexWriter" where
  "mw_count key w = w\<lparr>mw_called := gm_put key (mw_calls key w + 1) (mw_called w)\<rparr>"

definition calls :: "mockIndices \<Rightarrow> string \<Rightarrow> nat" where
  "calls ix key = fold (\<lambda>(_, mock) sum. sum + mw_calls key mock) ix 0"

definition indices_reset :: "mockIndices \<Rightarrow> mockIndices" where
  "indices_reset ix = map (\<lambda>(name, mock). (name, mock\<lparr>mw_called := []\<rparr>)) ix"

definition getWriterFunc :: "string \<Rightarrow> mockIndices \<Rightarrow> mockIndexWriter \<times> mockIndices" where
  "getWriterFunc name ix = (let mock = \<lparr>mw_name = name, mw_called = []\<rparr> in (mock, gm_put name mock ix))"

definition cDataBytes :: nat where "cDataBytes = 1000"
definition cIndexBytes :: nat where "cIndexBytes = 123"

text \<open>The methods have value receivers: they share the map of counts, but what \<open>reset\<close> assigns to its
  copy of the struct is lost.\<close>

definition mw_reset :: "mockIndexWriter \<Rightarrow> mockIndexWriter" where
  "mw_reset w = w"

definition AddPaths :: "string list \<Rightarrow> mockIndexWriter \<Rightarrow> mockIndexWriter" where
  "AddPaths paths w = mw_count ''AddPaths'' w"

definition AddFile :: "string \<Rightarrow> mockIndexWriter \<Rightarrow> mockIndexWriter" where
  "AddFile name w = mw_count ''AddFile'' w"

definition Add :: "string \<Rightarrow> 'f \<Rightarrow> mockIndexWriter \<Rightarrow> mockIndexWriter" where
  "Add name f w = mw_count ''Add'' w"

definition DataBytes :: "mockIndexWriter \<Rightarrow> nat \<times> mockIndexWriter" where
  "DataBytes w = (cDataBytes, mw_count ''DataBytes'' w)"

definition IndexBytes :: "mockIndexWriter \<Rightarrow> nat \<times> mockIndexWriter" where
  "IndexBytes w = (cIndexBytes, mw_count ''IndexBytes'' w)"

definition Flush :: "mockIndexWriter \<Rightarrow> mockIndexWriter" where
  "Flush w = mw_count ''Flush'' w"

lemma mw_calls_count: "mw_calls key (mw_count key' w) = mw_calls key w + (if key = key' then 1 else 0)"
  by (simp add: mw_count_def mw_calls_def)

interpretation mock: index_writer Add Flush "mw_calls ''Add''" "mw_calls ''Flush''"
  by unfold_locales (simp_all add: Add_def Flush_def mw_calls_count)

lemma calls_sum: "calls ix key = sum_list (map (mw_calls key \<circ> snd) ix)"
proof -
  have "fold (\<lambda>(_, mock) sum. sum + mw_calls key mock) ix n = n + sum_list (map (mw_calls key \<circ> snd) ix)" for n
    by (induction ix arbitrary: n) auto
  then show ?thesis by (simp add: calls_def)
qed

section \<open>Every opened file is added once\<close>

lemma fresh_total: "\<forall>w \<in> set ws. mw_calls key (the w) = 0 \<Longrightarrow> sum_list (map (mw_calls key \<circ> the) ws) = 0"
  by (induction ws) auto

text \<open>When indexing ends with an available repository, the number of files it records is the number
  of times a file was added to the writers of its shards, over all of them; and each writer has been
  flushed exactly once.\<close>

theorem opened_files_added_once:
  assumes "IndexQuery_Normalize order req = Inr req'" "getRoot cfg req' = (rt, q)"
    and "0 \<le> c_NumShards cfg" "n = nat (if c_NumShards cfg = 0 then 1 else min (c_NumShards cfg) 32)"
    and "files = map (\<lambda>i. path_Join [rt, shardName (iq_Key req) (int i)]) [0..<n]"
    and "create_shards env files = Inr writers"
    and "scanner fuel (ie_walkfs env rt) (ie_art env) q = Some (names, scanerr)"
    and "fair sched n names"
    and "ie_add env = Add" "ie_flush env = Flush" "\<forall>w \<in> set writers. mw_called (the w) = []"
  shows "\<exists>repo. Index cfg env order fuel sched None elapsed now req =
      Some (Returns (\<lparr>ir_Repo = Some repo, ir_Error = None\<rparr>, None)) \<and>
    (let ws = flush_shards env (run_shards env rt writers (sched n names))
     in r_NumFiles repo = int (sum_list (map (mw_calls ''Add'') ws)) \<and>
       length ws = n \<and> (\<forall>w \<in> set ws. mw_calls ''Flush'' w = 1))"
proof -
  obtain repo where repo: "Index cfg env order fuel sched None elapsed now req =
      Some (Returns (\<lparr>ir_Repo = Some repo, ir_Error = None\<rparr>, None))"
    "r_NumFiles repo = int (length (filter (openable env rt) names))"
    using Index_built [OF assms(1-8), of elapsed now] by blast
  have fresh: "\<forall>w \<in> set writers. mw_calls key (the w) = 0" for key
    using assms(11) by (auto simp: mw_calls_def)
  have len: "length writers = length (sched n names)" "length (sched n names) = n"
    using create_shards_length [OF assms(6)] assms(5,8) by (auto simp: fair_def)
  have run: "\<forall>(taken, expired) \<in> set (sched n names). \<forall>i. \<not> expired i"
    "mset (concat (map fst (sched n names))) = mset names"
    using assms(8) by (auto simp: fair_def)
  let ?ws = "flush_shards env (run_shards env rt writers (sched n names))"
  have "sum_list (map (mw_calls ''Add'') ?ws) = length (filter (openable env rt) names)"
    using mock.added_total [OF assms(9,10) len(1) run(1)] fresh_total [OF fresh]
      length_filter_mset [OF run(2)] by simp
  moreover have "map (mw_calls ''Flush'') ?ws = map (\<lambda>w. 1) writers"
    unfolding mock.flushed_once [OF assms(9,10) len(1)] using fresh by simp
  then have m: "map (mw_calls ''Flush'') ?ws = replicate n 1"
    using len by (simp add: map_replicate_const)
  then have "length ?ws = n" by (metis length_map length_replicate)
  moreover have "set (map (mw_calls ''Flush'') ?ws) \<subseteq> {1}" unfolding m by auto
  then have "\<forall>w \<in> set ?ws. mw_calls ''Flush'' w = 1" by auto
  ultimately show ?thesis using repo by (simp add: Let_def)
qed

definition mock_index_env :: "(mockIndexWriter, string, string list) index_env" where
  "mock_index_env = \<lparr>ie_mkdir = (\<lambda>_. None), ie_exists = (\<lambda>_. False),
     ie_create = (\<lambda>name. Returns (fst (getWriterFunc name []))), ie_walkfs = ie_walkfs tiny_index_env,
     ie_open = ie_open tiny_index_env, ie_add = Add, ie_flush = Flush,
     ie_IndexBytes = (\<lambda>w. fst (IndexBytes w)), ie_DataBytes = (\<lambda>w. fst (DataBytes w)), ie_art = list_art\<rparr>"

lemma opened_files_added_once_witness:
  "\<exists>repo w. Index in_repo_config mock_index_env (\<lambda>xs. xs) 2 one_shard None 0 0 tiny_index_request
    = Some (Returns (\<lparr>ir_Repo = Some repo, ir_Error = None\<rparr>, None)) \<and>
    r_NumFiles repo = 1 \<and> mw_calls ''Add'' w = 1 \<and> mw_calls ''Flush'' w = 1"
proof -
  let ?w = "\<lparr>mw_name = path_Join [''/src'', shardName (iq_Key tiny_index_request) 0], mw_called = []\<rparr>"
  let ?f = "map (\<lambda>i. path_Join [''/src'', shardName (iq_Key tiny_index_request) (int i)]) [0..<1]"
  have create: "create_shards mock_index_env ?f = Inr [Some ?w]"
    by (simp add: mock_index_env_def getLocalIndexWriter_def getWriterFunc_def Let_def)
  have scan: "scanner 2 (ie_walkfs mock_index_env ''/src'') (ie_art mock_index_env)
      (tiny_index_request\<lparr>iq_Root := ''/src''\<rparr>) = Some ([''a'', ''b''], None)"
    using tiny_index_ready(6) by (simp add: mock_index_env_def tiny_index_env_def)
  have ops: "ie_add mock_index_env = Add" "ie_flush mock_index_env = Flush"
    "\<forall>w \<in> set [Some ?w]. mw_called (the w) = []"
    by (simp_all add: mock_index_env_def)
  have "flush_shards mock_index_env (run_shards mock_index_env ''/src'' [Some ?w] (one_shard 1 [''a'', ''b'']))
      = [Flush (Add ''a'' ''a'' ?w)]"
    by (simp add: flush_shards_def run_shards_def mock_index_env_def tiny_index_env_def)
  moreover have "mw_calls ''Add'' (Flush (Add ''a'' ''a'' ?w)) = 1"
    by (simp add: Flush_def Add_def mw_calls_count mw_calls_def [of _ ?w])
  ultimately show ?thesis
    using opened_files_added_once [OF tiny_index_ready(1-4) refl create scan tiny_index_ready(7) ops, of 0 0]
    by (auto simp: Let_def)
qed

end
