(* ===== verification/Contexts.thy ===== *)
theory Contexts
  imports Index_Writers
begin

text \<open>
  What the indexer finds in the context of its request: \<open>getIndexWriter\<close> and \<open>getFileSystem\<close> of
  \<open>afind/index.go\<close>, and the contexts that \<open>afind/index_mock.go\<close> makes for them. A context is the list of
  its keys and values, the innermost first. A value that is there in place of the local writers or
  the local file system only changes the environment in which the indexer runs.
\<close>

datatype 'w ctx_value = IndexWriterFunc "string \<Rightarrow> 'w" | FileSystem walk_fs

type_synonym 'w ctx = "(string \<times> 'w ctx_value) list"

definition Background :: "'w ctx" where "Background = []"

definition WithValue :: "'w ctx \<Rightarrow> string \<Rightarrow> 'w ctx_value \<Rightarrow> 'w ctx" where
  "WithValue ctx key v = (key, v) # ctx"

definition ctx_Value :: "'w ctx \<Rightarrow> string \<Rightarrow> 'w ctx_value option" where
  "ctx_Value ctx = map_of ctx"

text \<open>A value of another type panics in the type assertion.\<close>

definition bad_assertion :: string where "bad_assertion = ''interface conversion''"

definition getIndexWriter ::
  "'w ctx \<Rightarrow> ('w, 'f, 't) index_env \<Rightarrow> string \<Rightarrow> ('w option \<times> go_error option) outcome" where
  "getIndexWriter ctx env name =
     (case ctx_Value ctx ''IndexWriterFunc'' of
        Some (IndexWriterFunc f) \<Rightarrow> Returns (Some (f name), None)
      | Some _ \<Rightarrow> Panics bad_assertion
      | None \<Rightarrow> Returns (getLocalIndexWriter env name))"

definition getFileSystem :: "'w ctx \<Rightarrow> ('w, 'f, 't) index_env \<Rightarrow> string \<Rightarrow> walk_fs outcome" where
  "getFileSystem ctx env root =
     (case ctx_Value ctx ''FileSystem'' of
        Some (FileSystem fs) \<Rightarrow> Returns fs
      | Some _ \<Rightarrow> Panics bad_assertion
      | None \<Rightarrow> Returns (ie_walkfs env root))"

definition testSearchContext :: "walk_fs \<Rightarrow> 'w ctx" where
  "testSearchContext fs = WithValue Background ''FileSystem'' (FileSystem fs)"

definition testIndexContext :: "(string \<Rightarrow> 'w) \<Rightarrow> walk_fs \<Rightarrow> 'w ctx" where
  "testIndexContext writers fs =
     (let ctx = WithValue Background ''FileSystem'' (FileSystem fs)
      in WithValue ctx ''IndexWriterFunc'' (IndexWriterFunc writers))"

text \<open>The environment an indexer has that looks into a context first. With a writer function no
  directory is made.\<close>

definition in_context :: "'w ctx \<Rightarrow> ('w, 'f, 't) index_env \<Rightarrow> ('w, 'f, 't) index_env" where
  "in_context ctx env =
     (let env = (case ctx_Value ctx ''IndexWriterFunc'' of
            Some (IndexWriterFunc f) \<Rightarrow> env\<lparr>ie_mkdir := \<lambda>_. None, ie_create := \<lambda>name. Returns (f name)\<rparr>
          | _ \<Rightarrow> env)
      in case ctx_Value ctx ''FileSystem'' of
           Some (FileSystem fs) \<Rightarrow> env\<lparr>ie_walkfs := \<lambda>_. fs\<rparr>
         | _ \<Rightarrow> env)"

definition ctx_ok :: "'w ctx \<Rightarrow> bool" where
  "ctx_ok ctx \<longleftrightarrow> (case ctx_Value ctx ''IndexWriterFunc'' of Some (FileSystem _) \<Rightarrow> False | _ \<Rightarrow> True) \<and>
     (case ctx_Value ctx ''FileSystem'' of Some (IndexWriterFunc _) \<Rightarrow> False | _ \<Rightarrow> True)"

lemma in_context_writers:
  "ctx_ok ctx \<Longrightarrow> getIndexWriter ctx env name = Returns (getLocalIndexWriter (in_context ctx env) name)"
  by (auto simp: ctx_ok_def getIndexWriter_def in_context_def getLocalIndexWriter_def Let_def
      split: option.splits ctx_value.splits outcome.splits)

lemma in_context_files:
  "ctx_ok ctx \<Longrightarrow> getFileSystem ctx env root = Returns (ie_walkfs (in_context ctx env) root)"
  by (auto simp: ctx_ok_def getFileSystem_def in_context_def Let_def split: option.splits ctx_value.splits)

lemma in_test_contexts:
  "ctx_ok (testIndexContext writers fs) \<and> ctx_ok (testSearchContext fs :: 'w ctx) \<and>
   getIndexWriter (testIndexContext writers fs) env name = Returns (Some (writers name), None) \<and>
   getFileSystem (testIndexContext writers fs) env root = Returns fs \<and>
   getIndexWriter (testSearchContext fs) env name = Returns (getLocalIndexWriter env name)"
  by (simp add: ctx_ok_def testIndexContext_def testSearchContext_def WithValue_def Background_def ctx_Value_def
      getIndexWriter_def getFileSystem_def Let_def)

text \<open>The shards of an index request: one writer for each name, from the context or made locally.\<close>

fun context_shards ::
  "'w ctx \<Rightarrow> ('w, 'f, 't) index_env \<Rightarrow> string list \<Rightarrow> (go_error + 'w option list) outcome" where
  "context_shards ctx env [] = Returns (Inr [])"
| "context_shards ctx env (name # names) =
     (case getIndexWriter ctx env name of
        Panics msg \<Rightarrow> Panics msg
      | Returns (ixw, Some err) \<Rightarrow> Returns (Inl err)
      | Returns (ixw, None) \<Rightarrow>
          (case context_shards ctx env names of
             Panics msg \<Rightarrow> Panics msg
           | Returns (Inl err) \<Rightarrow> Returns (Inl err)
           | Returns (Inr ws) \<Rightarrow> Returns (Inr (ixw # ws))))"

lemma in_context_shards:
  assumes "ctx_ok ctx"
  shows "context_shards ctx env names = Returns (create_shards (in_context ctx env) names)"
  by (induction names)
     (auto simp: in_context_writers [OF assms] split: prod.split option.split sum.split)

end
