(* ===== verification/Json_Text.thy ===== *)
theory Json_Text
  imports Go_Strings "HOL-Library.Monad_Syntax"
begin

text \<open>
  The JSON text that \<open>encoding/json\<close> writes and reads, as far as the database file needs it. A Go string
  is a sequence of bytes; JSON text is UTF-8, so a byte that is not part of a valid character is
  written as the replacement character and does not come back. The theory has the characters of
  UTF-8, quoted strings, values, and the proof that reading what was written gives the value back
  with its strings made valid.

  The escapes are those of the Go 1 releases of the time of this code, which write a tab as
  \<open>\u0009\<close>; every release reads all of them.
\<close>

section \<open>Characters of UTF-8\<close>

abbreviation byte :: "char \<Rightarrow> nat" where "byte c \<equiv> of_char c"

definition cont :: "char \<Rightarrow> bool" where
  "cont c \<longleftrightarrow> 128 \<le> byte c \<and> byte c < 192"

text \<open>How many bytes follow the first one of a character, and what the second may be.\<close>

definition lead :: "nat \<Rightarrow> nat option" where
  "lead b = (if b < 128 then Some 0 else if b < 194 then None else if b < 224 then Some 1
     else if b < 240 then Some 2 else if b < 245 then Some 3 else None)"

definition second_ok :: "nat \<Rightarrow> string \<Rightarrow> bool" where
  "second_ok b cs = (case cs of [] \<Rightarrow> True | c1 # _ \<Rightarrow>
     (b = 224 \<longrightarrow> 160 \<le> byte c1) \<and> (b = 237 \<longrightarrow> byte c1 < 160) \<and>
     (b = 240 \<longrightarrow> 144 \<le> byte c1) \<and> (b = 244 \<longrightarrow> byte c1 < 144))"

text \<open>\<open>utf8.DecodeRune\<close>: the number of bytes of the character that the text begins with, 0 if it does
  not begin with a valid one.\<close>

fun rune_len :: "string \<Rightarrow> nat" where
  "rune_len [] = 0"
| "rune_len (c # cs) =
     (case lead (byte c) of
        None \<Rightarrow> 0
      | Some n \<Rightarrow> if n \<le> length cs \<and> list_all cont (take n cs) \<and> second_ok (byte c) cs then Suc n else 0)"

text \<open>U+FFFD, the replacement character.\<close>

definition repl :: string where
  "repl = [CHR 0xEF, CHR 0xBF, CHR 0xBD]"

function coerce :: "string \<Rightarrow> string" where
  "coerce [] = []"
| "coerce (c # cs) =
     (case rune_len (c # cs) of
        0 \<Rightarrow> repl @ coerce cs
      | Suc n \<Rightarrow> c # take n cs @ coerce (drop n cs))"
  by pat_completeness auto
termination by (relation "measure length") auto

text \<open>Every byte belongs to a valid character.\<close>

function valid_utf8 :: "string \<Rightarrow> bool" where
  "valid_utf8 [] = True"
| "valid_utf8 (c # cs) =
     (case rune_len (c # cs) of
        0 \<Rightarrow> False
      | Suc n \<Rightarrow> valid_utf8 (drop n cs))"
  by pat_completeness auto
termination by (relation "measure length") auto

lemma rune_len_le: "rune_len s \<le> length s"
  by (cases s) (auto split: option.split)

text \<open>Whether a text begins with a character only depends on that character.\<close>

lemma rune_len_prefix: "rune_len (c # cs) = Suc n \<Longrightarrow> rune_len (c # take n cs @ t) = Suc n"
  by (cases "take n cs")
    (auto simp: second_ok_def lead_def split: option.splits if_splits list.splits)

lemma rune_len_ascii [simp]: "byte c < 128 \<Longrightarrow> rune_len (c # cs) = 1"
  by (auto simp: lead_def second_ok_def split: list.split)

lemma rune_len_repl [simp]: "rune_len (CHR 0xEF # CHR 0xBF # CHR 0xBD # t) = 3"
  by (simp add: lead_def second_ok_def cont_def numeral_2_eq_2)

lemma rune_len_high:
  "\<not> byte c < 128 \<Longrightarrow> rune_len (c # cs) = Suc n \<Longrightarrow> n \<noteq> 0 \<and> list_all cont (take n cs)"
  by (auto simp: lead_def split: option.splits if_splits)

declare rune_len.simps(2) [simp del]

lemma coerce_repl: "coerce (repl @ t) = repl @ coerce t"
  by (simp add: repl_def numeral_3_eq_3)

lemma coerce_valid [simp]: "valid_utf8 (coerce s)"
proof (induction s rule: coerce.induct)
  case (2 c cs)
  show ?case
  proof (cases "rune_len (c # cs)")
    case 0
    with 2(1) show ?thesis by (simp add: repl_def numeral_3_eq_3)
  next
    case (Suc n)
    with rune_len_le [of "c # cs"] have "length (take n cs) = n" by simp
    with 2(2) [OF Suc] rune_len_prefix [OF Suc] Suc show ?thesis by simp
  qed
qed simp

lemma coerce_id: "valid_utf8 s \<Longrightarrow> coerce s = s"
  by (induction s rule: coerce.induct) (auto split: nat.splits)

lemma coerce_idem [simp]: "coerce (coerce s) = coerce s"
  by (rule coerce_id) simp

lemma coerce_eq_iff: "coerce s = s \<longleftrightarrow> valid_utf8 s"
  by (metis coerce_id coerce_valid)

lemma coerce_Nil_iff [simp]: "coerce s = [] \<longleftrightarrow> s = []"
  by (cases s) (auto simp: repl_def split: nat.split)

lemma valid_ascii: "\<forall>c \<in> set s. byte c < 128 \<Longrightarrow> valid_utf8 s"
  by (induction s) auto

section \<open>Quoted strings\<close>

abbreviation quote :: char where "quote \<equiv> CHR 0x22"
abbreviation backslash :: char where "backslash \<equiv> CHR 0x5C"

definition hex_digit :: "nat \<Rightarrow> char" where
  "hex_digit d = (if d < 10 then char_of (48 + d) else char_of (87 + d))"

definition hex_val :: "char \<Rightarrow> nat option" where
  "hex_val c = (let b = byte c in
     if 48 \<le> b \<and> b \<le> 57 then Some (b - 48) else if 97 \<le> b \<and> b \<le> 102 then Some (b - 87)
     else if 65 \<le> b \<and> b \<le> 70 then Some (b - 55) else None)"

text \<open>The bytes below 128 that are escaped: control characters, the quote and the backslash, and the
  three that mean something in HTML.\<close>

definition escape :: "char \<Rightarrow> string" where
  "escape c =
     (if c = quote \<or> c = backslash then [backslash, c]
      else if c = CHR 0x0A then backslash # ''n''
      else if c = CHR 0x0D then backslash # ''r''
      else if byte c < 32 \<or> c \<in> set ''<>&''
      then backslash # ''u00'' @ [hex_digit (byte c div 16), hex_digit (byte c mod 16)]
      else [c])"

text \<open>U+2028 and U+2029, which JavaScript takes for ends of lines, are escaped too.\<close>

definition rune_text :: "string \<Rightarrow> string" where
  "rune_text r = (if r = [CHR 0xE2, CHR 0x80, CHR 0xA8] then backslash # ''u2028''
     else if r = [CHR 0xE2, CHR 0x80, CHR 0xA9] then backslash # ''u2029'' else r)"

function quote_body :: "string \<Rightarrow> string" where
  "quote_body [] = []"
| "quote_body (c # cs) =
     (if byte c < 128 then escape c @ quote_body cs
      else (case rune_len (c # cs) of
          0 \<Rightarrow> backslash # ''ufffd'' @ quote_body cs
        | Suc n \<Rightarrow> rune_text (c # take n cs) @ quote_body (drop n cs)))"
  by pat_completeness auto
termination by (relation "measure length") auto

definition quoted :: "string \<Rightarrow> string" where
  "quoted s = quote # quote_body s @ [quote]"

text \<open>\<open>utf8.EncodeRune\<close>\<close>

definition encode_rune :: "nat \<Rightarrow> string" where
  "encode_rune r =
     (if r < 128 then [char_of r]
      else if r < 2048 then [char_of (192 + r div 64), char_of (128 + r mod 64)]
      else if 55296 \<le> r \<and> r < 57344 \<or> 1114112 \<le> r then repl
      else if r < 65536 then [char_of (224 + r div 4096), char_of (128 + r div 64 mod 64), char_of (128 + r mod 64)]
      else [char_of (240 + r div 262144), char_of (128 + r div 4096 mod 64),
        char_of (128 + r div 64 mod 64), char_of (128 + r mod 64)])"

text \<open>The four hexadecimal digits after \<open>\u\<close>.\<close>

fun getu4 :: "string \<Rightarrow> (nat \<times> string) option" where
  "getu4 (h1 # h2 # h3 # h4 # r) =
     do { a \<leftarrow> hex_val h1; b \<leftarrow> hex_val h2; c \<leftarrow> hex_val h3; d \<leftarrow> hex_val h4;
          Some (((a * 16 + b) * 16 + c) * 16 + d, r) }"
| "getu4 _ = None"

text \<open>A surrogate takes the one that follows along, if they make a pair.\<close>

definition low_half :: "string \<Rightarrow> (nat \<times> string) option" where
  "low_half s = (case s of
      c1 # c2 # r \<Rightarrow> if c1 = backslash \<and> c2 = CHR ''u'' then getu4 r else None
    | _ \<Rightarrow> None)"

definition escaped_rune :: "nat \<Rightarrow> string \<Rightarrow> string \<times> string" where
  "escaped_rune x r =
     (if \<not> (55296 \<le> x \<and> x < 57344) then (encode_rune x, r)
      else (case low_half r of
          Some (y, r') \<Rightarrow>
            if x < 56320 \<and> 56320 \<le> y \<and> y < 57344
            then (encode_rune (65536 + (x - 55296) * 1024 + (y - 56320)), r') else (repl, r)
        | None \<Rightarrow> (repl, r)))"

fun simple_escape :: "char \<Rightarrow> char option" where
  "simple_escape e =
     (if e \<in> {quote, backslash, CHR ''/''} then Some e
      else if e = CHR ''b'' then Some (CHR 0x08) else if e = CHR ''f'' then Some (CHR 0x0C)
      else if e = CHR ''n'' then Some (CHR 0x0A) else if e = CHR ''r'' then Some (CHR 0x0D)
      else if e = CHR ''t'' then Some (CHR 0x09) else None)"

lemma getu4_shorter: "getu4 s = Some (x, r) \<Longrightarrow> length r < length s"
  by (induction s rule: getu4.induct) (auto split: Option.bind_splits)

lemma escaped_rune_shorter: "escaped_rune x r = (t, r') \<Longrightarrow> length r' \<le> length r"
  by (auto simp: escaped_rune_def low_half_def split: if_splits option.splits list.splits dest!: getu4_shorter)

text \<open>Reading a string, from after its opening quote to its closing one: its bytes, and the text
  behind it.\<close>

function (sequential) unquote :: "string \<Rightarrow> (string \<times> string) option" where
  "unquote [] = None"
| "unquote (c # cs) =
     (if c = quote then Some ([], cs)
      else if byte c < 32 then None
      else if c = backslash then
        (case cs of
           [] \<Rightarrow> None
         | e # r \<Rightarrow>
             (if e = CHR ''u'' then
                (case getu4 r of
                   None \<Rightarrow> None
                 | Some (x, r1) \<Rightarrow>
                     map_option (apfst ((@) (fst (escaped_rune x r1)))) (unquote (snd (escaped_rune x r1))))
              else (case simple_escape e of
                  None \<Rightarrow> None
                | Some c' \<Rightarrow> map_option (apfst ((#) c')) (unquote r))))
      else (case rune_len (c # cs) of
          0 \<Rightarrow> map_option (apfst ((@) repl)) (unquote cs)
        | Suc n \<Rightarrow> map_option (apfst ((@) (c # take n cs))) (unquote (drop n cs))))"
  by pat_completeness auto
termination
  by (relation "measure length")
    (auto simp: less_Suc_eq_le dest!: getu4_shorter intro: le_trans [OF escaped_rune_shorter [OF surjective_pairing]])

text \<open>Reading a written string gives its bytes back, the invalid ones replaced.\<close>

lemma hex_val_digit: "d < 16 \<Longrightarrow> hex_val (hex_digit d) = Some d"
  by (auto simp: hex_val_def hex_digit_def Let_def of_char_of)

lemma encode_special:
  "encode_rune 8232 = [CHR 0xE2, CHR 0x80, CHR 0xA8]" "encode_rune 8233 = [CHR 0xE2, CHR 0x80, CHR 0xA9]"
  "encode_rune 65533 = repl"
  by (simp_all add: encode_rune_def repl_def char_of_eq_iff)

lemma append_single: "(@) [c] = (#) c"
  by (simp add: fun_eq_iff)

lemma unquote_escape:
  assumes "byte c < 128"
  shows "unquote (escape c @ t) = map_option (apfst ((#) c)) (unquote t)"
proof -
  let ?h = "[hex_digit (byte c div 16), hex_digit (byte c mod 16)]"
  have digits: "hex_val (hex_digit (byte c div 16)) = Some (byte c div 16)"
    "hex_val (hex_digit (byte c mod 16)) = Some (byte c mod 16)" "hex_val (CHR ''0'') = Some 0"
    using assms by (simp_all add: hex_val_digit) (simp add: hex_val_def)
  have "getu4 (CHR ''0'' # CHR ''0'' # ?h @ t) = Some (byte c, t)"
    by (simp add: digits)
  moreover have "escaped_rune (byte c) t = ([c], t)"
    using assms by (simp add: escaped_rune_def encode_rune_def)
  ultimately have "unquote (backslash # CHR ''u'' # CHR ''0'' # CHR ''0'' # ?h @ t) = map_option (apfst ((#) c)) (unquote t)"
    by (simp add: append_single)
  then show ?thesis
    using assms by (auto simp: escape_def append_single)
qed

lemma unquote_rune:
  assumes "\<not> byte c < 128" "rune_len (c # cs) = Suc n"
  shows "unquote (rune_text (c # take n cs) @ t) = map_option (apfst ((@) (c # take n cs))) (unquote t)"
proof -
  let ?r = "c # take n cs"
  have n: "length (take n cs) = n" using rune_len_le [of "c # cs"] assms(2) by simp
  have c: "c \<noteq> quote" "c \<noteq> backslash" "\<not> byte c < 32" using assms(1) by auto
  have plain: "unquote (?r @ t) = map_option (apfst ((@) ?r)) (unquote t)"
    using c n rune_len_prefix [OF assms(2), of t] by (simp del: rune_len.simps)
  have "unquote (backslash # ''u2028'' @ t) = map_option (apfst ((@) [CHR 0xE2, CHR 0x80, CHR 0xA8])) (unquote t)"
    "unquote (backslash # ''u2029'' @ t) = map_option (apfst ((@) [CHR 0xE2, CHR 0x80, CHR 0xA9])) (unquote t)"
    by (simp_all add: hex_val_def escaped_rune_def encode_special)
  with plain show ?thesis by (simp add: rune_text_def del: unquote.simps)
qed

lemma unquote_quote_body: "unquote (quote_body s @ quote # rest) = Some (coerce s, rest)"
proof (induction s rule: quote_body.induct)
  case (2 c cs)
  show ?case
  proof (cases "byte c < 128")
    case True
    with 2(1) unquote_escape [OF True] show ?thesis by simp
  next
    case high: False
    have ufffd: "unquote (backslash # ''ufffd'' @ t) = map_option (apfst ((@) repl)) (unquote t)" for t
      by (simp add: hex_val_def escaped_rune_def encode_special)
    show ?thesis
    proof (cases "rune_len (c # cs)")
      case 0
      with 2(2) [OF high] high ufffd show ?thesis by simp
    next
      case (Suc n)
      with 2(3) [OF high Suc] high unquote_rune [OF high Suc] show ?thesis by simp
    qed
  qed
qed simp

section \<open>Values\<close>

text \<open>A number is kept as it is written.\<close>

datatype json =
    JNull
  | JBool bool
  | JNum string
  | JStr string
  | JArr "json list"
  | JObj "(string \<times> json) list"

fun json_text :: "json \<Rightarrow> string" and elems_text :: "json list \<Rightarrow> string"
  and members_text :: "(string \<times> json) list \<Rightarrow> string" where
  "json_text JNull = ''null''"
| "json_text (JBool b) = (if b then ''true'' else ''false'')"
| "json_text (JNum lit) = lit"
| "json_text (JStr s) = quoted s"
| "json_text (JArr vs) = (if vs = [] then ''[]'' else CHR ''['' # elems_text vs)"
| "json_text (JObj ms) = (if ms = [] then ''{}'' else CHR ''{'' # members_text ms)"
| "elems_text [] = '']''"
| "elems_text (v # vs) = json_text v @ (if vs = [] then '']'' else CHR '','' # elems_text vs)"
| "members_text [] = ''}''"
| "members_text ((k, v) # ms) = quoted k @ CHR '':'' # json_text v @
     (if ms = [] then ''}'' else CHR '','' # members_text ms)"

text \<open>Reading: white space, the literals and numbers of the grammar, strings, arrays and objects.\<close>

definition is_space :: "char \<Rightarrow> bool" where
  "is_space c \<longleftrightarrow> c \<in> {CHR '' '', CHR 0x09, CHR 0x0A, CHR 0x0D}"

abbreviation skip :: "string \<Rightarrow> string" where "skip \<equiv> dropWhile is_space"

definition digits1 :: "string \<Rightarrow> (string \<times> string) option" where
  "digits1 s = (let d = takeWhile is_digit s in if d = [] then None else Some (d, dropWhile is_digit s))"

definition number_int :: "string \<Rightarrow> (string \<times> string) option" where
  "number_int s = (case s of
      [] \<Rightarrow> None
    | c # r \<Rightarrow> if c = CHR ''0'' then Some ([c], r) else digits1 s)"

definition number_frac :: "string \<Rightarrow> (string \<times> string) option" where
  "number_frac s = (case s of
      [] \<Rightarrow> Some ([], [])
    | c # r \<Rightarrow> if c = CHR ''.'' then map_option (apfst ((#) c)) (digits1 r) else Some ([], s))"

definition number_exp :: "string \<Rightarrow> (string \<times> string) option" where
  "number_exp s = (case s of
      [] \<Rightarrow> Some ([], [])
    | c # r \<Rightarrow> if c \<noteq> CHR ''e'' \<and> c \<noteq> CHR ''E'' then Some ([], s)
        else (case r of
            [] \<Rightarrow> None
          | c' # r' \<Rightarrow> if c' = CHR ''+'' \<or> c' = CHR ''-'' then map_option (apfst (\<lambda>d. c # c' # d)) (digits1 r')
              else map_option (apfst ((#) c)) (digits1 r)))"

definition number_sign :: "string \<Rightarrow> string \<times> string" where
  "number_sign s = (case s of [] \<Rightarrow> ([], []) | c # r \<Rightarrow> if c = CHR ''-'' then ([c], r) else ([], s))"

definition number :: "string \<Rightarrow> (string \<times> string) option" where
  "number s =
     (let (sign, s1) = number_sign s
      in do { (i, s2) \<leftarrow> number_int s1; (f, s3) \<leftarrow> number_frac s2; (e, s4) \<leftarrow> number_exp s3;
              Some (sign @ i @ f @ e, s4) })"

text \<open>The fuel bounds the depth of the calls. A byte is consumed at least by every second one, so twice
  the length of the text is enough.\<close>

fun read_value :: "nat \<Rightarrow> string \<Rightarrow> (json \<times> string) option"
  and read_elems :: "nat \<Rightarrow> string \<Rightarrow> (json list \<times> string) option"
  and read_members :: "nat \<Rightarrow> string \<Rightarrow> ((string \<times> json) list \<times> string) option" where
  "read_value 0 s = None"
| "read_value (Suc n) s =
     (let s = skip s in case s of
        [] \<Rightarrow> None
      | c # r \<Rightarrow>
          if c = quote then map_option (apfst JStr) (unquote r)
          else if c = CHR ''['' then
            (case skip r of
               [] \<Rightarrow> None
             | d # r' \<Rightarrow> if d = CHR '']'' then Some (JArr [], r') else map_option (apfst JArr) (read_elems n r))
          else if c = CHR ''{'' then
            (case skip r of
               [] \<Rightarrow> None
             | d # r' \<Rightarrow> if d = CHR ''}'' then Some (JObj [], r') else map_option (apfst JObj) (read_members n r))
          else if HasPrefix s ''null'' then Some (JNull, drop 4 s)
          else if HasPrefix s ''true'' then Some (JBool True, drop 4 s)
          else if HasPrefix s ''false'' then Some (JBool False, drop 5 s)
          else map_option (apfst JNum) (number s))"
| "read_elems 0 s = None"
| "read_elems (Suc n) s =
     do { (v, r) \<leftarrow> read_value n s;
          case skip r of
            [] \<Rightarrow> None
          | d # r' \<Rightarrow> if d = CHR '']'' then Some ([v], r')
              else if d = CHR '','' then map_option (apfst ((#) v)) (read_elems n r') else None }"
| "read_members 0 s = None"
| "read_members (Suc n) s =
     (case skip s of
        [] \<Rightarrow> None
      | c # r \<Rightarrow>
          if c \<noteq> quote then None
          else do { (k, r1) \<leftarrow> unquote r;
            case skip r1 of
              [] \<Rightarrow> None
            | c' # r2 \<Rightarrow>
                if c' \<noteq> CHR '':'' then None
                else do { (v, r3) \<leftarrow> read_value n r2;
                  case skip r3 of
                    [] \<Rightarrow> None
                  | d # r4 \<Rightarrow> if d = CHR ''}'' then Some ([(k, v)], r4)
                      else if d = CHR '','' then map_option (apfst ((#) (k, v))) (read_members n r4) else None } })"

text \<open>\<open>Decoder.Decode\<close> reads one value and leaves what follows.\<close>

definition json_read :: "string \<Rightarrow> json option" where
  "json_read s = map_option fst (read_value (Suc (2 * length s)) s)"

section \<open>Reading what was written\<close>

fun coerce_json :: "json \<Rightarrow> json" and coerce_elems :: "json list \<Rightarrow> json list"
  and coerce_members :: "(string \<times> json) list \<Rightarrow> (string \<times> json) list" where
  "coerce_json (JStr s) = JStr (coerce s)"
| "coerce_json (JArr vs) = JArr (coerce_elems vs)"
| "coerce_json (JObj ms) = JObj (coerce_members ms)"
| "coerce_json v = v"
| "coerce_elems [] = []"
| "coerce_elems (v # vs) = coerce_json v # coerce_elems vs"
| "coerce_members [] = []"
| "coerce_members ((k, v) # ms) = (coerce k, coerce_json v) # coerce_members ms"

text \<open>Numbers that the grammar has.\<close>

fun json_ok :: "json \<Rightarrow> bool" and elems_ok :: "json list \<Rightarrow> bool"
  and members_ok :: "(string \<times> json) list \<Rightarrow> bool" where
  "json_ok (JNum lit) = (number lit = Some (lit, []))"
| "json_ok (JArr vs) = elems_ok vs"
| "json_ok (JObj ms) = members_ok ms"
| "json_ok v = True"
| "elems_ok [] = True"
| "elems_ok (v # vs) = (json_ok v \<and> elems_ok vs)"
| "members_ok [] = True"
| "members_ok ((k, v) # ms) = (json_ok v \<and> members_ok ms)"

text \<open>What may follow a value.\<close>

definition ends :: "string \<Rightarrow> bool" where
  "ends rest \<longleftrightarrow> rest = [] \<or> hd rest \<in> {CHR '','', CHR '']'', CHR ''}'', CHR 0x0A}"

lemma ends_simps [simp]: "ends []" "ends (CHR '','' # r)" "ends (CHR '']'' # r)" "ends (CHR ''}'' # r)" "ends (CHR 0x0A # r)"
  by (simp_all add: ends_def)

lemma ends_no_digit: "ends rest \<Longrightarrow> takeWhile is_digit rest = [] \<and> dropWhile is_digit rest = rest"
  by (cases rest) (auto simp: ends_def is_digit_def)

lemma digits1_append:
  assumes "digits1 s = Some (d, r)" "ends rest"
  shows "digits1 (s @ rest) = Some (d, r @ rest)"
proof (cases "\<forall>c \<in> set s. is_digit c")
  case True
  then have "takeWhile is_digit s = s" "dropWhile is_digit s = []" by (auto simp: takeWhile_eq_all_conv)
  with assms ends_no_digit [OF assms(2)] True show ?thesis by (auto simp: digits1_def Let_def)
next
  case False
  then obtain c where "c \<in> set s" "\<not> is_digit c" by blast
  with assms show ?thesis by (auto simp: digits1_def Let_def takeWhile_append1 dropWhile_append1)
qed

lemma number_int_append: "number_int s = Some (i, r) \<Longrightarrow> ends rest \<Longrightarrow> number_int (s @ rest) = Some (i, r @ rest)"
  using digits1_append [of s i r rest] by (cases s) (auto simp: number_int_def split: if_splits)

lemma number_frac_append: "number_frac s = Some (f, r) \<Longrightarrow> ends rest \<Longrightarrow> number_frac (s @ rest) = Some (f, r @ rest)"
  using digits1_append [of "tl s" _ r rest]
  by (cases s; cases rest) (auto simp: number_frac_def ends_def split: if_splits)

lemma number_exp_append: "number_exp s = Some (e, r) \<Longrightarrow> ends rest \<Longrightarrow> number_exp (s @ rest) = Some (e, r @ rest)"
  using digits1_append [of "tl s" _ r rest] digits1_append [of "tl (tl s)" _ r rest]
  by (cases s; cases "tl s"; cases rest) (auto simp: number_exp_def ends_def split: if_splits)

lemma number_parts:
  assumes "number s = Some (lit, r)"
  obtains g i f e s1 s2 s3 where "number_sign s = (g, s1)" "number_int s1 = Some (i, s2)"
    "number_frac s2 = Some (f, s3)" "number_exp s3 = Some (e, r)" "lit = g @ i @ f @ e"
  using assms by (auto simp: number_def split: prod.splits Option.bind_splits)

lemma number_append:
  assumes "number s = Some (lit, r)" "ends rest"
  shows "number (s @ rest) = Some (lit, r @ rest)"
  using assms(1)
proof (rule number_parts)
  fix g i f e s1 s2 s3
  assume parts: "number_sign s = (g, s1)" "number_int s1 = Some (i, s2)"
    "number_frac s2 = Some (f, s3)" "number_exp s3 = Some (e, r)" "lit = g @ i @ f @ e"
  then have "s \<noteq> []" by (auto simp: number_sign_def number_int_def)
  then have "number_sign (s @ rest) = (g, s1 @ rest)"
    using parts(1) by (cases s) (auto simp: number_sign_def split: if_splits)
  then show ?thesis
    using number_int_append [OF parts(2) assms(2)] number_frac_append [OF parts(3) assms(2)]
      number_exp_append [OF parts(4) assms(2)] parts(5) by (simp add: number_def)
qed

lemma number_head:
  assumes "number (c # s) = Some (lit, r)"
  shows "c = CHR ''-'' \<or> is_digit c"
  using assms
  by (elim number_parts) (auto simp: number_sign_def number_int_def digits1_def Let_def is_digit_def split: if_splits)

lemma digits1_shorter: "digits1 s = Some (d, r) \<Longrightarrow> length r < length s"
  by (cases s) (auto simp: digits1_def Let_def less_Suc_eq_le length_dropWhile_le split: if_splits)

lemma number_shorter:
  assumes "number s = Some (lit, r)"
  shows "length r < length s"
  using assms
proof (rule number_parts)
  fix g i f e s1 s2 s3
  assume "number_sign s = (g, s1)" "number_int s1 = Some (i, s2)"
    "number_frac s2 = Some (f, s3)" "number_exp s3 = Some (e, r)"
  then have "length s1 \<le> length s" "length s2 < length s1" "length s3 \<le> length s2" "length r \<le> length s3"
    by (auto simp: number_sign_def number_int_def number_frac_def number_exp_def
        split: if_splits list.splits dest!: digits1_shorter)
  then show ?thesis by linarith
qed

lemma json_text_head:
  "json_ok v \<Longrightarrow> \<exists>c cs. json_text v = c # cs \<and> \<not> is_space c \<and> c \<noteq> CHR '']'' \<and> c \<noteq> CHR ''}''"
proof (cases v)
  case (JNum lit)
  assume "json_ok v"
  with JNum have num: "number lit = Some (lit, [])" by simp
  then obtain c cs where lit: "lit = c # cs" by (cases lit) (auto dest: number_shorter)
  with num have "c = CHR ''-'' \<or> is_digit c" by (auto dest: number_head)
  with JNum lit show ?thesis by (auto simp: is_space_def is_digit_def)
qed (auto simp: is_space_def quoted_def)

lemma skip_text: "json_ok v \<Longrightarrow> skip (json_text v @ t) = json_text v @ t"
  using json_text_head [of v] by auto

lemma read_number:
  assumes "number lit = Some (lit, [])" "ends rest" "0 < n"
  shows "read_value n (lit @ rest) = Some (JNum lit, rest)"
proof -
  obtain c cs where lit: "lit = c # cs" using assms(1) by (cases lit) (auto dest: number_shorter)
  with assms(1) have c: "c = CHR ''-'' \<or> is_digit c" by (auto dest: number_head)
  then have "\<not> is_space c" "c \<notin> set ''[{ntf'' \<union> {quote}" by (auto simp: is_space_def is_digit_def)
  with number_append [OF assms(1,2)] assms(3) show ?thesis
    by (cases n) (auto simp: lit HasPrefix_def)
qed

lemma read_text:
  "json_ok v \<Longrightarrow> ends rest \<Longrightarrow> 2 * length (json_text v) < n \<Longrightarrow>
    read_value n (json_text v @ rest) = Some (coerce_json v, rest)"
  "elems_ok vs \<Longrightarrow> vs \<noteq> [] \<Longrightarrow> 2 * length (elems_text vs) < n \<Longrightarrow>
    read_elems n (elems_text vs @ rest) = Some (coerce_elems vs, rest)"
  "members_ok ms \<Longrightarrow> ms \<noteq> [] \<Longrightarrow> 2 * length (members_text ms) < n \<Longrightarrow>
    read_members n (members_text ms @ rest) = Some (coerce_members ms, rest)"
proof (induction v and vs and ms arbitrary: n rest and n rest and n rest
    rule: json_text_elems_text_members_text.induct)
  case (1 n rest)
  then show ?case by (cases n) (auto simp: is_space_def HasPrefix_def)
next
  case (2 b n rest)
  then show ?case by (cases n) (auto simp: is_space_def HasPrefix_def)
next
  case (3 lit n rest)
  then show ?case by (simp add: read_number)
next
  case (4 s n rest)
  then show ?case by (cases n) (auto simp: is_space_def quoted_def unquote_quote_body)
next
  case (5 vs n rest)
  then obtain m where m: "n = Suc m" by (cases n) auto
  show ?case
  proof (cases vs)
    case Nil
    then show ?thesis by (simp add: m is_space_def)
  next
    case (Cons v vs')
    with 5 have ok: "json_ok v" by simp
    obtain c cs where shape: "elems_text vs = c # cs" "\<not> is_space c" "c \<noteq> CHR '']''"
      using json_text_head [OF ok] by (auto simp: Cons)
    have "read_elems m (elems_text vs @ rest) = Some (coerce_elems vs, rest)"
      using 5 Cons by (simp add: m)
    then show ?thesis using shape by (simp add: m Cons is_space_def del: elems_text.simps read_elems.simps)
  qed
next
  case (6 ms n rest)
  then obtain m where m: "n = Suc m" by (cases n) auto
  show ?case
  proof (cases ms)
    case Nil
    then show ?thesis by (simp add: m is_space_def)
  next
    case (Cons kv ms')
    obtain cs where shape: "members_text ms = quote # cs" by (cases kv) (auto simp: Cons quoted_def)
    have "read_members m (members_text ms @ rest) = Some (coerce_members ms, rest)"
      using 6 Cons by (simp add: m)
    then show ?thesis using shape by (simp add: m Cons is_space_def del: members_text.simps read_members.simps)
  qed
next
  case 7
  then show ?case by simp
next
  case (8 v vs n rest)
  then obtain m where m: "n = Suc m" by (cases n) auto
  show ?case
  proof (cases "vs = []")
    case True
    with 8 show ?thesis by (simp add: m is_space_def)
  next
    case False
    have "ends (CHR '','' # t)" for t by simp
    with 8 False have "read_value m (json_text v @ CHR '','' # elems_text vs @ rest)
        = Some (coerce_json v, CHR '','' # elems_text vs @ rest)" by (simp add: m)
    moreover have "read_elems m (elems_text vs @ rest) = Some (coerce_elems vs, rest)"
      using 8 False by (simp add: m)
    ultimately show ?thesis using False by (simp add: m is_space_def)
  qed
next
  case 9
  then show ?case by simp
next
  case (10 k v ms n rest)
  then obtain m where m: "n = Suc m" by (cases n) auto
  show ?case
  proof (cases "ms = []")
    case True
    with 10 show ?thesis by (simp add: m is_space_def quoted_def unquote_quote_body)
  next
    case False
    with 10 have "read_value m (json_text v @ CHR '','' # members_text ms @ rest)
        = Some (coerce_json v, CHR '','' # members_text ms @ rest)" by (simp add: m quoted_def)
    moreover have "read_members m (members_text ms @ rest) = Some (coerce_members ms, rest)"
      using 10 False by (simp add: m quoted_def)
    ultimately show ?thesis using False by (simp add: m is_space_def quoted_def unquote_quote_body)
  qed
qed

lemma json_read_text:
  assumes "json_ok v" "ends rest"
  shows "json_read (json_text v @ rest) = Some (coerce_json v)"
  using read_text(1) [OF assms, of "Suc (2 * length (json_text v @ rest))"] by (simp add: json_read_def)

section \<open>The fuel is enough\<close>

lemma unquote_shorter: "unquote s = Some (t, r) \<Longrightarrow> length r < length s"
proof (induction s arbitrary: t rule: unquote.induct)
  case (2 c cs)
  show ?case
  proof (cases "c = quote \<or> byte c < 32")
    case True
    with 2(5) show ?thesis by (auto split: if_splits)
  next
    case plain: False
    show ?thesis
    proof (cases "c = backslash")
      case True
      with 2(5) plain obtain e u where cs: "cs = e # u" by (auto split: list.splits)
      show ?thesis
      proof (cases "e = CHR ''u''")
        case e: True
        with 2(5) cs True obtain x u1 t' where x: "getu4 u = Some (x, u1)"
          "unquote (snd (escaped_rune x u1)) = Some (t', r)"
          by (auto split: option.splits)
        then have "length r < length (snd (escaped_rune x u1))"
          using 2(1) [OF _ _ True cs e x(1) refl] plain by blast
        also have "\<dots> \<le> length u1" by (rule escaped_rune_shorter [OF surjective_pairing])
        finally show ?thesis using getu4_shorter [OF x(1)] cs by simp
      next
        case e: False
        with 2(5) cs True obtain c' t' where "simple_escape e = Some c'" "unquote u = Some (t', r)"
          by (auto split: option.splits simp del: simple_escape.simps)
        then show ?thesis using 2(2) [OF _ _ True cs e] plain cs by fastforce
      qed
    next
      case False
      show ?thesis
      proof (cases "rune_len (c # cs)")
        case 0
        with 2(5) plain False obtain t' where "unquote cs = Some (t', r)" by auto
        then show ?thesis using 2(3) [OF _ _ False 0] plain by fastforce
      next
        case (Suc n)
        with 2(5) plain False obtain t' where "unquote (drop n cs) = Some (t', r)" by auto
        then have "length r < length (drop n cs)" using 2(4) [OF _ _ False Suc] plain by blast
        then show ?thesis by simp
      qed
    qed
  qed
qed simp

lemma skip_le: "length (skip s) \<le> length s"
  by (rule length_dropWhile_le)

lemma skip_Cons: "skip s = c # r \<Longrightarrow> length r < length s"
  using skip_le [of s] by simp

lemma read_shorter:
  "read_value n s = Some (v, r) \<Longrightarrow> length r < length s"
  "read_elems n s = Some (vs, r) \<Longrightarrow> length r < length s"
  "read_members n s = Some (ms, r) \<Longrightarrow> length r < length s"
proof (induction n s and n s and n s arbitrary: v r and vs r and ms r
    rule: read_value_read_elems_read_members.induct)
  case (2 n s)
  obtain c u where s: "skip s = c # u" using 2(3) by (auto simp: Let_def split: list.splits)
  have u: "length u < length s" using skip_Cons [OF s] .
  from 2(3) s show ?case
    using u number_shorter [of "c # u" _ r] 2(1) [OF refl s] 2(2) [OF refl s] skip_Cons [of u]
    by (auto simp: Let_def dest!: unquote_shorter split: if_splits list.splits) (blast intro: less_trans)+
next
  case (4 n s)
  from 4(3) obtain v1 r1 d r' where parts: "read_value n s = Some (v1, r1)" "skip r1 = d # r'"
    "r = r' \<or> (d = CHR '','' \<and> (\<exists>vs'. read_elems n r' = Some (vs', r)))"
    by (auto split: Option.bind_splits list.splits if_splits)
  have "length r1 < length s" "length r' < length r1"
    using 4(1) [OF parts(1)] skip_Cons [OF parts(2)] by auto
  with parts 4(2) [OF parts(1) refl parts(2)] show ?case by fastforce
next
  case (6 n s)
  from 6(3) obtain r0 k r1 r2 v1 r3 d r4 where parts: "skip s = quote # r0" "unquote r0 = Some (k, r1)"
    "skip r1 = CHR '':'' # r2" "read_value n r2 = Some (v1, r3)" "skip r3 = d # r4"
    "r = r4 \<or> (d = CHR '','' \<and> (\<exists>ms'. read_members n r4 = Some (ms', r)))"
    by (auto split: Option.bind_splits list.splits if_splits)
  have "length r0 < length s" "length r1 < length r0" "length r2 < length r1" "length r3 < length r2"
    "length r4 < length r3"
    using 6(1) [OF parts(1) _ parts(2) refl parts(3) _ parts(4)] skip_Cons [OF parts(1)]
      unquote_shorter [OF parts(2)] skip_Cons [OF parts(3)] skip_Cons [OF parts(5)] by auto
  with parts 6(2) [OF parts(1) _ parts(2) refl parts(3) _ parts(4) refl parts(5)] show ?case by fastforce
qed auto

text \<open>More fuel does not change what is read.\<close>

lemma read_enough:
  "2 * length s < n \<Longrightarrow> read_value (Suc n) s = read_value n s"
  "Suc (2 * length s) < n \<Longrightarrow> read_elems (Suc n) s = read_elems n s"
  "Suc (2 * length s) < n \<Longrightarrow> read_members (Suc n) s = read_members n s"
proof (induction n arbitrary: s)
  case (Suc n)
  { case 1
    show ?case
    proof (cases "skip s")
      case Nil
      then show ?thesis
        by (simp only: read_value.simps(2) [of "Suc n"] read_value.simps(2) [of n] Let_def list.case)
    next
      case (Cons c r)
      have "read_elems (Suc n) r = read_elems n r" "read_members (Suc n) r = read_members n r"
        using Suc.IH(2,3) [of r] skip_Cons [OF Cons] 1 by linarith+
      then show ?thesis
        by (simp only: read_value.simps(2) [of "Suc n"] read_value.simps(2) [of n] Let_def Cons list.case)
    qed
  next
    case 2
    have val: "read_value (Suc n) s = read_value n s" using Suc.IH(1) [of s] 2 by simp
    show ?case
      unfolding read_elems.simps(2) [of "Suc n" s] read_elems.simps(2) [of n s]
    proof (rule Option.bind_cong [OF val])
      fix x assume x: "read_value n s = Some x"
      obtain v r where vr: "x = (v, r)" by (cases x)
      have "read_elems (Suc n) r' = read_elems n r'" if "skip r = d # r'" for d r'
        using Suc.IH(2) [of r'] read_shorter(1) [OF x [unfolded vr]] skip_Cons [OF that] 2 by simp
      then show "(case x of (v, r) \<Rightarrow> case skip r of [] \<Rightarrow> None
          | d # r' \<Rightarrow> if d = CHR '']'' then Some ([v], r')
              else if d = CHR '','' then map_option (apfst ((#) v)) (read_elems (Suc n) r') else None) =
        (case x of (v, r) \<Rightarrow> case skip r of [] \<Rightarrow> None
          | d # r' \<Rightarrow> if d = CHR '']'' then Some ([v], r')
              else if d = CHR '','' then map_option (apfst ((#) v)) (read_elems n r') else None)"
        by (cases "skip r") (simp_all only: vr prod.case list.case)
    qed
  next
    case 3
    have val: "read_value (Suc n) r2 = read_value n r2"
      if "skip s = c # r" "unquote r = Some (k, r1)" "skip r1 = c' # r2" for c r k r1 c' r2
      using Suc.IH(1) [of r2] skip_Cons [OF that(1)] unquote_shorter [OF that(2)] skip_Cons [OF that(3)] 3 by simp
    have more: "read_members (Suc n) r4 = read_members n r4"
      if "skip s = c # r" "unquote r = Some (k, r1)" "skip r1 = c' # r2"
        "read_value n r2 = Some (v, r3)" "skip r3 = d # r4" for c r k r1 c' r2 v r3 d r4
      using Suc.IH(3) [of r4] skip_Cons [OF that(1)] unquote_shorter [OF that(2)] skip_Cons [OF that(3)]
        read_shorter(1) [OF that(4)] skip_Cons [OF that(5)] 3 by simp
    show ?case
      unfolding read_members.simps(2) [of "Suc n" s] read_members.simps(2) [of n s]
      by (auto intro!: Option.bind_cong split: list.split prod.split simp: val more
          simp del: read_value.simps read_elems.simps read_members.simps dropWhile_eq_Nil_conv)
  }
qed simp_all

lemma json_read_enough:
  assumes "2 * length s < n"
  shows "json_read s = map_option fst (read_value n s)"
proof -
  have "read_value n s = read_value (Suc (2 * length s)) s"
  proof (use assms in \<open>induction n\<close>)
    case (Suc n)
    then show ?case using read_enough(1) [of s n] by (cases "2 * length s < n")
        (auto simp: less_Suc_eq simp del: read_value.simps read_elems.simps read_members.simps)
  qed simp
  then show ?thesis by (simp add: json_read_def)
qed

end
