(* ===== verification/Repo_Json.thy ===== *)
theory Repo_Json
  imports Json_Text Db Bytesize "HOL-Library.List_Lexorder" "HOL-Library.Char_ord"
begin

text \<open>
  The database file: how \<open>flush\<close> and \<open>read\<close> of \<open>afind/db.go\<close> turn the map of repositories into JSON text
  and back, by the tags of \<open>Repo\<close>, \<open>MarshalJSON\<close> of \<open>ByteSize\<close>, \<open>UnmarshalJSON\<close> of \<open>Repo\<close> and the rules of
  \<open>encoding/json\<close>. It replaces the codec that the theory \<open>Db\<close> leaves open by the one the code has.

  The text of a time (\<open>time.Time\<close> writes RFC 3339) is a parameter: \<open>ft\<close> formats and \<open>pt\<close> parses. Values that the
  records of this development have no room for (a nil map, a nil repository, a size that is not a
  whole number) can only stand in a file that another program wrote; reading one is \<open>Outside\<close>.
\<close>

section \<open>Writing\<close>

definition encode_meta :: "meta \<Rightarrow> json" where
  "encode_meta m = JObj (map (\<lambda>(k, v). (k, JStr v)) (sort_key fst m))"

definition encode_repo :: "(int \<Rightarrow> string) \<Rightarrow> repo \<Rightarrow> json" where
  "encode_repo ft r = JObj [
     (''key'', JStr (r_Key r)), (''index_path'', JStr (r_IndexPath r)), (''root'', JStr (r_Root r)),
     (''meta'', encode_meta (r_Meta r)), (''state'', JStr (r_State r)),
     (''num_files'', JNum (Itoa (r_NumFiles r))),
     (''size_index'', JNum (MarshalJSON (of_nat (r_SizeIndex r)))),
     (''size_data'', JNum (MarshalJSON (of_nat (r_SizeData r)))),
     (''num_shards'', JNum (Itoa (r_NumShards r))),
     (''elapsed'', JNum (Itoa (sint (r_ElapsedIndexing r)))),
     (''time_updated'', JStr (ft (r_TimeUpdated r)))]"

definition encode_db :: "(int \<Rightarrow> string) \<Rightarrow> (string, repo) gomap \<Rightarrow> json" where
  "encode_db ft m = JObj [(''repo'', JObj (map (\<lambda>(k, r). (k, encode_repo ft r)) (sort_key fst m)))]"

text \<open>\<open>Encoder.Encode\<close> ends the text with a newline.\<close>

definition db_text :: "(int \<Rightarrow> string) \<Rightarrow> (string, repo) gomap \<Rightarrow> string" where
  "db_text ft m = json_text (encode_db ft m) @ [CHR 0x0A]"

section \<open>Reading\<close>

text \<open>What decoding a value into a variable leaves there: with the first mismatch of types, which does
  not stop it, or with an error that does.\<close>

datatype 'a decoded = Decoded 'a "go_error option" | Aborted 'a go_error | Outside

text \<open>Names of fields are compared up to case, as \<open>foldFunc\<close> does: U+017F is an \<open>s\<close> and U+212A a \<open>k\<close>.\<close>

definition fold_byte :: "char \<Rightarrow> char" where
  "fold_byte c = (let b = byte c in if 65 \<le> b \<and> b \<le> 90 then char_of (b + 32) else c)"

function fold_name :: "string \<Rightarrow> string" where
  "fold_name [] = []"
| "fold_name (c # cs) =
     (if c = CHR 0xC5 \<and> take 1 cs = [CHR 0xBF] then CHR ''s'' # fold_name (drop 1 cs)
      else if c = CHR 0xE2 \<and> take 2 cs = [CHR 0x84, CHR 0xAA] then CHR ''k'' # fold_name (drop 2 cs)
      else fold_byte c # fold_name cs)"
  by pat_completeness auto
termination by (relation "measure length") auto

definition kind_name :: "json \<Rightarrow> string" where
  "kind_name v = (case v of JNull \<Rightarrow> ''null'' | JBool b \<Rightarrow> ''bool'' | JNum lit \<Rightarrow> ''number '' @ lit
     | JStr s \<Rightarrow> ''string'' | JArr vs \<Rightarrow> ''array'' | JObj ms \<Rightarrow> ''object'')"

definition mismatch :: "json \<Rightarrow> string \<Rightarrow> go_error option \<Rightarrow> go_error option" where
  "mismatch v typ err = (case err of Some e \<Rightarrow> Some e
     | None \<Rightarrow> Some (OtherError (''json: cannot unmarshal '' @ kind_name v @ '' into Go value of type '' @ typ)))"

text \<open>A \<open>null\<close> leaves a string or a number as it is.\<close>

definition decode_string :: "json \<Rightarrow> go_error option \<Rightarrow> string \<Rightarrow> string decoded" where
  "decode_string v err old = (case v of
      JStr s \<Rightarrow> Decoded s err
    | JNull \<Rightarrow> Decoded old err
    | _ \<Rightarrow> Decoded old (mismatch v ''string'' err))"

definition decode_int :: "string \<Rightarrow> json \<Rightarrow> go_error option \<Rightarrow> int \<Rightarrow> int decoded" where
  "decode_int typ v err old = (case v of
      JNum lit \<Rightarrow> (case Atoi lit of
          Some i \<Rightarrow> Decoded i err
        | None \<Rightarrow> Decoded old (mismatch v typ err))
    | JNull \<Rightarrow> Decoded old err
    | _ \<Rightarrow> Decoded old (mismatch v typ err))"

text \<open>A size is read as a floating point number, which has every whole number up to \<open>2 ^ 53\<close>.\<close>

definition decode_size :: "json \<Rightarrow> go_error option \<Rightarrow> nat \<Rightarrow> nat decoded" where
  "decode_size v err old = (case v of
      JNum lit \<Rightarrow> if list_all is_digit lit \<and> digits_val lit \<le> 2 ^ 53 then Decoded (digits_val lit) err else Outside
    | JNull \<Rightarrow> Decoded old err
    | _ \<Rightarrow> Decoded old (mismatch v ''afind.ByteSize'' err))"

text \<open>An entry of a map whose value does not fit is the empty string.\<close>

fun decode_entries :: "(string \<times> json) list \<Rightarrow> go_error option \<Rightarrow> meta \<Rightarrow> meta decoded" where
  "decode_entries [] err m = Decoded m err"
| "decode_entries ((k, v) # ms) err m =
     (case decode_string v err '''' of
        Decoded s err \<Rightarrow> decode_entries ms err (gm_put k s m)
      | _ \<Rightarrow> Outside)"

definition decode_meta :: "json \<Rightarrow> go_error option \<Rightarrow> meta \<Rightarrow> meta decoded" where
  "decode_meta v err old = (case v of
      JObj ms \<Rightarrow> decode_entries ms err old
    | JNull \<Rightarrow> Outside
    | _ \<Rightarrow> Decoded old (mismatch v ''afind.Meta'' err))"

text \<open>\<open>time.Time\<close> reads itself, and an error it returns ends the decoding.\<close>

definition decode_time :: "(json \<Rightarrow> go_error + int) \<Rightarrow> json \<Rightarrow> go_error option \<Rightarrow> int \<Rightarrow> int decoded" where
  "decode_time pt v err old = (case pt v of Inl e \<Rightarrow> Aborted old e | Inr t \<Rightarrow> Decoded t err)"

primrec map_decoded :: "('a \<Rightarrow> 'b) \<Rightarrow> 'a decoded \<Rightarrow> 'b decoded" where
  "map_decoded f (Decoded x err) = Decoded (f x) err"
| "map_decoded f (Aborted x e) = Aborted (f x) e"
| "map_decoded f Outside = Outside"

definition decode_field ::
  "(json \<Rightarrow> go_error + int) \<Rightarrow> string \<Rightarrow> json \<Rightarrow> go_error option \<Rightarrow> repo \<Rightarrow> repo decoded" where
  "decode_field pt name v err r =
     (if name = ''key'' then map_decoded (\<lambda>s. r\<lparr>r_Key := s\<rparr>) (decode_string v err (r_Key r))
      else if name = ''index_path'' then map_decoded (\<lambda>s. r\<lparr>r_IndexPath := s\<rparr>) (decode_string v err (r_IndexPath r))
      else if name = ''root'' then map_decoded (\<lambda>s. r\<lparr>r_Root := s\<rparr>) (decode_string v err (r_Root r))
      else if name = ''meta'' then map_decoded (\<lambda>m. r\<lparr>r_Meta := m\<rparr>) (decode_meta v err (r_Meta r))
      else if name = ''state'' then map_decoded (\<lambda>s. r\<lparr>r_State := s\<rparr>) (decode_string v err (r_State r))
      else if name = ''num_files'' then map_decoded (\<lambda>i. r\<lparr>r_NumFiles := i\<rparr>) (decode_int ''int'' v err (r_NumFiles r))
      else if name = ''size_index'' then map_decoded (\<lambda>n. r\<lparr>r_SizeIndex := n\<rparr>) (decode_size v err (r_SizeIndex r))
      else if name = ''size_data'' then map_decoded (\<lambda>n. r\<lparr>r_SizeData := n\<rparr>) (decode_size v err (r_SizeData r))
      else if name = ''num_shards'' then map_decoded (\<lambda>i. r\<lparr>r_NumShards := i\<rparr>) (decode_int ''int'' v err (r_NumShards r))
      else if name = ''elapsed'' then map_decoded (\<lambda>i. r\<lparr>r_ElapsedIndexing := word_of_int i\<rparr>)
        (decode_int ''time.Duration'' v err (sint (r_ElapsedIndexing r)))
      else if name = ''time_updated'' then map_decoded (\<lambda>t. r\<lparr>r_TimeUpdated := t\<rparr>) (decode_time pt v err (r_TimeUpdated r))
      else Decoded r err)"

fun decode_fields ::
  "(json \<Rightarrow> go_error + int) \<Rightarrow> (string \<times> json) list \<Rightarrow> go_error option \<Rightarrow> repo \<Rightarrow> repo decoded" where
  "decode_fields pt [] err r = Decoded r err"
| "decode_fields pt ((k, v) # ms) err r =
     (case decode_field pt (fold_name k) v err r of
        Decoded r err \<Rightarrow> decode_fields pt ms err r
      | res \<Rightarrow> res)"

text \<open>\<open>Repo.UnmarshalJSON\<close>: decode into a new repository, which replaces the receiver \<open>old\<close> if there
  was no error at all.\<close>

definition UnmarshalJSON :: "(json \<Rightarrow> go_error + int) \<Rightarrow> json \<Rightarrow> repo \<Rightarrow> (repo \<times> go_error option) option" where
  "UnmarshalJSON pt v old =
     (case (case v of JObj ms \<Rightarrow> decode_fields pt ms None NewRepo
        | JNull \<Rightarrow> Decoded NewRepo None
        | _ \<Rightarrow> Decoded NewRepo (mismatch v ''afind.repo'' None)) of
        Decoded r None \<Rightarrow> Some (r, None)
      | Decoded r (Some e) \<Rightarrow> Some (old, Some e)
      | Aborted r e \<Rightarrow> Some (old, Some e)
      | Outside \<Rightarrow> None)"

text \<open>The members of the map: an error of a repository ends the decoding, those before it stay.\<close>

fun decode_repos ::
  "(json \<Rightarrow> go_error + int) \<Rightarrow> (string \<times> json) list \<Rightarrow> go_error option \<Rightarrow> (string, repo) gomap \<Rightarrow>
   (string, repo) gomap decoded" where
  "decode_repos pt [] err m = Decoded m err"
| "decode_repos pt ((k, v) # ms) err m =
     (if v = JNull then Outside
      else (case UnmarshalJSON pt v NewRepo of
          None \<Rightarrow> Outside
        | Some (r, Some e) \<Rightarrow> Aborted m e
        | Some (r, None) \<Rightarrow> decode_repos pt ms err (gm_put k r m)))"

fun decode_db ::
  "(json \<Rightarrow> go_error + int) \<Rightarrow> (string \<times> json) list \<Rightarrow> go_error option \<Rightarrow> (string, repo) gomap \<Rightarrow>
   (string, repo) gomap decoded" where
  "decode_db pt [] err m = Decoded m err"
| "decode_db pt ((k, v) # ms) err m =
     (if fold_name k = ''repo'' then
        (case v of
           JObj rs \<Rightarrow> (case decode_repos pt rs err m of
               Decoded m err \<Rightarrow> decode_db pt ms err m
             | res \<Rightarrow> res)
         | JNull \<Rightarrow> Outside
         | _ \<Rightarrow> decode_db pt ms (mismatch v ''map[string]*afind.Repo'' err) m)
      else decode_db pt ms err m)"

text \<open>\<open>Decoder.Decode\<close> into a new database.\<close>

definition db_of_text :: "(json \<Rightarrow> go_error + int) \<Rightarrow> string \<Rightarrow> (string, repo) gomap decoded" where
  "db_of_text pt s = (case json_read s of
      None \<Rightarrow> Aborted [] (OtherError ''unexpected EOF'')
    | Some (JObj ms) \<Rightarrow> decode_db pt ms None []
    | Some JNull \<Rightarrow> Decoded [] None
    | Some v \<Rightarrow> Decoded [] (mismatch v ''afind.db'' None))"

text \<open>The environment of a database whose files hold this text.\<close>

definition decoded_map :: "'a decoded \<Rightarrow> 'a \<times> go_error option" where
  "decoded_map res = (case res of Decoded m err \<Rightarrow> (m, err) | Aborted m e \<Rightarrow> (m, Some e) | Outside \<Rightarrow> undefined)"

definition json_env ::
  "(string \<Rightarrow> go_error option) \<Rightarrow> (string \<Rightarrow> go_error option) \<Rightarrow> (int \<Rightarrow> string) \<Rightarrow>
   (json \<Rightarrow> go_error + int) \<Rightarrow> string fs_env" where
  "json_env creates opens ft pt = \<lparr>fe_create = creates, fe_open = opens, fe_encode = db_text ft,
     fe_decode = (\<lambda>s. decoded_map (db_of_text pt s))\<rparr>"

section \<open>What comes back\<close>

text \<open>Strings come back with invalid bytes replaced, maps in the order of their keys.\<close>

definition coerce_meta :: "meta \<Rightarrow> meta" where
  "coerce_meta m = gm_copy (map (\<lambda>(k, v). (coerce k, coerce v)) (sort_key fst m)) []"

definition coerce_repo :: "repo \<Rightarrow> repo" where
  "coerce_repo r = r\<lparr>r_Key := coerce (r_Key r), r_IndexPath := coerce (r_IndexPath r),
     r_Root := coerce (r_Root r), r_Meta := coerce_meta (r_Meta r), r_State := coerce (r_State r)\<rparr>"

definition coerce_db :: "(string, repo) gomap \<Rightarrow> (string, repo) gomap" where
  "coerce_db m = gm_copy (map (\<lambda>(k, r). (coerce k, coerce_repo r)) (sort_key fst m)) []"

text \<open>Numbers of the width the code has, and a time whose text is read back.\<close>

definition storable :: "(int \<Rightarrow> string) \<Rightarrow> (json \<Rightarrow> go_error + int) \<Rightarrow> repo \<Rightarrow> bool" where
  "storable ft pt r \<longleftrightarrow> - (2 ^ 63) \<le> r_NumFiles r \<and> r_NumFiles r < 2 ^ 63 \<and>
     - (2 ^ 63) \<le> r_NumShards r \<and> r_NumShards r < 2 ^ 63 \<and>
     r_SizeIndex r \<le> 2 ^ 53 \<and> r_SizeData r \<le> 2 ^ 53 \<and>
     pt (JStr (coerce (ft (r_TimeUpdated r)))) = Inr (r_TimeUpdated r)"

lemma coerce_members_map: "coerce_members ms = map (\<lambda>(k, v). (coerce k, coerce_json v)) ms"
  by (induction ms) auto

lemma coerce_name: "list_all (\<lambda>c. byte c < 128) s \<Longrightarrow> coerce s = s"
  by (intro coerce_id valid_ascii) (simp add: list_all_iff)

lemma Itoa_nat_head: "0 < n \<Longrightarrow> hd (Itoa_nat n) \<noteq> CHR ''0''"
proof (induction n rule: Itoa_nat.induct)
  case (1 n)
  show ?case
  proof (cases "n < 10")
    case True
    with 1(2) show ?thesis
      by (subst Itoa_nat.simps) (auto simp: digit_def char_of_eq_iff take_bit_nat_def)
  next
    case False
    then have "hd (Itoa_nat n) = hd (Itoa_nat (n div 10))" by (subst Itoa_nat.simps) simp
    with 1(1) [OF False] False show ?thesis by simp
  qed
qed

lemma digits1_all:
  assumes "list_all is_digit s" "s \<noteq> []"
  shows "digits1 s = Some (s, [])"
proof -
  have all: "takeWhile is_digit s = s" "dropWhile is_digit s = []" using assms(1) by (auto simp: list_all_iff)
  show ?thesis unfolding digits1_def Let_def all using assms(2) by simp
qed

lemma number_Itoa: "number (Itoa i) = Some (Itoa i, [])"
proof -
  have int: "number_int (Itoa_nat n) = Some (Itoa_nat n, [])" for n
  proof (cases "n = 0")
    case True
    then show ?thesis by (subst (1 2) Itoa_nat.simps) (simp add: number_int_def digit_def char_of_eq_iff)
  next
    case False
    then obtain c s where "Itoa_nat n = c # s" "c \<noteq> CHR ''0''"
      using Itoa_nat_head [of n] by (cases "Itoa_nat n") auto
    with digits1_all [OF Itoa_nat_digits, of n] show ?thesis by (simp add: number_int_def)
  qed
  have "number_sign (Itoa_nat n) = ([], Itoa_nat n)" for n
    using Itoa_nat_no_dash [of n] by (cases "Itoa_nat n") (auto simp: number_sign_def)
  then show ?thesis
    using int by (simp add: number_def Itoa_def number_frac_def number_exp_def) (simp add: number_sign_def)
qed

lemma decode_size_Itoa: "n \<le> 2 ^ 53 \<Longrightarrow> decode_size (JNum (Itoa (int n))) err old = Decoded n err"
  by (simp add: decode_size_def Itoa_def Itoa_nat_digits digits_val_Itoa_nat)

lemma decode_entries_strings:
  "decode_entries (map (\<lambda>(k, v). (f k, JStr (g v))) ms) err m = Decoded (gm_copy (map (\<lambda>(k, v). (f k, g v)) ms) m) err"
  by (induction ms arbitrary: m) (auto simp: decode_string_def gm_copy_def)

lemma decode_meta_encoded:
  "decode_meta (coerce_json (encode_meta m)) err [] = Decoded (coerce_meta m) err"
proof -
  have "coerce_json (encode_meta m) = JObj (map (\<lambda>(k, v). (coerce k, JStr (coerce v))) (sort_key fst m))"
    by (simp add: encode_meta_def coerce_members_map split_def)
  then show ?thesis by (simp add: decode_meta_def decode_entries_strings coerce_meta_def)
qed

lemma sint_of_sint: "word_of_int (sint w) = (w :: 64 word)"
  by simp

lemma MarshalJSON_nat: "MarshalJSON (of_nat n) = Itoa (int n)"
  using MarshalJSON_Itoa [of "int n"] by simp

lemma decode_repo_encoded:
  assumes "storable ft pt r"
  shows "UnmarshalJSON pt (coerce_json (encode_repo ft r)) old = Some (coerce_repo r, None)"
proof -
  have ints: "Atoi (Itoa (r_NumFiles r)) = Some (r_NumFiles r)" "Atoi (Itoa (r_NumShards r)) = Some (r_NumShards r)"
    using assms by (simp_all add: storable_def Atoi_Itoa)
  have elapsed: "Atoi (Itoa (sint (r_ElapsedIndexing r))) = Some (sint (r_ElapsedIndexing r))"
    using sint_greater_eq [of "r_ElapsedIndexing r"] sint_less [of "r_ElapsedIndexing r"]
    by (intro Atoi_Itoa) simp_all
  have sizes: "decode_size (JNum (Itoa (int (r_SizeIndex r)))) None old = Decoded (r_SizeIndex r) None"
    "decode_size (JNum (Itoa (int (r_SizeData r)))) None old = Decoded (r_SizeData r) None" for old
    using assms by (simp_all add: storable_def decode_size_Itoa)
  have "decode_time pt (JStr (coerce (ft (r_TimeUpdated r)))) None old = Decoded (r_TimeUpdated r) None" for old
    using assms by (simp add: storable_def decode_time_def)
  then show ?thesis
    by (simp add: UnmarshalJSON_def encode_repo_def coerce_name fold_byte_def decode_field_def decode_string_def
        decode_int_def ints elapsed sizes decode_meta_encoded MarshalJSON_nat NewRepo_def coerce_repo_def)
qed

lemma json_ok_members: "\<forall>(k, v) \<in> set ms. json_ok v \<Longrightarrow> members_ok ms"
  by (induction ms) auto

lemma json_ok_repo: "json_ok (encode_repo ft r)"
  by (auto simp: encode_repo_def encode_meta_def number_Itoa MarshalJSON_nat intro!: json_ok_members)

lemma decode_repos_encoded:
  assumes "\<forall>(k, r) \<in> set rs. storable ft pt r"
  shows "decode_repos pt (map (\<lambda>(k, r). (coerce k, coerce_json (encode_repo ft r))) rs) err m
    = Decoded (gm_copy (map (\<lambda>(k, r). (coerce k, coerce_repo r)) rs) m) err"
  using assms
proof (induction rs arbitrary: m)
  case (Cons kr rs)
  obtain k r where kr: "kr = (k, r)" by (cases kr)
  have "coerce_json (encode_repo ft r) \<noteq> JNull" by (simp add: encode_repo_def)
  with Cons show ?case by (simp add: kr decode_repo_encoded gm_copy_def)
qed (simp add: gm_copy_def)

theorem db_text_read_back:
  assumes "\<forall>(k, r) \<in> set m. storable ft pt r"
  shows "db_of_text pt (db_text ft m) = Decoded (coerce_db m) None"
proof -
  let ?rs = "map (\<lambda>(k, r). (k, encode_repo ft r)) (sort_key fst m)"
  have "json_ok (encode_db ft m)"
    by (auto simp: encode_db_def json_ok_repo intro!: json_ok_members)
  then have "json_read (db_text ft m) = Some (coerce_json (encode_db ft m))"
    unfolding db_text_def by (rule json_read_text) simp
  moreover have "coerce_json (encode_db ft m) = JObj [(''repo'', JObj
      (map (\<lambda>(k, r). (coerce k, coerce_json (encode_repo ft r))) (sort_key fst m)))]"
    by (simp add: encode_db_def coerce_members_map coerce_name split_def)
  moreover have "\<forall>(k, r) \<in> set (sort_key fst m). storable ft pt r" using assms by simp
  note decode_repos_encoded [OF this, of None "[]"]
  ultimately show ?thesis
    by (simp add: db_of_text_def fold_byte_def coerce_db_def)
qed

text \<open>What has only valid strings comes back as it was, in the order of the keys.\<close>

definition in_order :: "repo \<Rightarrow> repo" where
  "in_order r = r\<lparr>r_Meta := sort_key fst (r_Meta r)\<rparr>"

definition valid_repo :: "repo \<Rightarrow> bool" where
  "valid_repo r \<longleftrightarrow> valid_utf8 (r_Key r) \<and> valid_utf8 (r_IndexPath r) \<and> valid_utf8 (r_Root r) \<and>
     valid_utf8 (r_State r) \<and> gm_ok (r_Meta r) \<and> (\<forall>(k, v) \<in> set (r_Meta r). valid_utf8 k \<and> valid_utf8 v)"

lemma gm_ok_sort: "gm_ok m \<Longrightarrow> gm_ok (sort_key fst m)"
  by (simp add: gm_ok_def distinct_map)

lemma update_new: "k \<notin> fst ` set m \<Longrightarrow> AList.update k v m = m @ [(k, v)]"
  by (induction m) auto

lemma gm_copy_append: "gm_ok (m @ other) \<Longrightarrow> gm_copy other m = m @ other"
proof (induction other arbitrary: m)
  case (Cons kv other)
  obtain k v where kv: "kv = (k, v)" by (cases kv)
  have "gm_put k v m = m @ [(k, v)]"
    using Cons.prems by (simp add: gm_put_def kv update_new gm_ok_def)
  with Cons show ?case by (simp add: kv gm_copy_def)
qed (simp add: gm_copy_def)

lemma gm_copy_Nil: "gm_ok m \<Longrightarrow> gm_copy m [] = m"
  using gm_copy_append [of "[]" m] by simp

lemma coerce_valid_map:
  assumes "gm_ok m" "\<forall>(k, v) \<in> set m. valid_utf8 k \<and> f v = g v"
  shows "gm_copy (map (\<lambda>(k, v). (coerce k, f v)) (sort_key fst m)) [] = map (apsnd g) (sort_key fst m)"
proof -
  have "map (\<lambda>(k, v). (coerce k, f v)) (sort_key fst m) = map (apsnd g) (sort_key fst m)"
    using assms(2) by (auto simp: coerce_id)
  moreover have "gm_ok (map (apsnd g) (sort_key fst m))"
    using gm_ok_sort [OF assms(1)] by (simp add: gm_ok_def o_def)
  ultimately show ?thesis by (simp only: gm_copy_Nil)
qed

lemma coerce_repo_valid: "valid_repo r \<Longrightarrow> coerce_repo r = in_order r"
  using coerce_valid_map [of "r_Meta r" coerce id]
  by (auto simp: valid_repo_def coerce_repo_def in_order_def coerce_id coerce_meta_def prod.map_id0 apsnd_def
      case_prod_beta)

lemma coerce_db_valid:
  assumes "gm_ok m" "\<forall>(k, r) \<in> set m. valid_utf8 k \<and> valid_repo r"
  shows "map_of (coerce_db m) = map_option in_order \<circ> map_of m"
proof -
  have "coerce_db m = map (apsnd in_order) (sort_key fst m)"
    unfolding coerce_db_def using assms by (intro coerce_valid_map) (auto simp: coerce_repo_valid)
  moreover have "map_of (sort_key fst m) = map_of m"
    using map_of_in_set [OF assms(1)] map_of_in_set [OF gm_ok_sort [OF assms(1)]]
    by (intro ext option_eqI) simp
  ultimately show ?thesis
    using map_of_map [of in_order "sort_key fst m"] by (simp add: apsnd_def map_prod_def split_def)
qed

section \<open>Restarts\<close>

lemma coerce_db_ok: "gm_ok (coerce_db m)"
  by (simp add: coerce_db_def)

lemma reopened:
  assumes "ops \<noteq> []" "db_bfn d \<noteq> ''''" "creates (db_bfn d) = None" "opens (db_bfn d) = None"
    and env: "env = json_env creates opens ft pt"
    and "\<forall>(k, r) \<in> set (db_R (db_run env ops d)). storable ft pt r"
  shows "db_Get (newJsonBackedDb env (db_bfn d) (db_files (db_run env ops d)))
    = map_of (coerce_db (db_R (db_run env ops d)))"
proof (rule reopen_map [OF assms(1,2)])
  show "fe_decode env (fe_encode env (db_R (db_run env ops d))) = (coerce_db (db_R (db_run env ops d)), None)"
    using db_text_read_back [OF assms(6)] by (simp add: env json_env_def decoded_map_def)
qed (simp_all add: env json_env_def assms(3,4) coerce_db_ok)

lemma survives:
  assumes "db_ok d" "ops \<noteq> []" "db_bfn d \<noteq> ''''" "creates (db_bfn d) = None" "opens (db_bfn d) = None"
    and env: "env = json_env creates opens ft pt"
    and "\<forall>(k, r) \<in> set (db_R (db_run env ops d)). valid_utf8 k \<and> valid_repo r \<and> storable ft pt r"
  shows "db_Get (newJsonBackedDb env (db_bfn d) (db_files (db_run env ops d)))
    = map_option in_order \<circ> db_Get (db_run env ops d)"
proof -
  let ?m = "db_R (db_run env ops d)"
  have "gm_ok ?m" using db_run_ok [OF assms(1)] by (simp add: db_ok_def)
  then have "map_of (coerce_db ?m) = map_option in_order \<circ> map_of ?m"
    using assms(7) by (intro coerce_db_valid) auto
  moreover have "\<forall>(k, r) \<in> set ?m. storable ft pt r" using assms(7) by auto
  ultimately show ?thesis
    using reopened [OF assms(2-6)] by (simp add: db_Get_map fun_eq_iff)
qed

text \<open>C14. The database survives a restart. After any sequence of stores and deletions on a database
  whose backing file can be written and read, reading the JSON text that the file then holds gives
  the same repositories under the same keys, field by field, when their strings are valid UTF-8,
  their numbers fit the types of the code, sizes are below \<open>2 ^ 53\<close>, and the text of their time is
  read back. (Maps come back in the order of their keys.)\<close>

theorem database_survives_restart:
  assumes "db_ok d" "ops \<noteq> []" "db_bfn d \<noteq> ''''" "creates (db_bfn d) = None" "opens (db_bfn d) = None"
    and env: "env = json_env creates opens ft pt"
    and "\<forall>(k, r) \<in> set (db_R (db_run env ops d)). valid_utf8 k \<and> valid_repo r \<and> storable ft pt r"
  shows "db_Get (newJsonBackedDb env (db_bfn d) (db_files (db_run env ops d)))
    = map_option in_order \<circ> db_Get (db_run env ops d)"
  using assms by (rule survives)

text \<open>Names that are not valid UTF-8 do not survive it. After a restart the keys of the database are
  those it had with every invalid byte replaced by U+FFFD: a repository whose key was not valid is
  not found under it any more, and keys that differ only in such bytes become one.\<close>

theorem restart_replaces_invalid_keys:
  assumes "ops \<noteq> []" "db_bfn d \<noteq> ''''" "creates (db_bfn d) = None" "opens (db_bfn d) = None"
    and env: "env = json_env creates opens ft pt"
    and "\<forall>(k, r) \<in> set (db_R (db_run env ops d)). storable ft pt r"
  shows "dom (db_Get (newJsonBackedDb env (db_bfn d) (db_files (db_run env ops d))))
      = coerce ` dom (db_Get (db_run env ops d)) \<and>
    (\<not> valid_utf8 key \<longrightarrow> db_Get (newJsonBackedDb env (db_bfn d) (db_files (db_run env ops d))) key = None)"
proof -
  let ?m = "db_R (db_run env ops d)"
  have "fst ` set (gm_copy kvs m) = fst ` set kvs \<union> fst ` set m" for kvs and m :: "(string, repo) gomap"
    by (induction kvs arbitrary: m) (simp_all add: gm_copy_def split_def keys_gm_put)
  then have keys: "fst ` set (coerce_db ?m) = coerce ` fst ` set ?m"
    by (simp add: coerce_db_def image_image split_def)
  have "db_Get (db_run env ops d) = map_of ?m" by (simp add: db_Get_map fun_eq_iff)
  moreover have "coerce k \<noteq> key" if "\<not> valid_utf8 key" for k using that coerce_valid by blast
  ultimately show ?thesis
    unfolding reopened [OF assms] using keys by (auto simp: dom_map_of_conv_image_fst map_of_eq_None_iff)
qed

definition stored_repo :: repo where
  "stored_repo = \<lparr>r_Key = ''k'', r_IndexPath = ''/ix'', r_Root = ''/src'', r_Meta = [(''os'', ''<a>''), (''host'', ''h'')],
     r_State = st_OK, r_NumFiles = 2, r_SizeIndex = 7, r_SizeData = 4096, r_NumShards = 1,
     r_ElapsedIndexing = -1, r_TimeUpdated = 12\<rparr>"

text \<open>Times as plain numbers, to have a concrete text for them.\<close>

definition plain_time :: "json \<Rightarrow> go_error + int" where
  "plain_time v = (case v of JStr s \<Rightarrow> (case Atoi s of Some t \<Rightarrow> Inr t | None \<Rightarrow> Inl (OtherError ''time'')) | _ \<Rightarrow> Inl (OtherError ''time''))"

lemma coerce_Itoa: "coerce (Itoa i) = Itoa i"
proof -
  have "\<forall>c \<in> set (Itoa_nat n). byte c < 128" for n
    using Itoa_nat_digits [of n] by (auto simp: list_all_iff is_digit_def)
  then have "valid_utf8 (Itoa i)" by (intro valid_ascii) (auto simp: Itoa_def)
  then show ?thesis by (rule coerce_id)
qed

lemma plain_time_Itoa: "- (2 ^ 63) \<le> t \<Longrightarrow> t < 2 ^ 63 \<Longrightarrow> plain_time (JStr (coerce (Itoa t))) = Inr t"
  by (simp add: plain_time_def coerce_Itoa Atoi_Itoa)

lemma stored_repo_ok: "storable Itoa plain_time stored_repo" "valid_repo stored_repo" "in_order stored_repo =
  stored_repo\<lparr>r_Meta := [(''host'', ''h''), (''os'', ''<a>'')]\<rparr>"
  by (simp_all add: storable_def plain_time_Itoa valid_repo_def stored_repo_def gm_ok_def state_defs in_order_def valid_ascii)

abbreviation json_plain :: "string fs_env" where
  "json_plain \<equiv> json_env (\<lambda>_. None) (\<lambda>_. None) Itoa plain_time"

abbreviation empty_file_db :: "string db" where
  "empty_file_db \<equiv> \<lparr>db_R = [], db_bfn = ''f'', db_bs = False, db_files = (\<lambda>_. None)\<rparr>"

lemma json_run_put: "db_R (db_run json_plain [OpSet ''a'' (Some r), OpSet key (Some r), OpDelete ''a''] empty_file_db)
    = gm_delete ''a'' (gm_put key r [(''a'', r)])"
  by (simp add: db_run_def db_Set_def db_Delete_def Let_def db_flush_def json_env_def gm_put_def)

lemma database_survives_restart_witness:
  "db_Get (newJsonBackedDb json_plain ''f'' (db_files (db_run json_plain
     [OpSet ''a'' (Some stored_repo), OpSet ''k'' (Some stored_repo), OpDelete ''a''] empty_file_db))) ''k''
   = Some (stored_repo\<lparr>r_Meta := [(''host'', ''h''), (''os'', ''<a>'')]\<rparr>)"
proof -
  let ?ops = "[OpSet ''a'' (Some stored_repo), OpSet ''k'' (Some stored_repo), OpDelete ''a'']"
  have R: "db_R (db_run json_plain ?ops empty_file_db) = [(''k'', stored_repo)]"
    by (simp add: json_run_put gm_delete_def gm_put_def)
  have ok: "db_ok empty_file_db" "?ops \<noteq> []" "db_bfn empty_file_db \<noteq> ''''" by (simp_all add: db_ok_def)
  have "\<forall>(k, r) \<in> set (db_R (db_run json_plain ?ops empty_file_db)).
      valid_utf8 k \<and> valid_repo r \<and> storable Itoa plain_time r"
    by (simp add: R stored_repo_ok valid_ascii)
  from database_survives_restart [OF ok refl refl refl this] show ?thesis
    by (simp add: db_Get_map R stored_repo_ok)
qed

text \<open>A key that ends in half a character.\<close>

lemma restart_replaces_invalid_keys_witness:
  "let env = json_plain; d = db_run env [OpSet ''a'' (Some stored_repo), OpSet [CHR 0xC3] (Some stored_repo), OpDelete ''a''] empty_file_db;
       d' = newJsonBackedDb env ''f'' (db_files d)
   in db_Get d [CHR 0xC3] = Some stored_repo \<and> db_Get d' [CHR 0xC3] = None \<and> dom (db_Get d') = {repl}"
proof -
  let ?key = "[CHR 0xC3]"
  let ?ops = "[OpSet ''a'' (Some stored_repo), OpSet ?key (Some stored_repo), OpDelete ''a'']"
  have R: "db_R (db_run json_plain ?ops empty_file_db) = [(?key, stored_repo)]"
    by (simp add: json_run_put gm_delete_def gm_put_def)
  have ok: "?ops \<noteq> []" "db_bfn empty_file_db \<noteq> ''''" by simp_all
  have key: "\<not> valid_utf8 ?key" "coerce ?key = repl" by (simp_all add: rune_len.simps(2) lead_def)
  have "\<forall>(k, r) \<in> set (db_R (db_run json_plain ?ops empty_file_db)). storable Itoa plain_time r"
    by (simp add: R stored_repo_ok)
  from restart_replaces_invalid_keys [OF ok refl refl refl this, of ?key] show ?thesis
    by (simp add: db_Get_map R key Let_def del: coerce.simps valid_utf8.simps)
qed

section \<open>Damaged files\<close>

lemma decode_repos_stop:
  assumes "decode_repos pt ms1 err m0 = Decoded m err'" "UnmarshalJSON pt v NewRepo = Some (r, Some e)" "v \<noteq> JNull"
  shows "decode_repos pt (ms1 @ (k, v) # ms2) err m0 = Aborted m e"
  using assms
proof (induction ms1 arbitrary: m0)
  case (Cons kv ms1)
  obtain k' v' where kv: "kv = (k', v')" by (cases kv)
  from Cons.prems(1) obtain r' where step: "v' \<noteq> JNull" "UnmarshalJSON pt v' NewRepo = Some (r', None)"
    "decode_repos pt ms1 err (gm_put k' r' m0) = Decoded m err'"
    by (auto simp: kv split: if_splits option.splits prod.splits)
  with Cons.IH [OF step(3) assms(2,3)] show ?case by (simp add: kv)
qed simp

lemma decode_repos_ok: "decode_repos pt ms err m0 = Decoded m err' \<Longrightarrow> gm_ok m0 \<Longrightarrow> gm_ok m"
  by (induction ms arbitrary: m0) (auto split: if_splits option.splits prod.splits)

text \<open>C33. A damaged database file is not kept. When one repository of the file can not be read, the
  daemon opens the file with the repositories before it only, without the ones behind, as if it
  were new; and the first repository it stores writes the file anew, so that the others are gone
  from the disk too.\<close>

theorem damaged_file_is_overwritten:
  assumes "json_read s = Some (JObj [(''repo'', JObj (ms1 @ (k, v) # ms2))])"
    and "decode_repos pt ms1 None [] = Decoded m None"
    and "v \<noteq> JNull" "UnmarshalJSON pt v NewRepo = Some (r, Some e)"
    and "bfn \<noteq> ''''" "files bfn = Some s" "opens bfn = None" "creates bfn = None"
    and env: "env = json_env creates opens ft pt"
    and d: "d = newJsonBackedDb env bfn files"
  shows "db_Get d = map_of m \<and>
    db_files (fst (db_Set env key (Some new) d)) bfn = Some (db_text ft (gm_put key new (db_R d))) \<and>
    dom (map_of (gm_put key new (db_R d))) = insert key (dom (map_of m))"
proof -
  have "db_of_text pt s = Aborted m e"
    using assms(1) decode_repos_stop [OF assms(2,4,3)] by (simp add: db_of_text_def fold_byte_def)
  then have R: "d = \<lparr>db_R = gm_copy m [], db_bfn = bfn, db_bs = True, db_files = files\<rparr>"
    using assms(5-7) by (simp add: d newJsonBackedDb_def db_read_def env json_env_def decoded_map_def)
  have "gm_ok m" using decode_repos_ok [OF assms(2)] by simp
  then have get: "map_of (db_R d) = map_of m" by (simp add: R map_of_gm_copy)
  moreover have "db_files (fst (db_Set env key (Some new) d)) bfn = Some (db_text ft (gm_put key new (db_R d)))"
    using assms(5,8) by (simp add: R db_Set_def db_flush_def env json_env_def)
  ultimately show ?thesis by (auto simp: db_Get_map fun_eq_iff)
qed

definition damaged_text :: string where
  "damaged_text = ''{'' @ quoted ''repo'' @ '':{'' @ quoted ''a'' @ '':{},'' @ quoted ''b'' @ '':{'' @ quoted ''root'' @ '':1},''
     @ quoted ''c'' @ '':{}}}''"

text \<open>The second of three repositories has a number for its root.\<close>

lemma damaged_file_is_overwritten_witness:
  "let d = newJsonBackedDb json_plain ''f'' [''f'' \<mapsto> damaged_text]
   in db_Get d = [''a'' \<mapsto> NewRepo] \<and>
     db_files (fst (db_Set json_plain ''k'' (Some stored_repo) d)) ''f''
       = Some (db_text Itoa [(''a'', NewRepo), (''k'', stored_repo)])"
proof -
  let ?bad = "JObj [(''root'', JNum ''1'')]"
  let ?json = "JObj [(''repo'', JObj ([(''a'', JObj [])] @ (''b'', ?bad) # [(''c'', JObj [])]))]"
  have "number ''1'' = Some (''1'', [])"
    by (simp add: number_def number_sign_def number_int_def digits1_def is_digit_def number_frac_def number_exp_def)
  then have ok: "json_ok ?json" by simp
  have "damaged_text = json_text ?json @ []" by (simp add: damaged_text_def)
  with json_read_text [OF ok ends_simps(1)] have read: "json_read damaged_text = Some ?json"
    by (simp add: coerce_name del: coerce.simps)
  have one: "decode_repos plain_time [(''a'', JObj [])] None [] = Decoded [(''a'', NewRepo)] None"
    by (simp add: UnmarshalJSON_def gm_put_def)
  obtain e where e: "mismatch (JNum ''1'') ''string'' None = Some e" by (simp add: mismatch_def)
  have bad: "UnmarshalJSON plain_time ?bad NewRepo = Some (NewRepo, Some e)"
    using e by (simp add: UnmarshalJSON_def decode_field_def decode_string_def fold_byte_def)
  let ?d = "newJsonBackedDb json_plain ''f'' [''f'' \<mapsto> damaged_text]"
  have files: "[''f'' \<mapsto> damaged_text] ''f'' = Some damaged_text" "''f'' \<noteq> ''''" by simp_all
  have R: "db_R ?d = [(''a'', NewRepo)]"
    using read decode_repos_stop [OF one bad, of "''b''" "[(''c'', JObj [])]"]
    by (simp add: newJsonBackedDb_def db_read_def json_env_def decoded_map_def db_of_text_def fold_byte_def
        gm_copy_def gm_put_def)
  have "?bad \<noteq> JNull" by simp
  note lost = damaged_file_is_overwritten [where bfn = "''f''" and files = "[''f'' \<mapsto> damaged_text]" and opens = "\<lambda>_. None"
      and creates = "\<lambda>_. None" and ft = Itoa and key = "''k''" and new = stored_repo,
      OF read one this bad files(2,1) refl refl refl refl]
  then show ?thesis using R by (simp add: gm_put_def fun_eq_iff Let_def)
qed

end
