(* ===== verification/Index_Races.thy ===== *)
theory Index_Races
  imports Api_Search Repo_Json
begin

text \<open>
  The database under concurrent requests. \<open>doIndex\<close> of \<open>afind/api/index.go\<close> touches the database
  several times, and the lock of \<open>afind/db.go\<close> makes each access atomic, not the whole of it; the
  daemon serves every request in a goroutine of its own. Here an index request is a task that moves
  from one access to the next (\<open>task_step\<close>), and the tasks of a daemon interleave with each other
  and with what searches and the repository service do to the database (\<open>service_step\<close>).

  A task run without interruption is \<open>doIndex\<close>. An answer holds the repository as it was received.
\<close>

section \<open>The steps of an index request\<close>

datatype index_task =
    Checked bool config index_query
  | Marked bool config index_query
  | Clearing string index_result error_iface
  | Deleting string index_result error_iface
  | Answered index_result error_iface
  | Panicked string

text \<open>The check of the key and of the request.\<close>

definition index_begin ::
  "string option \<Rightarrow> (string list \<Rightarrow> string list) \<Rightarrow> config \<Rightarrow> index_query \<Rightarrow> 'c db \<Rightarrow> index_task" where
  "index_begin hostname order c req d =
     (let (local, c) = isLocal hostname c (Meta_Host (iq_Meta req)); resp = NewIndexResult
      in case db_Get d (iq_Key req) of
           Some r \<Rightarrow> Answered (resp\<lparr>ir_Repo := Some r\<rparr>) NoError
         | None \<Rightarrow>
             (case IndexQuery_Normalize order req of
                Inl e \<Rightarrow> Answered (IndexResult_SetError (Some e) resp) (SomeError e)
              | Inr q \<Rightarrow> Checked local c q))"

text \<open>What the indexer or the remote daemon answers, and the branch of the \<open>select\<close>.\<close>

definition index_settle ::
  "'c fs_env \<Rightarrow> index_backend \<Rightarrow> index_choices \<Rightarrow> bool \<Rightarrow> config \<Rightarrow> index_query \<Rightarrow> 'c db \<Rightarrow>
   index_task \<times> 'c db" where
  "index_settle env be ch local c q d =
     (if local \<or> iq_Recurse q then
        (let q' = q\<lparr>iq_Recurse := False\<rparr>;
             sent = (if local then Returns (localIndex be q' (ic_expired ch))
                     else remoteIndex c be q' (ic_expired ch));
             err = iface (ic_parerr ch)
         in case sent of
              Panics msg \<Rightarrow> (Panicked msg, d)
            | Returns incoming \<Rightarrow>
                (let (resp, err, d') =
                   (if ic_timeout ch then index_timed_out err d
                    else index_received c env (iq_Key q) incoming err d)
                 in (Clearing (iq_Key q) resp err, d')))
      else (Clearing (iq_Key q) NewIndexResult (SomeError NewNoRpcClientError),
            fst (db_Delete env (iq_Key q) d)))"

text \<open>The accesses in the order of the code: the marker is set; the result is stored; the deferred
  function looks for the marker, and removes it.\<close>

fun task_step ::
  "'c fs_env \<Rightarrow> index_backend \<Rightarrow> index_choices \<Rightarrow> index_task \<Rightarrow> 'c db \<Rightarrow> (index_task \<times> 'c db) option" where
  "task_step env be ch (Checked local c q) d =
     Some (Marked local c q, fst (db_Set env (iq_Key q) (Some (marker_repo q)) d))"
| "task_step env be ch (Marked local c q) d = Some (index_settle env be ch local c q d)"
| "task_step env be ch (Clearing key resp err) d =
     Some (case db_Get d key of
         Some r \<Rightarrow> if r_State r \<noteq> st_INDEXING then Answered resp err else Deleting key resp err
       | None \<Rightarrow> Answered resp err, d)"
| "task_step env be ch (Deleting key resp err) d = Some (Answered resp err, fst (db_Delete env key d))"
| "task_step env be ch (Answered resp err) d = None"
| "task_step env be ch (Panicked msg) d = None"

fun run_task ::
  "'c fs_env \<Rightarrow> index_backend \<Rightarrow> index_choices \<Rightarrow> nat \<Rightarrow> index_task \<Rightarrow> 'c db \<Rightarrow> index_task \<times> 'c db" where
  "run_task env be ch 0 t d = (t, d)"
| "run_task env be ch (Suc n) t d =
     (case task_step env be ch t d of None \<Rightarrow> (t, d) | Some (t', d') \<Rightarrow> run_task env be ch n t' d')"

section \<open>The daemon\<close>

record 'c service =
  sv_db :: "'c db"
  sv_tasks :: "index_task list"

text \<open>
  A request arrives (\<open>begun\<close>), a request in progress takes its next step (\<open>worked\<close>), with whatever its
  indexer answers. A search notes a repository that a result reported under its key (\<open>noted\<close>); the
  goroutine of a shard marks the repository it searches, which was available, as in error
  (\<open>poked\<close>) and stores it (\<open>stored\<close>); a repository is deleted (\<open>deleted\<close>) by a search or by a client.
\<close>

inductive service_step ::
  "string option \<Rightarrow> (string list \<Rightarrow> string list) \<Rightarrow> config \<Rightarrow> 'c fs_env \<Rightarrow> 'c service \<Rightarrow> 'c service \<Rightarrow> bool"
  for hostname order c env where
  begun: "service_step hostname order c env s
     (s\<lparr>sv_tasks := sv_tasks s @ [index_begin hostname order c req (sv_db s)]\<rparr>)"
| worked: "\<lbrakk>i < length (sv_tasks s); task_step env be ch (sv_tasks s ! i) (sv_db s) = Some (t, d)\<rbrakk> \<Longrightarrow>
   service_step hostname order c env s \<lparr>sv_db = d, sv_tasks = (sv_tasks s)[i := t]\<rparr>"
| noted: "r_Key r = k \<Longrightarrow>
   service_step hostname order c env s (s\<lparr>sv_db := update_repo c env (k, r) (sv_db s)\<rparr>)"
| poked: "\<lbrakk>db_Get (sv_db s) k = Some r; r_State r = st_OK\<rbrakk> \<Longrightarrow>
   service_step hostname order c env s (s\<lparr>sv_db := poke_error k r (sv_db s)\<rparr>)"
| stored: "r_State r = st_ERROR \<Longrightarrow>
   service_step hostname order c env s (s\<lparr>sv_db := fst (db_Set env (r_Key r) (Some r) (sv_db s))\<rparr>)"
| deleted: "service_step hostname order c env s (s\<lparr>sv_db := fst (db_Delete env k (sv_db s))\<rparr>)"

abbreviation service_steps ::
  "string option \<Rightarrow> (string list \<Rightarrow> string list) \<Rightarrow> config \<Rightarrow> 'c fs_env \<Rightarrow> 'c service \<Rightarrow> 'c service \<Rightarrow> bool" where
  "service_steps hostname order c env \<equiv> (service_step hostname order c env)\<^sup>*\<^sup>*"

inductive_cases service_stepE: "service_step hostname order c env s s'"

section \<open>An uninterrupted request\<close>

lemma remoteIndex_returns: "\<exists>incoming. remoteIndex c be req expired = Returns incoming"
proof -
  obtain addr where "getAddress (iq_Meta req) (PortRpc c) = Returns addr" using getAddress_port by blast
  then show ?thesis by (simp add: remoteIndex_def split_def Let_def)
qed

lemma index_settle_clears: "\<exists>resp err. fst (index_settle env be ch local c q d) = Clearing (iq_Key q) resp err"
proof -
  obtain incoming where "remoteIndex c be (q\<lparr>iq_Recurse := False\<rparr>) (ic_expired ch) = Returns incoming"
    using remoteIndex_returns by blast
  then show ?thesis by (auto simp: index_settle_def Let_def split: prod.splits)
qed

lemma run_clearing:
  "run_task env be ch 2 (Clearing key resp err) d = (Answered resp err, clear_marker env key d)"
  by (auto simp: clear_marker_def numeral_2_eq_2 split: option.splits)

lemma run_marked:
  assumes "index_settle env be ch local c q (fst (db_Set env (iq_Key q) (Some (marker_repo q)) d))
      = (Clearing key resp err, d')"
  shows "run_task env be ch 4 (Checked local c q) d = (Answered resp err, clear_marker env key d')"
proof -
  have "run_task env be ch 4 (Checked local c q) d = run_task env be ch 2 (Clearing key resp err) d'"
    using assms by (simp add: eval_nat_numeral)
  then show ?thesis by (simp only: run_clearing)
qed

lemma doIndex_Checked:
  assumes "index_begin hostname order c req d = Checked local c' q"
    and "index_settle env be ch local c' q (fst (db_Set env (iq_Key q) (Some (marker_repo q)) d))
      = (Clearing key resp err, d')"
  shows "doIndex hostname order c env be ch req d = Returns (resp, err, clear_marker env key d')"
  using assms
  by (auto simp: index_begin_def doIndex_def index_settle_def Let_def
      split: option.splits sum.splits prod.splits outcome.splits if_splits)

text \<open>Run without interruption, the steps of an index request are \<open>doIndex\<close>: the same answer and
  the same database, whatever the request, the database and the answer of the indexer, and never
  a panic.\<close>

theorem index_steps_are_doIndex:
  "\<exists>resp err d'. doIndex hostname order c env be ch req d = Returns (resp, err, d') \<and>
    run_task env be ch 4 (index_begin hostname order c req d) d = (Answered resp err, d')"
proof (cases "index_begin hostname order c req d")
  case (Checked local c' q)
  obtain resp err d' where settle: "index_settle env be ch local c' q
      (fst (db_Set env (iq_Key q) (Some (marker_repo q)) d)) = (Clearing (iq_Key q) resp err, d')"
    using index_settle_clears by (metis prod.collapse)
  show ?thesis
    using doIndex_Checked [OF Checked settle] run_marked [OF settle] Checked by simp
next
  case (Answered resp err)
  then have "doIndex hostname order c env be ch req d = Returns (resp, err, d)"
    by (auto simp: index_begin_def doIndex_def Let_def split: option.splits sum.splits prod.splits)
  then show ?thesis by (simp add: Answered eval_nat_numeral)
qed (auto simp: index_begin_def Let_def split: option.splits sum.splits prod.splits)

section \<open>Markers and the requests that answer for them\<close>

definition marker_at :: "'c db \<Rightarrow> string \<Rightarrow> bool" where
  "marker_at d k \<longleftrightarrow> (\<exists>r. db_Get d k = Some r \<and> r_State r = st_INDEXING)"

text \<open>The key under which a request in progress may have left its marker.\<close>

fun works_on :: "index_task \<Rightarrow> string option" where
  "works_on (Marked local c q) = Some (iq_Key q)"
| "works_on (Clearing key resp err) = Some key"
| "works_on (Deleting key resp err) = Some key"
| "works_on _ = None"

definition service_ok :: "'c service \<Rightarrow> bool" where
  "service_ok s \<longleftrightarrow> db_ok (sv_db s) \<and> db_keyed (sv_db s) \<and>
    (\<forall>k. marker_at (sv_db s) k \<longrightarrow> Some k \<in> works_on ` set (sv_tasks s))"

lemma marker_at_Set [simp]:
  "marker_at (fst (db_Set env k (Some r) d)) k' =
    (if k' = k then r_State r = st_INDEXING else marker_at d k')"
  by (simp add: marker_at_def)

lemma marker_at_Delete [simp]: "marker_at (fst (db_Delete env k d)) k' = (k' \<noteq> k \<and> marker_at d k')"
  by (simp add: marker_at_def)

lemma states_differ [simp]: "st_OK \<noteq> st_INDEXING" "st_ERROR \<noteq> st_INDEXING"
  by (simp_all add: st_OK_def st_INDEXING_def st_ERROR_def)

lemma settle_db:
  assumes "index_settle env be ch local c q d = (t, d')"
  shows "(db_ok d \<longrightarrow> db_ok d') \<and> (db_keyed d \<longrightarrow> db_keyed d') \<and> (marker_at d' k \<longrightarrow> marker_at d k)"
  using assms remoteIndex_returns [of c be "q\<lparr>iq_Recurse := False\<rparr>" "ic_expired ch"]
  by (auto simp: index_settle_def index_received_def index_timed_out_def Let_def db_keyed_Set db_keyed_Delete
      split: if_splits option.splits)

text \<open>A step leaves a marker only where the request goes on to answer for it, or where another marker
  was already.\<close>

lemma task_step_db:
  assumes "task_step env be ch t d = Some (t', d')"
  shows "(db_ok d \<longrightarrow> db_ok d') \<and> (db_keyed d \<longrightarrow> db_keyed d') \<and>
    (marker_at d' k \<longrightarrow> works_on t' = Some k \<or> marker_at d k \<and> works_on t \<noteq> Some k)"
proof (cases t)
  case (Marked local c q)
  with assms have settle: "index_settle env be ch local c q d = (t', d')" by simp
  then obtain resp err where "t' = Clearing (iq_Key q) resp err"
    using index_settle_clears [of env be ch local c q d] by auto
  then show ?thesis using settle_db [OF settle] Marked by auto
qed (use assms in \<open>auto simp: marker_at_def db_keyed_Set db_keyed_Delete split: option.splits if_splits\<close>)

lemma poked_db:
  assumes "db_Get d k = Some r" "r_State r = st_OK"
  shows "(db_ok d \<longrightarrow> db_ok (poke_error k r d)) \<and> (db_keyed d \<longrightarrow> db_keyed (poke_error k r d)) \<and>
    (marker_at (poke_error k r d) k' \<longrightarrow> marker_at d k')"
proof -
  have "db_Get (poke_error k r d) = (db_Get d)(k \<mapsto> r\<lparr>r_State := st_ERROR\<rparr>)"
    using assms by (simp add: poke_error_def db_Get_map fun_eq_iff)
  moreover have "db_ok d \<longrightarrow> db_ok (poke_error k r d)"
    using assms(1) by (simp add: poke_error_def db_ok_def gm_ok_put)
  ultimately show ?thesis using assms(1) by (auto simp: db_keyed_def marker_at_def)
qed

lemma update_repo_db:
  assumes "r_Key r = k"
  shows "(db_ok d \<longrightarrow> db_ok (update_repo c env (k, r) d)) \<and>
    (db_keyed d \<longrightarrow> db_keyed (update_repo c env (k, r) d)) \<and>
    (marker_at (update_repo c env (k, r) d) k' \<longrightarrow> marker_at d k')"
  using assms by (auto simp: update_repo_def db_keyed_Set db_keyed_Delete)

lemma in_list_update:
  "y \<in> set xs \<Longrightarrow> i < length xs \<Longrightarrow> y \<in> set (xs[i := x]) \<or> y = xs ! i"
  by (metis in_set_conv_nth length_list_update nth_list_update_neq)

lemma service_ok_worked:
  assumes ok: "service_ok s" and i: "i < length (sv_tasks s)"
    and step: "task_step env be ch (sv_tasks s ! i) (sv_db s) = Some (t, d)"
  shows "service_ok \<lparr>sv_db = d, sv_tasks = (sv_tasks s)[i := t]\<rparr>"
proof -
  have "Some k \<in> works_on ` set ((sv_tasks s)[i := t])" if k: "marker_at d k" for k
  proof (cases "works_on t = Some k")
    case True
    then show ?thesis using set_update_memI [OF i, of t] by (force intro: image_eqI [of _ _ t])
  next
    case False
    with task_step_db [OF step, of k] k have "marker_at (sv_db s) k" "works_on (sv_tasks s ! i) \<noteq> Some k"
      by auto
    moreover from this(1) ok obtain u where "u \<in> set (sv_tasks s)" "works_on u = Some k"
      unfolding service_ok_def by force
    ultimately show ?thesis using in_list_update [OF _ i, of u t] by (metis image_eqI)
  qed
  then show ?thesis using ok task_step_db [OF step] by (auto simp: service_ok_def)
qed

lemma service_ok_step:
  assumes "service_step hostname order c env s s'" "service_ok s"
  shows "service_ok s'"
  using assms
proof (cases rule: service_step.cases)
  case (begun req)
  with assms(2) show ?thesis by (force simp: service_ok_def)
next
  case (worked i be ch t d)
  with assms(2) service_ok_worked show ?thesis by blast
next
  case (noted r k)
  with assms(2) update_repo_db [OF noted(2)] show ?thesis by (auto simp: service_ok_def)
next
  case (poked k r)
  with assms(2) poked_db [OF poked(2,3)] show ?thesis by (auto simp: service_ok_def)
qed (auto simp: service_ok_def db_keyed_Set db_keyed_Delete)

lemma service_ok_steps: "service_steps hostname order c env s s' \<Longrightarrow> service_ok s \<Longrightarrow> service_ok s'"
  by (induction rule: rtranclp_induct) (auto intro: service_ok_step)

text \<open>C12. However index requests interleave with each other, with searches and with deletions, the
  database stays well formed: its keys are distinct and every repository is stored under its own
  key.  A repository being indexed is one for which a request is in progress, so when every request
  has been answered none is left.\<close>

theorem requests_keep_database_sound:
  assumes "service_steps hostname order c env \<lparr>sv_db = d, sv_tasks = []\<rparr> s"
    and "db_ok d" "db_keyed d" "\<forall>k. \<not> marker_at d k"
  shows "db_ok (sv_db s) \<and> db_keyed (sv_db s) \<and>
    (\<forall>k r. db_Get (sv_db s) k = Some r \<and> r_State r = st_INDEXING \<longrightarrow>
      (\<exists>t \<in> set (sv_tasks s). works_on t = Some k))"
proof -
  have "service_ok \<lparr>sv_db = d, sv_tasks = []\<rparr>" using assms(2-4) by (simp add: service_ok_def)
  with assms(1) have "service_ok s" by (rule service_ok_steps)
  then show ?thesis by (force simp: service_ok_def marker_at_def)
qed

section \<open>Every request is answered\<close>

fun steps_left :: "index_task \<Rightarrow> nat" where
  "steps_left (Checked local c q) = 4"
| "steps_left (Marked local c q) = 3"
| "steps_left (Clearing key resp err) = 2"
| "steps_left (Deleting key resp err) = 1"
| "steps_left (Answered resp err) = 0"
| "steps_left (Panicked msg) = 0"

definition never_panicked :: "'c service \<Rightarrow> bool" where
  "never_panicked s \<longleftrightarrow> (\<forall>msg. Panicked msg \<notin> set (sv_tasks s))"

lemma task_step_left:
  assumes "task_step env be ch t d = Some (t', d')"
  shows "steps_left t' < steps_left t \<and> t' \<noteq> Panicked msg"
proof (cases t)
  case (Marked local c q)
  with assms show ?thesis using index_settle_clears [of env be ch local c q d] by auto
qed (use assms in \<open>auto split: option.splits if_splits\<close>)

lemma never_panicked_step:
  assumes "service_step hostname order c env s s'" "never_panicked s"
  shows "never_panicked s'"
  using assms
proof (cases rule: service_step.cases)
  case (worked i be ch t d)
  with assms(2) show ?thesis
    using task_step_left [OF worked(3)] set_update_subset_insert [of "sv_tasks s" i t]
    by (auto simp: never_panicked_def)
qed (auto simp: never_panicked_def index_begin_def Let_def split: option.splits sum.splits prod.splits)

lemma never_panicked_steps:
  "service_steps hostname order c env s s' \<Longrightarrow> never_panicked s \<Longrightarrow> never_panicked s'"
  by (induction rule: rtranclp_induct) (auto intro: never_panicked_step)

lemma task_step_possible:
  "t \<noteq> Panicked msg \<Longrightarrow> steps_left t > 0 \<Longrightarrow> \<exists>t' d'. task_step env be ch t d = Some (t', d')"
  by (cases t) (auto split: option.splits intro: prod.exhaust)

lemma sum_left_update:
  "i < length ts \<Longrightarrow> steps_left t < steps_left (ts ! i) \<Longrightarrow>
    sum_list (map steps_left (ts[i := t])) < sum_list (map steps_left ts)"
  by (induction ts arbitrary: i) (auto split: nat.splits)

text \<open>A step of a request in progress, with the answers of a given indexer.\<close>

definition work_step :: "'c fs_env \<Rightarrow> index_backend \<Rightarrow> index_choices \<Rightarrow> 'c service \<Rightarrow> 'c service \<Rightarrow> bool" where
  "work_step env be ch s s' \<longleftrightarrow> (\<exists>i t d. i < length (sv_tasks s) \<and>
     task_step env be ch (sv_tasks s ! i) (sv_db s) = Some (t, d) \<and>
     s' = \<lparr>sv_db = d, sv_tasks = (sv_tasks s)[i := t]\<rparr>)"

lemma work_steps_service:
  assumes "(work_step env be ch)\<^sup>*\<^sup>* s s'"
  shows "service_steps hostname order c env s s'"
proof -
  have "work_step env be ch s s' \<Longrightarrow> service_step hostname order c env s s'" for s s'
    by (auto simp: work_step_def intro: service_step.worked)
  then show ?thesis using assms by (metis mono_rtranclp)
qed

lemma all_answered:
  assumes "never_panicked s"
  shows "\<exists>s'. (work_step env be ch)\<^sup>*\<^sup>* s s' \<and> (\<forall>t \<in> set (sv_tasks s'). steps_left t = 0)"
  using assms
proof (induction "sum_list (map steps_left (sv_tasks s))" arbitrary: s rule: less_induct)
  case less
  show ?case
  proof (cases "\<forall>t \<in> set (sv_tasks s). steps_left t = 0")
    case False
    then obtain i where i: "i < length (sv_tasks s)" "steps_left (sv_tasks s ! i) > 0"
      by (auto simp: in_set_conv_nth)
    moreover have "sv_tasks s ! i \<noteq> Panicked msg" for msg
      using less.prems i(1) nth_mem by (fastforce simp: never_panicked_def)
    ultimately obtain t d where step: "task_step env be ch (sv_tasks s ! i) (sv_db s) = Some (t, d)"
      using task_step_possible by metis
    let ?s = "\<lparr>sv_db = d, sv_tasks = (sv_tasks s)[i := t]\<rparr>"
    have one: "work_step env be ch s ?s" using i(1) step by (auto simp: work_step_def)
    have "sum_list (map steps_left (sv_tasks ?s)) < sum_list (map steps_left (sv_tasks s))"
      using sum_left_update [OF i(1)] task_step_left [OF step] by simp
    moreover have "never_panicked ?s"
      using never_panicked_step [OF service_step.worked [OF i(1) step] less.prems] .
    ultimately show ?thesis using less.hyps one by (meson converse_rtranclp_into_rtranclp)
  qed blast
qed

text \<open>C27. From every state that requests can reach, the requests in progress can all be answered by
  their own steps alone, whatever their indexers say and without a panic; the database then holds
  no repository that is still being indexed.\<close>

theorem requests_are_answered:
  assumes "service_steps hostname order c env \<lparr>sv_db = d, sv_tasks = []\<rparr> s"
    and "db_ok d" "db_keyed d" "\<forall>k. \<not> marker_at d k"
  shows "\<exists>s'. (work_step env be ch)\<^sup>*\<^sup>* s s' \<and>
    (\<forall>t \<in> set (sv_tasks s'). \<exists>resp err. t = Answered resp err) \<and> (\<forall>k. \<not> marker_at (sv_db s') k)"
proof -
  let ?s0 = "\<lparr>sv_db = d, sv_tasks = []\<rparr>"
  have "service_ok ?s0" "never_panicked ?s0" using assms(2-4) by (simp_all add: service_ok_def never_panicked_def)
  note s = service_ok_steps [OF assms(1) this(1)] never_panicked_steps [OF assms(1) this(2)]
  obtain s' where s': "(work_step env be ch)\<^sup>*\<^sup>* s s'" "\<forall>t \<in> set (sv_tasks s'). steps_left t = 0"
    using all_answered [OF s(2)] by blast
  note steps = work_steps_service [OF s'(1), of hostname order c]
  have done': "\<exists>resp err. t = Answered resp err" if "t \<in> set (sv_tasks s')" for t
    using s'(2) [rule_format, OF that] never_panicked_steps [OF steps s(2)] that
    by (cases t) (simp_all add: never_panicked_def)
  then have "works_on t = None" if "t \<in> set (sv_tasks s')" for t
    using that by force
  then have "\<not> marker_at (sv_db s') k" for k
    using service_ok_steps [OF steps s(1)] by (force simp: service_ok_def)
  with s'(1) done' show ?thesis by blast
qed

section \<open>Two requests for one key\<close>

lemma begin_steps: "service_steps hostname order c env \<lparr>sv_db = d, sv_tasks = ts\<rparr>
    \<lparr>sv_db = d, sv_tasks = ts @ [index_begin hostname order c req d]\<rparr>"
  using service_step.begun [of hostname order c env "\<lparr>sv_db = d, sv_tasks = ts\<rparr>" req] by auto

text \<open>A request may run for a while with no other step between its own.\<close>

lemma run_task_steps:
  assumes "i < length ts" "run_task env be ch n (ts ! i) d = (t, d')"
  shows "service_steps hostname order c env \<lparr>sv_db = d, sv_tasks = ts\<rparr> \<lparr>sv_db = d', sv_tasks = ts[i := t]\<rparr>"
  using assms
proof (induction n arbitrary: ts d)
  case (Suc n)
  show ?case
  proof (cases "task_step env be ch (ts ! i) d")
    case (Some p)
    obtain t1 d1 where p: "p = (t1, d1)" by (cases p)
    have "service_step hostname order c env \<lparr>sv_db = d, sv_tasks = ts\<rparr> \<lparr>sv_db = d1, sv_tasks = ts[i := t1]\<rparr>"
      using service_step.worked [of i "\<lparr>sv_db = d, sv_tasks = ts\<rparr>" env be ch t1 d1] Some Suc.prems(1) p by simp
    then show ?thesis
      using Suc.IH [of "ts[i := t1]" d1] Suc.prems Some p by (simp add: converse_rtranclp_into_rtranclp)
  qed (use Suc.prems in auto)
qed auto

text \<open>C26. The check of a key and the setting of its marker are separate accesses, so two requests for
  one new key can both pass the check. Then the first can be answered with the repository it
  indexed, which the database holds, and the second, setting its marker after that and
  running out of time, leaves the database without it: a repository is replaced and removed
  although it is said never to be.\<close>

theorem second_request_removes_repository:
  fixes be :: index_backend and ch :: index_choices
  assumes "db_Get d k = None" "iq_Key q = k" "IndexQuery_Normalize order q = Inr q'"
    and "isLocal hostname c (Meta_Host (iq_Meta q)) = (True, c')"
    and "ib_index be (q'\<lparr>iq_Recurse := False\<rparr>) = (\<lparr>ir_Repo = Some repo, ir_Error = None\<rparr>, None)"
    and "r_State repo = st_OK" "r_Key repo = k" "\<not> ic_expired ch" "\<not> ic_timeout ch"
  shows "\<exists>s resp err s'. service_steps hostname order c env \<lparr>sv_db = d, sv_tasks = []\<rparr> s \<and>
    sv_tasks s ! 0 = Answered \<lparr>ir_Repo = Some repo, ir_Error = None\<rparr> NilStructError \<and>
    db_Get (sv_db s) k = Some repo \<and>
    service_steps hostname order c env s s' \<and>
    sv_tasks s' = [sv_tasks s ! 0, Answered resp err] \<and> db_Get (sv_db s') k = None"
proof -
  have key: "iq_Key q' = k"
    using assms(2,3) by (auto simp: IndexQuery_Normalize_def split: if_splits sum.splits)
  let ?t = "Checked True c' q'" and ?late = "ch\<lparr>ic_timeout := True\<rparr>"
  let ?ok = "Answered \<lparr>ir_Repo = Some repo, ir_Error = None\<rparr> NilStructError"
  let ?mark = "\<lambda>d. fst (db_Set env k (Some (marker_repo q')) d)"
  define d2 where "d2 = fst (db_Set env k (Some repo) (?mark d))"
  have "run_task env be ch 4 ?t d = (?ok, clear_marker env k d2)"
    using assms(5-9) by (intro run_marked) (simp add: index_settle_def localIndex_def index_received_def
        Let_def key d2_def IndexResult_SetError_def set_error_def iface_of_struct_def)
  then have first: "run_task env be ch 4 ?t d = (?ok, d2)"
    using assms(6) by (simp add: clear_marker_def d2_def)
  obtain resp err where "index_settle env be ?late True c' q' (?mark d2) = (Clearing k resp err, ?mark d2)"
    by (simp add: index_settle_def index_timed_out_def Let_def key)
  then have second: "run_task env be ?late 4 ?t d2 = (Answered resp err, clear_marker env k (?mark d2))"
    by (intro run_marked) (simp add: key)
  have begun: "index_begin hostname order c q d = ?t"
    using assms(1-4) by (simp add: index_begin_def)
  have "service_steps hostname order c env \<lparr>sv_db = d, sv_tasks = []\<rparr> \<lparr>sv_db = d, sv_tasks = [?t, ?t]\<rparr>"
    using begin_steps [of hostname order c env d "[]" q] begin_steps [of hostname order c env d "[?t]" q] begun
    by (simp add: rtranclp_trans)
  also have "service_steps hostname order c env \<dots> \<lparr>sv_db = d2, sv_tasks = [?ok, ?t]\<rparr>"
    using run_task_steps [of 0 "[?t, ?t]" env be ch 4 d] first by simp
  finally have to_s: "service_steps hostname order c env \<lparr>sv_db = d, sv_tasks = []\<rparr> \<lparr>sv_db = d2, sv_tasks = [?ok, ?t]\<rparr>" .
  have "service_steps hostname order c env \<lparr>sv_db = d2, sv_tasks = [?ok, ?t]\<rparr>
      \<lparr>sv_db = clear_marker env k (?mark d2), sv_tasks = [?ok, Answered resp err]\<rparr>"
    using run_task_steps [of 1 "[?ok, ?t]" env be ?late 4 d2] second by simp
  moreover have "db_Get (clear_marker env k (?mark d2)) k = None"
    by (simp add: clear_marker_def)
  ultimately show ?thesis using to_s
    by (intro exI [of _ "\<lparr>sv_db = d2, sv_tasks = [?ok, ?t]\<rparr>"] exI [of _ resp] exI [of _ err]
        exI [of _ "\<lparr>sv_db = clear_marker env k (?mark d2), sv_tasks = [?ok, Answered resp err]\<rparr>"])
      (simp add: d2_def)
qed

section \<open>A restart while indexing\<close>

text \<open>C32. The marker is written to the database's file. A daemon that stops while it indexes finds the
  marker when it starts again: every later request to index the key is answered with it and no
  error, and indexes nothing; and no search selects it.\<close>

theorem restart_keeps_marker:
  assumes "db_ok d" "db_bfn d \<noteq> ''''" "creates (db_bfn d) = None" "opens (db_bfn d) = None"
    and env: "env = json_env creates opens ft pt"
    and "task_step env be ch (Checked local c' q) d = Some (t, d1)"
    and "\<forall>(k, r) \<in> set (db_R d1). valid_utf8 k \<and> valid_repo r \<and> storable ft pt r"
    and "d2 = newJsonBackedDb env (db_bfn d) (db_files d1)"
  shows "db_Get d2 (iq_Key q) = Some (in_order (marker_repo q)) \<and>
    (\<forall>hostname order c be ch req. iq_Key req = iq_Key q \<longrightarrow>
      doIndex hostname order c env be ch req d2 =
        Returns (\<lparr>ir_Repo = Some (in_order (marker_repo q)), ir_Error = None\<rparr>, NoError, d2)) \<and>
    (\<forall>compile keys meta rx. in_order (marker_repo q) \<notin> set (genGetReqpos compile d2 keys meta rx))"
proof -
  have d1: "d1 = db_run env [OpSet (iq_Key q) (Some (marker_repo q))] d" using assms(6) by (simp add: db_run_def)
  have "db_Get d2 = map_option in_order \<circ> db_Get d1"
    using survives [OF assms(1) _ assms(2-5)] assms(7) unfolding assms(8) d1 by blast
  then have get: "db_Get d2 (iq_Key q) = Some (in_order (marker_repo q))"
    by (simp add: d1 db_run_def)
  have "db_ok d2"
    unfolding assms(8) by (simp add: newJsonBackedDb_def db_read_def db_ok_def split: option.split prod.split)
  then have "r_State r = st_OK" if "r \<in> set (genGetReqpos compile d2 keys meta rx)" for r compile keys meta rx
    using that ReposMatchingMeta_all [of d2 compile meta rx]
    by (auto simp: genGetReqpos_def getReposForKeys_eq selects_def split: if_splits)
  moreover have "r_State (in_order (marker_repo q)) \<noteq> st_OK" by (simp add: in_order_def)
  ultimately have "in_order (marker_repo q) \<notin> set (genGetReqpos compile d2 keys meta rx)" for compile keys meta rx
    by blast
  then show ?thesis
    by (simp add: get doIndex_def NewIndexResult_def split_def Let_def)
qed

section \<open>Instances\<close>

abbreviation tiny_steps :: "(string, repo) gomap service \<Rightarrow> (string, repo) gomap service \<Rightarrow> bool" where
  "tiny_steps \<equiv> service_steps None (\<lambda>xs. xs) zero_config plain_env"

abbreviation tiny_query :: index_query where
  "tiny_query \<equiv> tiny_request\<lparr>iq_Recurse := False\<rparr>"

lemma tiny_query_key: "iq_Key tiny_query = ''k''"
  by (simp add: tiny_request_def NewIndexQuery_def)

lemma no_repos_sound: "db_ok no_repos" "db_keyed no_repos" "\<forall>k. \<not> marker_at no_repos k"
  by (simp_all add: db_keyed_def marker_at_def) (simp add: no_repos_def newDb_def db_ok_def)

text \<open>A request has set its marker.\<close>

definition tiny_marked :: "(string, repo) gomap service" where
  "tiny_marked = \<lparr>sv_db = fst (db_Set plain_env ''k'' (Some (marker_repo tiny_query)) no_repos),
     sv_tasks = [Marked True zero_config tiny_query]\<rparr>"

lemma tiny_marked_reached: "tiny_steps \<lparr>sv_db = no_repos, sv_tasks = []\<rparr> tiny_marked"
proof -
  let ?t = "Checked True zero_config tiny_query"
  have "index_begin None (\<lambda>xs. xs) zero_config tiny_query no_repos = ?t"
    using tiny_local [of None zero_config False] tiny_request_valid [of False] by (simp add: index_begin_def)
  then have "tiny_steps \<lparr>sv_db = no_repos, sv_tasks = []\<rparr> \<lparr>sv_db = no_repos, sv_tasks = [?t]\<rparr>"
    using begin_steps [of None "\<lambda>xs. xs" zero_config plain_env no_repos "[]" tiny_query] by simp
  also have "tiny_steps \<dots> tiny_marked"
    using run_task_steps [of 0 "[?t]" plain_env "tiny_backend st_OK" in_time 1 no_repos] tiny_query_key
    by (simp add: tiny_marked_def)
  finally show ?thesis .
qed

lemma requests_keep_database_sound_witness:
  "marker_at (sv_db tiny_marked) ''k'' \<and> (\<exists>t \<in> set (sv_tasks tiny_marked). works_on t = Some ''k'')"
proof -
  have "db_Get (sv_db tiny_marked) ''k'' = Some (marker_repo tiny_query)" by (simp add: tiny_marked_def)
  then show ?thesis
    using requests_keep_database_sound [OF tiny_marked_reached no_repos_sound] by (simp add: marker_at_def)
qed

lemma requests_are_answered_witness:
  "\<exists>s'. (work_step plain_env (tiny_backend st_OK) in_time)\<^sup>*\<^sup>* tiny_marked s' \<and>
    (\<forall>t \<in> set (sv_tasks s'). \<exists>resp err. t = Answered resp err) \<and> (\<forall>k. \<not> marker_at (sv_db s') k)"
  by (rule requests_are_answered [OF tiny_marked_reached no_repos_sound])

lemma second_request_removes_repository_witness:
  "\<exists>s s'. tiny_steps \<lparr>sv_db = no_repos, sv_tasks = []\<rparr> s \<and> db_Get (sv_db s) ''k'' \<noteq> None \<and>
    tiny_steps s s' \<and> db_Get (sv_db s') ''k'' = None"
proof -
  let ?r = "NewRepo\<lparr>r_Key := ''k'', r_State := st_OK\<rparr>"
  have be: "ib_index (tiny_backend st_OK) (tiny_query\<lparr>iq_Recurse := False\<rparr>)
      = (\<lparr>ir_Repo = Some ?r, ir_Error = None\<rparr>, None)"
    by (simp add: tiny_backend_def tiny_request_def NewIndexQuery_def)
  have "\<not> ic_expired in_time" "\<not> ic_timeout in_time" by (simp_all add: in_time_def)
  with second_request_removes_repository [OF no_repos_Get tiny_query_key tiny_request_valid tiny_local be, where env = plain_env and ch = in_time]
  show ?thesis by fastforce
qed

lemma restart_keeps_marker_witness:
  "let d1 = fst (db_Set json_plain ''k'' (Some (marker_repo tiny_query)) empty_file_db)
   in db_Get (newJsonBackedDb json_plain ''f'' (db_files d1)) ''k'' = Some (in_order (marker_repo tiny_query))"
proof -
  have step: "task_step json_plain (tiny_backend st_OK) in_time (Checked True zero_config tiny_query) empty_file_db
      = Some (Marked True zero_config tiny_query, fst (db_Set json_plain ''k'' (Some (marker_repo tiny_query)) empty_file_db))"
    using tiny_query_key by simp
  have "db_R (fst (db_Set json_plain ''k'' (Some (marker_repo tiny_query)) empty_file_db)) = [(''k'', marker_repo tiny_query)]"
    by (simp add: db_Set_def Let_def db_flush_def json_env_def gm_put_def)
  moreover have "valid_repo (marker_repo tiny_query)" "storable Itoa plain_time (marker_repo tiny_query)"
    by (simp_all add: valid_repo_def storable_def marker_repo_def tiny_request_def NewIndexQuery_def NewRepo_def
        Meta_Update_def gm_copy_def gm_put_def state_defs valid_ascii plain_time_Itoa)
  ultimately have ok: "\<forall>(k, r) \<in> set (db_R (fst (db_Set json_plain ''k'' (Some (marker_repo tiny_query)) empty_file_db))).
      valid_utf8 k \<and> valid_repo r \<and> storable Itoa plain_time r"
    by (simp add: valid_ascii)
  from restart_keeps_marker [OF _ _ _ _ refl step ok refl] show ?thesis
    using tiny_query_key by (simp add: db_ok_def Let_def)
qed

end
