(* ===== verification/Forward.thy ===== *)
theory Forward
  imports Api_Find Merge
begin

text \<open>
  Daemons that pass requests on: what the search service of \<open>afind/api/search.go\<close> and the find service of
  \<open>afind/api/find.go\<close> have in common when they are composed with themselves. The daemon that is asked
  sends the keys of another host's repositories to that host's daemon, which serves the request the
  same way, and the answers are merged.

  A network maps an address to the daemon that listens there. Requests do not expire here, and each
  daemon selects from its database as it is when the request begins.

  The locale \<open>forwarding\<close> states what the two services share, from their requests to the merge of the
  replies, and has the two facts about them: a request ends at the owners of its repositories, if
  they have one, and otherwise it is passed on for ever.
\<close>

section \<open>Daemons\<close>

text \<open>\<open>nd_late\<close> is what the shared metadata map holds by the time a request runs; the \<open>arrive\<close> fields give
  the order in which results arrive.\<close>

record 'c node =
  nd_hostname :: "string option"
  nd_compile :: regexp_compile
  nd_visit :: "(string \<times> string list) list \<Rightarrow> (string \<times> string list) list"
  nd_cfg :: config
  nd_env :: "'c fs_env"
  nd_db :: "'c db"
  nd_late :: "meta \<Rightarrow> meta"
  nd_search :: "search_query \<Rightarrow> search_result \<times> go_error option"
  nd_arrive :: "search_result list \<Rightarrow> search_result list"
  nd_elapsed :: duration
  nd_find :: "find_query \<Rightarrow> find_result \<times> go_error option"
  nd_find_arrive :: "find_result list \<Rightarrow> find_result list"

type_synonym 'c network = "string \<Rightarrow> 'c node option"

definition keeps_local :: "'c node \<Rightarrow> string \<Rightarrow> bool" where
  "keeps_local nd host = fst (isLocal (nd_hostname nd) (nd_cfg nd) host)"

definition kept :: "'c node \<Rightarrow> string \<Rightarrow> bool" where
  "kept nd key \<longleftrightarrow> (\<exists>r. db_Get (nd_db nd) key = Some r \<and> r_State r = st_OK \<and> keeps_local nd (Host r))"

text \<open>Where a request for a key ends up: at the first daemon, passing through fewer than \<open>n\<close>, that
  takes the repository's host for its own.\<close>

primrec owner :: "nat \<Rightarrow> 'c network \<Rightarrow> 'c node \<Rightarrow> string \<Rightarrow> 'c node option" where
  "owner 0 net nd key = None"
| "owner (Suc n) net nd key =
     (case db_Get (nd_db nd) key of
        None \<Rightarrow> None
      | Some r \<Rightarrow>
          if r_State r \<noteq> st_OK then None
          else if keeps_local nd (Host r) then Some nd
          else (case net (host_address (nd_cfg nd) (Host r)) of
              None \<Rightarrow> None
            | Some nd' \<Rightarrow> owner n net nd' key))"

text \<open>A daemon with a sound database, that loses no result, and whose limit on backend requests, if it has
  one (\<open>afindd\<close> sets 300), is no less than the number of hosts its repositories are on.\<close>

definition few_hosts :: "'c node \<Rightarrow> bool" where
  "few_hosts nd \<longleftrightarrow> c_MaxSearchReqBe (nd_cfg nd) \<le> 0 \<or>
     int (card (Host ` {r. \<exists>k. db_Get (nd_db nd) k = Some r})) \<le> c_MaxSearchReqBe (nd_cfg nd)"

definition node_ok :: "'c node \<Rightarrow> bool" where
  "node_ok nd \<longleftrightarrow> db_ok (nd_db nd) \<and> db_keyed (nd_db nd) \<and> few_hosts nd \<and>
     nd_hostname nd \<noteq> Some '''' \<and> (\<forall>m. mset (nd_visit nd m) = mset m) \<and>
     (\<forall>rs. mset (nd_arrive nd rs) = mset rs) \<and> (\<forall>rs. mset (nd_find_arrive nd rs) = mset rs)"

section \<open>Lemmas on daemons\<close>

lemma group_hosts_entry:
  assumes "(host, keys) \<in> set (group_hosts repos)"
  shows "keys = map r_Key (filter (\<lambda>r. Host r = host) repos) \<and> keys \<noteq> []"
proof -
  have "(h, ks) \<in> set (group_hosts repos) \<Longrightarrow> ks \<noteq> []" for h ks
  proof (induction repos arbitrary: h ks rule: rev_induct)
    case (snoc r repos)
    then show ?case
      using group_hosts_sub [of repos] by (auto simp: group_hosts_def set_gm_put)
  qed (simp add: group_hosts_def)
  moreover have "map_of (group_hosts repos) host = Some keys"
    using assms group_hosts_sub [of repos host] map_of_in_set by metis
  ultimately show ?thesis using assms group_hosts_sub [of repos host] by (auto simp: gm_sub_def)
qed

lemma those_all:
  assumes "\<And>req. req \<in> set reqs \<Longrightarrow> \<exists>x. send req = Some (msg x) \<and> good req x"
  shows "\<exists>xs. those (map send reqs) = Some (map msg xs) \<and> list_all2 good reqs xs"
  using assms
proof (induction reqs)
  case (Cons req reqs)
  obtain x where "send req = Some (msg x)" "good req x" using Cons.prems by (meson list.set_intros(1))
  moreover obtain xs where "those (map send reqs) = Some (map msg xs)" "list_all2 good reqs xs"
    using Cons by (meson list.set_intros(2))
  ultimately show ?case by (intro exI [of _ "x # xs"]) simp
qed simp

lemma those_missing: "x \<in> set xs \<Longrightarrow> f x = None \<Longrightarrow> those (map f xs) = None"
  by (induction xs) (auto split: option.splits)

lemma selected_repo:
  assumes "node_ok nd" "r \<in> set (genGetReqpos compile (nd_db nd) keys meta rx)"
  shows "db_Get (nd_db nd) (r_Key r) = Some r \<and> r_State r = st_OK"
proof -
  have "\<exists>k. db_Get (nd_db nd) k = Some r \<and> r_State r = st_OK"
    using assms ReposMatchingMeta_all [of "nd_db nd" compile meta rx] db_ForEach_list(2) [of "nd_db nd" _ r]
    by (auto simp: genGetReqpos_def getReposForKeys_eq selects_def node_ok_def List.map_filter_def
        split: if_splits) blast+
  then show ?thesis using assms(1) by (auto simp: node_ok_def db_keyed_def)
qed

lemma keys_selected:
  assumes "node_ok nd" "keys \<noteq> []" "\<forall>key \<in> set keys. \<exists>r. db_Get (nd_db nd) key = Some r \<and> r_State r = st_OK"
  shows "r_Key ` set (genGetReqpos compile (nd_db nd) keys meta rx) = set keys"
proof -
  have "r_Key r = key" if "db_Get (nd_db nd) key = Some r" for key r
    using assms(1) that by (simp add: node_ok_def db_keyed_def)
  then show ?thesis
    using assms(2,3) by (force simp: genGetReqpos_def getReposForKeys_eq List.map_filter_def image_iff)
qed

lemma key_selected:
  assumes "node_ok nd" "key \<in> set keys" "db_Get (nd_db nd) key = Some r" "r_State r = st_OK"
  shows "r \<in> set (genGetReqpos compile (nd_db nd) keys meta rx) \<and> r_Key r = key"
  using assms by (force simp: genGetReqpos_def getReposForKeys_eq List.map_filter_def node_ok_def db_keyed_def)

lemma distinct_selected:
  assumes "node_ok nd" "distinct keys"
  shows "distinct (map r_Key (filter P (genGetReqpos compile (nd_db nd) keys meta rx)))"
proof -
  have keyed: "r_Key r = k" if "db_Get (nd_db nd) k = Some r" for k r
    using assms(1) that by (simp add: node_ok_def db_keyed_def)
  have "distinct (map r_Key (genGetReqpos compile (nd_db nd) keys meta rx))"
  proof (cases "keys = []")
    case True
    have ok: "db_ok (nd_db nd)" using assms(1) by (simp add: node_ok_def)
    have "map r_Key (map snd (db_R (nd_db nd))) = map fst (db_R (nd_db nd))"
      using keyed db_ForEach_list(2) [OF ok] by auto
    then have "distinct (map r_Key (map snd (db_R (nd_db nd))))"
      using ok unfolding db_ok_def gm_ok_def by (simp only:)
    then show ?thesis
      using True ReposMatchingMeta_all [OF ok, of compile meta rx]
      by (simp add: genGetReqpos_def distinct_map_filter)
  next
    case False
    have "map r_Key (List.map_filter (db_Get (nd_db nd)) ks) = filter (\<lambda>k. db_Get (nd_db nd) k \<noteq> None) ks" for ks
      using keyed by (induction ks) (auto simp: List.map_filter_def)
    then have "distinct (map r_Key (List.map_filter (db_Get (nd_db nd)) keys))" using assms(2) by simp
    then show ?thesis
      using False by (simp add: genGetReqpos_def getReposForKeys_eq distinct_map_filter)
  qed
  then show ?thesis by (rule distinct_map_filter)
qed

text \<open>The groups of the selected repositories are no more than the hosts of the database.\<close>

lemma group_hosts_few:
  assumes "node_ok nd" "0 < c_MaxSearchReqBe (nd_cfg nd)"
  shows "int (length (group_hosts (genGetReqpos compile (nd_db nd) keys meta rx))) \<le> c_MaxSearchReqBe (nd_cfg nd)"
proof -
  let ?sel = "genGetReqpos compile (nd_db nd) keys meta rx"
  let ?hosts = "Host ` {r. \<exists>k. db_Get (nd_db nd) k = Some r}"
  have "fst ` set (group_hosts ?sel) \<subseteq> ?hosts"
  proof
    fix h assume "h \<in> fst ` set (group_hosts ?sel)"
    then obtain ks where "(h, ks) \<in> set (group_hosts ?sel)" by auto
    from group_hosts_entry [OF this] have "filter (\<lambda>r. Host r = h) ?sel \<noteq> []" by auto
    then obtain r where "r \<in> set ?sel" "Host r = h" unfolding filter_empty_conv by blast
    with selected_repo [OF assms(1)] show "h \<in> ?hosts" by blast
  qed
  moreover have "{r. \<exists>k. db_Get (nd_db nd) k = Some r} \<subseteq> snd ` set (db_R (nd_db nd))"
    by (force simp: db_Get_map dest: map_of_SomeD)
  then have "finite ?hosts" by (meson finite_imageI finite_set finite_subset)
  ultimately have "card (fst ` set (group_hosts ?sel)) \<le> card ?hosts" by (rule card_mono [rotated])
  moreover have "card (fst ` set (group_hosts ?sel)) = length (group_hosts ?sel)"
    using group_hosts_sub [of ?sel] by (metis distinct_card gm_ok_def length_map set_map)
  moreover have "int (card ?hosts) \<le> c_MaxSearchReqBe (nd_cfg nd)"
    using assms by (simp add: node_ok_def few_hosts_def)
  ultimately show ?thesis by simp
qed

lemma owner_known: "owner n net nd key = Some nd' \<Longrightarrow> \<exists>r. db_Get (nd_db nd) key = Some r \<and> r_State r = st_OK"
  by (cases n) (auto split: option.splits if_splits)

lemma owner_step:
  assumes "owner (Suc n) net nd key = Some nd'" "db_Get (nd_db nd) key = Some r" "r_State r = st_OK"
  shows "if keeps_local nd (Host r) then nd' = nd
    else \<exists>nd''. net (host_address (nd_cfg nd) (Host r)) = Some nd'' \<and> owner n net nd'' key = Some nd'"
  using assms by (auto split: option.splits if_splits)

lemma owner_kept: "owner n net nd key = Some nd' \<Longrightarrow> kept nd' key"
  by (induction n arbitrary: nd) (auto simp: kept_def split: option.splits if_splits)

lemma owner_node: "owner n net nd key = Some nd' \<Longrightarrow> nd' = nd \<or> nd' \<in> ran net"
  by (induction n arbitrary: nd) (auto dest: ranI split: option.splits if_splits)

text \<open>The part of the expected entries that belongs to some keys.\<close>

definition part :: "('k \<Rightarrow> string) \<Rightarrow> string set \<Rightarrow> (string \<Rightarrow> 'k \<Rightarrow> 'v option) \<Rightarrow> 'k \<Rightarrow> 'v option" where
  "part repo_of K e = (\<lambda>p. if repo_of p \<in> K then e (repo_of p) p else None)"

lemma part_mono: "K \<subseteq> K' \<Longrightarrow> part repo_of K e \<subseteq>\<^sub>m part repo_of K' e"
  by (auto simp: part_def map_le_def)

lemma part_cong: "(\<And>k. k \<in> K \<Longrightarrow> e k = e' k) \<Longrightarrow> part repo_of K e = part repo_of K e'"
  by (auto simp: part_def fun_eq_iff)

section \<open>Passing requests on\<close>

text \<open>
  A service that passes requests on. Its results have entries that belong to repositories
  (\<open>repo_of\<close>). A query can be asked again for other keys (\<open>ask\<close>); \<open>requests\<close> are made by \<open>dispatch\<close> from the
  selected repositories, a local one for a \<open>piece\<close> of its host's keys; \<open>send\<close> gives what a request
  sends, by \<open>local\<close> on this daemon or from the daemon at the address, as a message \<open>msg\<close> around the
  result; \<open>reply\<close> merges the messages; and \<open>serve n\<close> lets a request be passed on through fewer than
  \<open>n\<close> daemons, being \<open>None\<close> when that is not enough. A query may have a \<open>limit\<close>, which is 0 for none: the
  reply may leave messages out once it has that many entries.
\<close>

locale forwarding = result_merge merge view wf
  for merge :: "'r \<Rightarrow> 'r \<Rightarrow> 'r" and view :: "'r \<Rightarrow> 'k \<Rightarrow> 'v option" and wf :: "'r \<Rightarrow> bool" +
  fixes repo_of :: "'k \<Rightarrow> string"
    and keys :: "'q \<Rightarrow> string list" and meta_of :: "'q \<Rightarrow> meta" and by_regexp :: "'q \<Rightarrow> bool"
    and ask :: "'q \<Rightarrow> meta \<Rightarrow> string list \<Rightarrow> 'q" and valid :: "'q \<Rightarrow> bool" and limit :: "'q \<Rightarrow> nat"
    and piece :: "string list \<Rightarrow> bool" and keys_ok :: "string list \<Rightarrow> bool"
    and full :: "'c node \<Rightarrow> 'q \<Rightarrow> nat \<Rightarrow> bool" and mk_local :: "'q \<Rightarrow> meta \<Rightarrow> string list \<Rightarrow> 'q list"
    and requests :: "'c node \<Rightarrow> 'q \<Rightarrow> 'q request list outcome"
    and local :: "'c node \<Rightarrow> 'q \<Rightarrow> 'r" and msg :: "'r \<Rightarrow> 'm"
    and send :: "('c node \<Rightarrow> 'q \<Rightarrow> 'r option) \<Rightarrow> 'c network \<Rightarrow> 'c node \<Rightarrow> 'q request \<Rightarrow> 'm option"
    and reply :: "'c node \<Rightarrow> 'm list \<Rightarrow> 'q \<Rightarrow> 'r option"
    and serve :: "nat \<Rightarrow> 'c network \<Rightarrow> 'c node \<Rightarrow> 'q \<Rightarrow> 'r option"
  assumes finite_view: "wf r \<Longrightarrow> finite (dom (view r))"
    and ask_again: "ask (ask q m ks) m' ks' = ask q m' ks'"
    and keys_ask: "keys (ask q m ks) = ks"
    and valid_ask: "valid (ask q m ks) = valid q"
    and limit_ask: "limit (ask q m ks) = limit q"
    and same_ask: "ask q (meta_of q) (keys q) = q"
    and not_full: "node_ok nd \<Longrightarrow> valid q \<Longrightarrow> i < length (group_hosts
      (genGetReqpos (nd_compile nd) (nd_db nd) (keys q) (meta_of q) (by_regexp q))) \<Longrightarrow> \<not> full nd q i"
    and keys_part: "node_ok nd \<Longrightarrow> keys_ok (keys q) \<Longrightarrow> keys_ok (map r_Key (filter P
      (genGetReqpos (nd_compile nd) (nd_db nd) (keys q) (meta_of q) (by_regexp q))))"
    and mk_local: "ks \<noteq> [] \<Longrightarrow> keys_ok ks \<Longrightarrow> p \<in> set (mk_local q m ks) \<Longrightarrow>
      \<exists>ks'. p = ask q m ks' \<and> ks' \<noteq> [] \<and> piece ks' \<and> set ks' \<subseteq> set ks"
    and mk_local_keys: "concat (map keys (mk_local q m ks)) = ks"
    and requests: "requests nd q =
      (let repos = genGetReqpos (nd_compile nd) (nd_db nd) (keys q) (meta_of q) (by_regexp q)
       in if length repos < 1 then Returns []
          else dispatch (nd_hostname nd) (full nd q) (mk_local q) (ask q) (nd_cfg nd) (meta_of q) 0
            (nd_visit nd (group_hosts repos)))"
    and send_local: "wf (local nd q) \<Longrightarrow>
      \<exists>x. send S net nd (LocalReq q) = Some (msg x) \<and> wf x \<and> view x = view (local nd q)"
    and send_remote: "net addr = Some nd' \<Longrightarrow>
      send S net nd (RemoteReq addr (ask q m ks)) = map_option msg (S nd' (ask q (nd_late nd m) ks))"
    and reply: "node_ok nd \<Longrightarrow> valid q \<Longrightarrow> requests nd q = Returns reqs \<Longrightarrow> (\<forall>x \<in> set xs. wf x) \<Longrightarrow>
      limit q = 0 \<or> apart xs \<Longrightarrow>
      \<exists>r xs' ys r0. reply nd (map msg xs) q = Some r \<and> mset (xs' @ ys) = mset xs \<and> wf r0 \<and> view r0 = (\<lambda>_. None) \<and>
        (wf (fold merge xs' r0) \<longrightarrow> wf r \<and> view r = view (fold merge xs' r0)) \<and>
        (ys = [] \<or> 0 < limit q \<and> limit q \<le> card (dom (view r)))"
    and serve_0: "serve 0 net nd q = None"
    and serve_Suc: "valid q \<Longrightarrow> serve (Suc n) net nd q =
      (case requests nd q of
         Panics e \<Rightarrow> None
       | Returns reqs \<Rightarrow>
           (case those (map (send (serve n net) net nd) reqs) of
              None \<Rightarrow> None
            | Some ms \<Rightarrow> reply nd ms q))"
begin

abbreviation sel :: "'c node \<Rightarrow> 'q \<Rightarrow> repo list" where
  "sel nd q \<equiv> genGetReqpos (nd_compile nd) (nd_db nd) (keys q) (meta_of q) (by_regexp q)"

text \<open>What the local service has for one repository, and a daemon whose local service answers any
  piece of a query with that for its keys, whatever the metadata of the query.\<close>

definition found :: "'q \<Rightarrow> 'c node \<Rightarrow> string \<Rightarrow> 'k \<Rightarrow> 'v option" where
  "found q nd key = view (local nd (ask q (meta_of q) [key]))"

definition serves :: "'q \<Rightarrow> 'c node \<Rightarrow> bool" where
  "serves q nd \<longleftrightarrow> (\<forall>m ks. ks \<noteq> [] \<and> piece ks \<and> (\<forall>k \<in> set ks. kept nd k) \<longrightarrow>
     wf (local nd (ask q m ks)) \<and> view (local nd (ask q m ks)) = part repo_of (set ks) (found q nd))"

text \<open>A result with the expected entries for some repositories, or, for a query with a limit, some of
  these and no fewer than the limit.\<close>

definition holds :: "'q \<Rightarrow> (string \<Rightarrow> 'k \<Rightarrow> 'v option) \<Rightarrow> string set \<Rightarrow> 'r \<Rightarrow> bool" where
  "holds q e K r \<longleftrightarrow> wf r \<and> view r \<subseteq>\<^sub>m part repo_of K e \<and>
     (view r = part repo_of K e \<or> 0 < limit q \<and> limit q \<le> card (dom (view r)))"

lemma holds_apart:
  assumes "list_all2 (holds q e) (map set kss) xs" "distinct (concat kss)"
  shows "apart xs"
proof -
  have within: "list_all2 (holds q e) (map set kss) xs \<Longrightarrow>
      (\<Union>x \<in> set xs. dom (view x)) \<subseteq> dom (part repo_of (set (concat kss)) e)" for kss xs
  proof (induction kss arbitrary: xs)
    case (Cons ks kss)
    then obtain x xs' where xs: "xs = x # xs'" "holds q e (set ks) x" "list_all2 (holds q e) (map set kss) xs'"
      by (auto simp: list_all2_Cons1)
    have "dom (view x) \<subseteq> dom (part repo_of (set ks) e)"
      using xs(2) by (intro map_le_implies_dom_le) (simp add: holds_def)
    moreover have "dom (part repo_of (set ks) e) \<subseteq> dom (part repo_of (set (concat (ks # kss))) e)"
      "dom (part repo_of (set (concat kss)) e) \<subseteq> dom (part repo_of (set (concat (ks # kss))) e)"
      by (rule map_le_implies_dom_le [OF part_mono], force)+
    ultimately show ?case
      using Cons.IH [OF xs(3)] unfolding xs(1) list.set(2) UN_insert by (meson Un_least subset_trans)
  qed simp
  have fin: "finite (dom (view x))" if "x \<in> set xs" for x
    using assms(1) that by (metis finite_view holds_def in_set_conv_nth list_all2_conv_all_nth)
  have "(\<forall>x \<in> set xs. finite (dom (view x))) \<Longrightarrow> list_all2 (holds q e) (map set kss) xs \<Longrightarrow> distinct (concat kss) \<Longrightarrow>
      (\<Sum>x\<leftarrow>xs. card (dom (view x))) = card (\<Union>x \<in> set xs. dom (view x))" for kss xs
  proof (induction kss arbitrary: xs)
    case (Cons ks kss)
    then obtain x xs' where xs: "xs = x # xs'" "holds q e (set ks) x" "list_all2 (holds q e) (map set kss) xs'"
      by (auto simp: list_all2_Cons1)
    have "set ks \<inter> set (concat kss) = {}" using Cons.prems(3) by auto
    then have "dom (part repo_of (set ks) e) \<inter> dom (part repo_of (set (concat kss)) e) = {}"
      by (auto simp: part_def split: if_splits)
    moreover have "dom (view x) \<subseteq> dom (part repo_of (set ks) e)"
      using xs(2) by (intro map_le_implies_dom_le) (simp add: holds_def)
    ultimately have "dom (view x) \<inter> (\<Union>x \<in> set xs'. dom (view x)) = {}" using within [OF xs(3)] by blast
    then show ?case
      using Cons.IH [OF _ xs(3)] Cons.prems(1,3) by (simp add: xs(1) card_Un_disjoint)
  qed simp
  then have "(\<Sum>x\<leftarrow>xs. card (dom (view x))) = card (\<Union>x \<in> set xs. dom (view x))"
    using fin assms(1,2) by blast
  with fin show ?thesis by (simp add: apart_def)
qed

lemma merged_holds:
  assumes parts: "list_all2 (holds q e) Ks xs"
    and merged: "mset (xs' @ ys) = mset xs" "wf r" "view r = (\<lambda>_. None)"
    and all: "ys = [] \<or> 0 < limit q \<and> limit q \<le> card (dom (view (fold merge xs' r)))"
  shows "holds q e (\<Union> (set Ks)) (fold merge xs' r)"
proof -
  let ?r = "fold merge xs' r" and ?e = "part repo_of (\<Union> (set Ks)) e"
  have set: "set xs' \<subseteq> set xs" "ys = [] \<Longrightarrow> set xs' = set xs" using mset_eq_setD [OF merged(1)] by auto
  have each: "\<exists>K \<in> set Ks. holds q e K x" if "x \<in> set xs'" for x
    using that set(1) parts by (metis in_set_conv_nth list_all2_conv_all_nth subsetD)
  have ok: "wf x" if "x \<in> set xs'" for x using each [OF that] by (auto simp: holds_def)
  have entry: "?e p = Some v \<and> e (repo_of p) p = Some v" if x: "x \<in> set xs'" and v: "view x p = Some v" for x p v
  proof -
    obtain K where K: "K \<in> set Ks" "view x \<subseteq>\<^sub>m part repo_of K e" using each [OF x] by (auto simp: holds_def)
    have "part repo_of K e p = Some v" using K(2) v by (metis domI map_le_def)
    with K(1) show ?thesis by (auto simp: part_def split: if_splits)
  qed
  have agree: "agree xs'" unfolding agree_def by (metis entry option.inject)
  have some: "view ?r p = Some v" if "x \<in> set xs'" "view x p = Some v" for x p v
    using view_fold_some [OF merged(2) ok agree that] .
  have none: "view ?r p = None" if "\<And>x. x \<in> set xs' \<Longrightarrow> view x p = None" for p
    using view_fold_none [OF merged(2) ok that] merged(3) by simp
  have wf: "wf ?r" using merged(2) ok by (rule wf_fold)
  have sub: "view ?r \<subseteq>\<^sub>m ?e"
    unfolding map_le_def
  proof
    fix p assume "p \<in> dom (view ?r)"
    then obtain x v where "x \<in> set xs'" "view x p = Some v" using none [of p] by fastforce
    with some entry show "view ?r p = ?e p" by metis
  qed
  have "view ?r = ?e" if exact: "ys = []" "\<And>K x. (K, x) \<in> set (zip Ks xs) \<Longrightarrow> view x = part repo_of K e"
  proof (rule map_le_antisym [OF sub])
    show "?e \<subseteq>\<^sub>m view ?r"
      unfolding map_le_def
    proof
      fix p assume "p \<in> dom ?e"
      then obtain K v where K: "K \<in> set Ks" "repo_of p \<in> K" "e (repo_of p) p = Some v" "?e p = Some v"
        by (auto simp: part_def split: if_splits)
      then obtain x where "(K, x) \<in> set (zip Ks xs)"
        using parts by (metis in_set_conv_nth in_set_zip list_all2_lengthD fst_conv snd_conv)
      then have "x \<in> set xs'" "view x p = Some v"
        using exact K by (auto simp: set(2) [OF exact(1)] part_def dest: set_zip_rightD)
      with some K(4) show "?e p = view ?r p" by metis
    qed
  qed
  moreover have "0 < limit q \<and> limit q \<le> card (dom (view ?r))"
    if short: "ys = []" "(K, x) \<in> set (zip Ks xs)" "view x \<noteq> part repo_of K e" for K x
  proof -
    have "holds q e K x" using parts short(2) by (auto simp: list_all2_iff)
    with short(3) have limit: "0 < limit q" "limit q \<le> card (dom (view x))" by (simp_all add: holds_def)
    have "x \<in> set xs'" using short(1,2) set(2) set_zip_rightD by metis
    then have "dom (view x) \<subseteq> dom (view ?r)" using some by blast
    with finite_view [OF wf] have "card (dom (view x)) \<le> card (dom (view ?r))" by (rule card_mono)
    with limit show ?thesis by simp
  qed
  ultimately have "view ?r = ?e \<or> 0 < limit q \<and> limit q \<le> card (dom (view ?r))" using all by blast
  with wf sub show ?thesis by (simp add: holds_def)
qed

text \<open>Each request is for some of the repositories of one host.\<close>

definition request_of :: "'c node \<Rightarrow> 'q \<Rightarrow> 'q request \<Rightarrow> bool" where
  "request_of nd q req \<longleftrightarrow> (\<exists>host m ks. ks \<noteq> [] \<and> set ks \<subseteq> r_Key ` {r \<in> set (sel nd q). Host r = host} \<and>
     (if keeps_local nd host then piece ks \<and> req = LocalReq (ask q m ks)
      else keys_ok ks \<and> req = RemoteReq (host_address (nd_cfg nd) host) (ask q m ks)))"

lemma requests_shape:
  assumes "node_ok nd" "valid q" "keys_ok (keys q)"
  shows "\<exists>reqs. requests nd q = Returns reqs \<and> (\<forall>req \<in> set reqs. request_of nd q req) \<and>
    mset (concat (map (keys \<circ> request_query) reqs)) = mset (map r_Key (sel nd q)) \<and>
    \<Union> (set (map (\<lambda>req. set (keys (request_query req))) reqs)) = r_Key ` set (sel nd q)"
proof (cases "sel nd q = []")
  case True
  then show ?thesis by (simp add: requests)
next
  case False
  let ?hosts = "nd_visit nd (group_hosts (sel nd q))"
  let ?one = "host_requests (nd_hostname nd) (nd_cfg nd) (mk_local q) (ask q)"
  have host: "nd_hostname nd \<noteq> Some ''''" using assms(1) by (simp add: node_ok_def)
  have hosts: "set ?hosts = set (group_hosts (sel nd q))"
    "mset (concat (map snd ?hosts)) = mset (concat (map snd (group_hosts (sel nd q))))"
    using assms(1) mset_eq_setD mset_concat_map by (auto simp: node_ok_def) blast+
  have "length ?hosts = length (group_hosts (sel nd q))"
    using assms(1) by (metis mset_eq_length node_ok_def)
  then have full: "\<forall>i < 0 + length ?hosts. \<not> full nd q i" using not_full [OF assms(1,2)] by simp
  from dispatch_keys [OF full, of keys "mk_local q" "ask q" "nd_hostname nd" "nd_cfg nd" "meta_of q"]
  obtain reqs where reqs: "requests nd q = Returns reqs"
    "concat (map (keys \<circ> request_query) reqs) = concat (map snd ?hosts)"
    using mk_local_keys False by (auto simp: requests keys_ask)
  have asked: "mset (concat (map (keys \<circ> request_query) reqs)) = mset (map r_Key (sel nd q))"
    unfolding reqs(2) hosts(2) by (rule group_hosts_keys)
  from mset_eq_setD [OF asked]
  have union: "\<Union> (set (map (\<lambda>req. set (keys (request_query req))) reqs)) = r_Key ` set (sel nd q)" by simp
  from dispatch_requests [OF full host, of "mk_local q" "ask q" "nd_cfg nd" "meta_of q"]
  obtain metas where "length metas = length ?hosts" "reqs = concat (map2 ?one ?hosts metas)"
    using reqs(1) False by (auto simp: requests)
  then have reqs_eq: "reqs = concat (map2 ?one ?hosts metas)" by blast
  have one: "\<exists>host ks m. (host, ks) \<in> set (group_hosts (sel nd q)) \<and> req \<in> set (?one (host, ks) m)"
    if req: "req \<in> set reqs" for req
  proof -
    obtain h m where hm: "(h, m) \<in> set (zip ?hosts metas)" "req \<in> set (?one h m)"
      using req unfolding reqs_eq by auto
    moreover from hm(1) have "h \<in> set (group_hosts (sel nd q))" using hosts(1) by (auto dest: set_zip_leftD)
    ultimately show ?thesis by (cases h) blast
  qed
  have "request_of nd q req" if req: "req \<in> set reqs" for req
  proof -
    obtain host ks m where h: "(host, ks) \<in> set (group_hosts (sel nd q))" "req \<in> set (?one (host, ks) m)"
      using one [OF req] by blast
    note ks = group_hosts_entry [OF h(1)]
    then have ok: "ks \<noteq> []" "keys_ok ks" "set ks \<subseteq> r_Key ` {r \<in> set (sel nd q). Host r = host}"
      using keys_part [OF assms(1,3), of "\<lambda>r. Host r = host"] by auto
    show ?thesis
    proof (cases "keeps_local nd host")
      case True
      then obtain p where "p \<in> set (mk_local q m ks)" "req = LocalReq p"
        using h(2) by (auto simp: host_requests_def keeps_local_def)
      with mk_local [OF ok(1,2)] obtain ks' where ks': "req = LocalReq (ask q m ks')" "ks' \<noteq> []" "piece ks'"
        "set ks' \<subseteq> set ks" by blast
      have "set ks' \<subseteq> r_Key ` {r \<in> set (sel nd q). Host r = host}" using ks'(4) ok(3) by (rule subset_trans)
      with ks' True show ?thesis
        unfolding request_of_def by (intro exI [of _ host] exI [of _ m] exI [of _ ks']) simp
    next
      case False
      then have "req = RemoteReq (host_address (nd_cfg nd) host) (ask q m ks)"
        using h(2) by (auto simp: host_requests_def keeps_local_def)
      with ok False show ?thesis
        unfolding request_of_def by (intro exI [of _ host] exI [of _ m] exI [of _ ks]) simp
    qed
  qed
  with reqs(1) asked union show ?thesis by blast
qed


lemma selected_ask:
  assumes "node_ok nd" "ks \<noteq> []" "\<forall>key \<in> set ks. \<exists>r. db_Get (nd_db nd) key = Some r \<and> r_State r = st_OK"
  shows "r_Key ` set (sel nd (ask q m ks)) = set ks"
  unfolding keys_ask using assms by (rule keys_selected)

text \<open>Every repository a query selects at a daemon has an owner that fewer than \<open>n\<close> others lead to.\<close>

definition owned :: "nat \<Rightarrow> 'c network \<Rightarrow> (string \<Rightarrow> 'c node) \<Rightarrow> 'c node \<Rightarrow> 'q \<Rightarrow> bool" where
  "owned n net own nd q \<longleftrightarrow> (\<forall>r \<in> set (sel nd q). owner n net nd (r_Key r) = Some (own (r_Key r)))"

lemma send_holds:
  assumes nd: "node_ok nd" "serves q nd" and own: "owned (Suc n) net own nd (ask q m ks)"
    and req: "request_of nd (ask q m ks) req" "limit q = 0 \<or> distinct (keys (request_query req))"
    and rec: "\<And>addr nd' m' ks'. net addr = Some nd' \<Longrightarrow> keys_ok ks' \<Longrightarrow> owned n net own nd' (ask q m' ks') \<Longrightarrow>
      limit q = 0 \<or> distinct ks' \<Longrightarrow> sel nd' (ask q m' ks') \<noteq> [] \<Longrightarrow>
      \<exists>x. serve n net nd' (ask q m' ks') = Some x \<and>
        holds q (\<lambda>k. found q (own k) k) (r_Key ` set (sel nd' (ask q m' ks'))) x"
    and nodes: "\<And>addr nd'. net addr = Some nd' \<Longrightarrow> node_ok nd'"
  shows "\<exists>x. send (serve n net) net nd req = Some (msg x) \<and>
    holds q (\<lambda>k. found q (own k) k) (set (keys (request_query req))) x"
proof -
  obtain host m' ks' where r: "ks' \<noteq> []" "set ks' \<subseteq> r_Key ` {r \<in> set (sel nd (ask q m ks)). Host r = host}"
    "if keeps_local nd host then piece ks' \<and> req = LocalReq (ask q m' ks')
     else keys_ok ks' \<and> req = RemoteReq (host_address (nd_cfg nd) host) (ask q m' ks')"
    using req(1) unfolding request_of_def ask_again by blast
  have repo: "\<exists>r. db_Get (nd_db nd) key = Some r \<and> r_State r = st_OK \<and> Host r = host" if "key \<in> set ks'" for key
    using that r(2) selected_repo [OF nd(1)] by fastforce
  have step: "if keeps_local nd host then own key = nd
      else \<exists>nd'. net (host_address (nd_cfg nd) host) = Some nd' \<and> owner n net nd' key = Some (own key)"
    if key: "key \<in> set ks'" for key
  proof -
    obtain r' where "r' \<in> set (sel nd (ask q m ks))" "Host r' = host" "r_Key r' = key" using key r(2) by auto
    then show ?thesis
      using own selected_repo [OF nd(1)] owner_step [of n net nd key "own key"]
      by (auto simp: owned_def simp del: owner.simps)
  qed
  show ?thesis
  proof (cases "keeps_local nd host")
    case True
    then have req': "piece ks'" "req = LocalReq (ask q m' ks')" using r(3) by simp_all
    have "\<forall>k \<in> set ks'. kept nd k" using repo True by (auto simp: kept_def)
    then have here: "wf (local nd (ask q m' ks'))" "view (local nd (ask q m' ks')) = part repo_of (set ks') (found q nd)"
      using nd(2) r(1) req'(1) by (auto simp: serves_def)
    have "part repo_of (set ks') (found q nd) = part repo_of (set ks') (\<lambda>k. found q (own k) k)"
      using step True by (intro part_cong) simp
    with here(2) send_local [OF here(1)] obtain x where
      "send (serve n net) net nd (LocalReq (ask q m' ks')) = Some (msg x)" "wf x"
      "view x = part repo_of (set ks') (\<lambda>k. found q (own k) k)"
      by fastforce
    then show ?thesis unfolding req'(2) by (auto simp: holds_def keys_ask)
  next
    case False
    then have req': "keys_ok ks'" "req = RemoteReq (host_address (nd_cfg nd) host) (ask q m' ks')" using r(3) by simp_all
    from step [OF hd_in_set [OF r(1)]] False obtain nd' where
      nd': "net (host_address (nd_cfg nd) host) = Some nd'" by auto
    have owners: "owner n net nd' key = Some (own key)" if "key \<in> set ks'" for key
      using step [OF that] False nd' by simp
    let ?q = "ask q (nd_late nd m') ks'"
    have sel: "r_Key ` set (sel nd' ?q) = set ks'"
      using nodes [OF nd'] r(1) owners owner_known by (intro selected_ask) blast+
    have owned: "owned n net own nd' ?q"
      unfolding owned_def
    proof
      fix r assume "r \<in> set (sel nd' ?q)"
      then have "r_Key r \<in> set ks'" unfolding sel [symmetric] by (rule imageI)
      then show "owner n net nd' (r_Key r) = Some (own (r_Key r))" by (rule owners)
    qed
    have "sel nd' ?q \<noteq> []" using sel r(1) by (metis image_empty list.set(1) set_empty)
    moreover have "limit q = 0 \<or> distinct ks'" using req(2) unfolding req'(2) by (simp add: keys_ask)
    ultimately obtain x where "serve n net nd' ?q = Some x" "holds q (\<lambda>k. found q (own k) k) (set ks') x"
      using rec [OF nd' req'(1) owned] unfolding sel by blast
    then show ?thesis unfolding req'(2) send_remote [where net = net, OF nd'] by (auto simp: keys_ask)
  qed
qed

text \<open>What the requests of a daemon send, and the reply merged from it.\<close>

lemma reply_holds:
  assumes "node_ok nd" "valid q" "requests nd (ask q m ks) = Returns reqs"
    and asked: "mset (concat (map (keys \<circ> request_query) reqs)) = mset (map r_Key (sel nd (ask q m ks)))"
    and xs: "list_all2 (\<lambda>req. holds q e (set (keys (request_query req)))) reqs xs"
    and limit: "limit q = 0 \<or> distinct ks"
  shows "\<exists>r. reply nd (map msg xs) (ask q m ks) = Some r \<and> holds q e (r_Key ` set (sel nd (ask q m ks))) r"
proof -
  let ?q = "ask q m ks" and ?kss = "map (keys \<circ> request_query) reqs"
  have parts: "list_all2 (holds q e) (map set ?kss) xs"
    using xs by (simp add: list_all2_map1 o_def)
  have keys: "set (concat ?kss) = r_Key ` set (sel nd ?q)" using mset_eq_setD [OF asked] by simp
  then have union: "\<Union> (set (map set ?kss)) = r_Key ` set (sel nd ?q)" by simp
  have wf: "\<forall>x \<in> set xs. wf x"
    using parts by (metis holds_def in_set_conv_nth list_all2_conv_all_nth)
  have apart: "apart xs" if "limit q \<noteq> 0"
  proof -
    have "distinct (map r_Key (sel nd ?q))"
      using distinct_selected [OF assms(1), of ks "\<lambda>_. True"] limit that by (simp add: keys_ask)
    then have "distinct (concat ?kss)" using mset_eq_imp_distinct_iff [OF asked] by blast
    then show ?thesis by (rule holds_apart [OF parts])
  qed
  have "valid ?q" "limit ?q = limit q" using assms(2) by (simp_all add: valid_ask limit_ask)
  with reply [OF assms(1) _ assms(3) wf] apart obtain r xs' ys r0 where
    r: "reply nd (map msg xs) ?q = Some r" "mset (xs' @ ys) = mset xs" "wf r0" "view r0 = (\<lambda>_. None)"
      "wf (fold merge xs' r0) \<Longrightarrow> wf r \<and> view r = view (fold merge xs' r0)"
      "ys = [] \<or> 0 < limit q \<and> limit q \<le> card (dom (view r))"
    by (metis (no_types, lifting))
  have "wf (fold merge xs' r0)"
    using r(3) wf mset_eq_setD [OF r(2)] by (intro wf_fold) auto
  note same = r(5) [OF this]
  have "holds q e (r_Key ` set (sel nd ?q)) (fold merge xs' r0)"
    using merged_holds [OF parts r(2-4)] r(6) same unfolding union by simp
  with same r(1) show ?thesis by (auto simp: holds_def)
qed

text \<open>A request ends at the owners of the repositories it selects: the answer holds, for each of them,
  what its owner has, and nothing else, up to the limit.\<close>

lemma serve_holds:
  assumes q: "valid q" and net: "\<And>addr nd. net addr = Some nd \<Longrightarrow> node_ok nd \<and> serves q nd"
  shows "node_ok nd \<Longrightarrow> serves q nd \<Longrightarrow> keys_ok ks \<Longrightarrow> limit q = 0 \<or> distinct ks \<Longrightarrow>
    owned n net own nd (ask q m ks) \<Longrightarrow>
    sel nd (ask q m ks) \<noteq> [] \<or> 0 < n \<Longrightarrow>
    \<exists>r. serve n net nd (ask q m ks) = Some r \<and>
      holds q (\<lambda>k. found q (own k) k) (r_Key ` set (sel nd (ask q m ks))) r"
proof (induction n arbitrary: nd m ks)
  case 0
  then obtain r where "r \<in> set (sel nd (ask q m ks))" by (cases "sel nd (ask q m ks)") auto
  with 0 have "owner 0 net nd (r_Key r) = Some (own (r_Key r))" unfolding owned_def by blast
  then show ?case by simp
next
  case (Suc n)
  let ?q = "ask q m ks" and ?e = "\<lambda>k. found q (own k) k"
  have valid: "valid ?q" using q by (simp add: valid_ask)
  obtain reqs where reqs: "requests nd ?q = Returns reqs" "\<forall>req \<in> set reqs. request_of nd ?q req"
    "mset (concat (map (keys \<circ> request_query) reqs)) = mset (map r_Key (sel nd ?q))"
    using requests_shape [OF Suc.prems(1) valid] Suc.prems(3) by (auto simp: keys_ask)
  have distinct: "limit q = 0 \<or> distinct (keys (request_query req))" if req: "req \<in> set reqs" for req
  proof (cases "limit q = 0")
    case False
    then have "distinct (map r_Key (sel nd ?q))"
      using distinct_selected [OF Suc.prems(1), of ks "\<lambda>_. True"] Suc.prems(4) by (simp add: keys_ask)
    then have "distinct (concat (map (keys \<circ> request_query) reqs))" using mset_eq_imp_distinct_iff [OF reqs(3)] by blast
    then show ?thesis using req by (induction reqs) auto
  qed simp
  have rec: "\<exists>x. serve n net nd' (ask q m' ks') = Some x \<and> holds q ?e (r_Key ` set (sel nd' (ask q m' ks'))) x"
    if "net addr = Some nd'" "keys_ok ks'" "owned n net own nd' (ask q m' ks')" "limit q = 0 \<or> distinct ks'"
      "sel nd' (ask q m' ks') \<noteq> []" for addr nd' m' ks'
    using Suc.IH [OF _ _ that(2,4,3)] net [OF that(1)] that(5) by blast
  have send: "\<exists>x. send (serve n net) net nd req = Some (msg x) \<and> holds q ?e (set (keys (request_query req))) x"
    if req: "req \<in> set reqs" for req
    using reqs(2) req distinct [OF req] net by (intro send_holds [OF Suc.prems(1,2,5)] rec) blast+
  from those_all [of reqs "send (serve n net) net nd" msg, OF this] obtain xs where
    xs: "those (map (send (serve n net) net nd) reqs) = Some (map msg xs)"
      "list_all2 (\<lambda>req. holds q ?e (set (keys (request_query req)))) reqs xs"
    by blast
  from reply_holds [OF Suc.prems(1) q reqs(1,3) xs(2) Suc.prems(4)] show ?case
    by (simp add: serve_Suc [OF valid] reqs(1) xs(1))
qed

lemma serve_finds:
  assumes "valid q" "\<And>addr nd. net addr = Some nd \<Longrightarrow> node_ok nd \<and> serves q nd" "node_ok nd" "serves q nd" "0 < n"
    and "keys_ok (keys q)" "limit q = 0 \<or> distinct (keys q)"
    and "\<forall>r \<in> set (sel nd q). owner n net nd (r_Key r) = Some (own (r_Key r))"
  shows "\<exists>r. serve n net nd q = Some r \<and> holds q (\<lambda>k. found q (own k) k) (r_Key ` set (sel nd q)) r"
  using serve_holds [OF assms(1,2), where nd = nd and n = n and own = own and m = "meta_of q" and ks = "keys q"] assms(3-8)
  by (simp add: same_ask owned_def)

text \<open>Nothing stops a request whose repository no daemon takes for its own.\<close>

lemma forwarded:
  assumes "node_ok nd" "valid q" "keys_ok (keys q)" "key \<in> set (keys q)" "db_Get (nd_db nd) key = Some r" "r_State r = st_OK"
    and "\<not> keeps_local nd (Host r)"
  shows "\<exists>reqs m ks. requests nd q = Returns reqs \<and>
    RemoteReq (host_address (nd_cfg nd) (Host r)) (ask q m ks) \<in> set reqs \<and> key \<in> set ks \<and> keys_ok ks"
proof -
  obtain reqs where reqs: "requests nd q = Returns reqs" "\<forall>req \<in> set reqs. request_of nd q req"
    "\<Union> (set (map (\<lambda>req. set (keys (request_query req))) reqs)) = r_Key ` set (sel nd q)"
    using requests_shape [OF assms(1-3)] by blast
  have "key \<in> \<Union> (set (map (\<lambda>req. set (keys (request_query req))) reqs))"
    unfolding reqs(3) using key_selected [OF assms(1,4-6)] by (metis imageI)
  then obtain req where req: "req \<in> set reqs" "key \<in> set (keys (request_query req))" by auto
  obtain host m ks where shape: "set ks \<subseteq> r_Key ` {r \<in> set (sel nd q). Host r = host}"
    "if keeps_local nd host then piece ks \<and> req = LocalReq (ask q m ks)
     else keys_ok ks \<and> req = RemoteReq (host_address (nd_cfg nd) host) (ask q m ks)"
    using reqs(2) req(1) unfolding request_of_def by blast
  then have key: "key \<in> set ks" using req(2) by (auto simp: keys_ask split: if_splits)
  then obtain r' where "r' \<in> set (sel nd q)" "Host r' = host" "r_Key r' = key" using shape(1) by auto
  then have "Host r = host" using selected_repo [OF assms(1)] assms(5) by fastforce
  with shape(2) assms(7) key req(1) reqs(1) show ?thesis by auto
qed

lemma never_served:
  assumes "nd \<in> S" "valid q" "keys_ok (keys q)" "key \<in> set (keys q)"
    and "\<And>nd. nd \<in> S \<Longrightarrow> node_ok nd \<and> (\<exists>r nd'. db_Get (nd_db nd) key = Some r \<and> r_State r = st_OK \<and>
      \<not> keeps_local nd (Host r) \<and> net (host_address (nd_cfg nd) (Host r)) = Some nd' \<and> nd' \<in> S)"
  shows "serve n net nd q = None"
  using assms(1-4)
proof (induction n arbitrary: nd q)
  case (Suc n)
  obtain r nd' where r: "db_Get (nd_db nd) key = Some r" "r_State r = st_OK" "\<not> keeps_local nd (Host r)"
    "net (host_address (nd_cfg nd) (Host r)) = Some nd'" "nd' \<in> S" "node_ok nd"
    using assms(5) [OF Suc.prems(1)] by blast
  obtain reqs m ks where reqs: "requests nd q = Returns reqs" "key \<in> set ks" "keys_ok ks"
    "RemoteReq (host_address (nd_cfg nd) (Host r)) (ask q m ks) \<in> set reqs"
    using forwarded [OF r(6) Suc.prems(2-4) r(1-3)] by blast
  have "serve n net nd' (ask q (nd_late nd m) ks) = None"
    using Suc.IH [OF r(5)] Suc.prems(2) reqs(2,3) by (simp add: valid_ask keys_ask)
  then have "those (map (send (serve n net) net nd) reqs) = None"
    by (intro those_missing [OF reqs(4)]) (simp add: send_remote [where net = net, OF r(4)])
  then show ?case using Suc.prems(2) by (simp add: serve_Suc reqs(1))
qed (rule serve_0)

end

end
