(* ===== verification/Network.thy ===== *)
theory Network
  imports Forward
begin

text \<open>
  A search over several hosts: the search service of \<open>afind/api/search.go\<close> composed with itself, as an
  instance of \<open>forwarding\<close>. \<open>serve_search n\<close> lets a request be passed on through fewer than \<open>n\<close> daemons; it
  is \<open>None\<close> when that is not enough.
\<close>

section \<open>Daemons that ask daemons\<close>

definition node_requests :: "'c node \<Rightarrow> search_query \<Rightarrow> search_query request list outcome" where
  "node_requests nd q = getSearchQueries (nd_hostname nd) (nd_compile nd) (nd_visit nd) (nd_cfg nd) (nd_db nd) q"

definition node_reply :: "'c node \<Rightarrow> search_result list \<Rightarrow> search_query \<Rightarrow> search_result option" where
  "node_reply nd results q =
     (case doSearch (nd_hostname nd) (nd_compile nd) (nd_visit nd) (nd_cfg nd) (nd_env nd)
         (\<lambda>_. nd_arrive nd results) (nd_elapsed nd) q (nd_db nd) of
        Panics msg \<Rightarrow> None
      | Returns (resp, err, d) \<Rightarrow> Some (rpc_Search (resp, err)))"

text \<open>The result a request sends: the local searcher's, or the answer of the daemon at the address,
  which \<open>ask\<close> gives. \<open>nd_late\<close> is what the shared metadata map holds by the time the request runs.\<close>

definition send_request ::
  "('c node \<Rightarrow> search_query \<Rightarrow> search_result option) \<Rightarrow> 'c network \<Rightarrow> 'c node \<Rightarrow>
   search_query request \<Rightarrow> search_result option" where
  "send_request ask net nd req =
     (case req of
        LocalReq q \<Rightarrow> localSearch \<lparr>sb_search = nd_search nd, sb_dial = (\<lambda>_. None),
            sb_call = (\<lambda>_ _. (NewSearchResult, None))\<rparr> q False
      | RemoteReq addr q \<Rightarrow>
          (let meta = nd_late nd (sq_Meta q)
           in case net addr of
                None \<Rightarrow> remoteSearch \<lparr>sb_search = nd_search nd,
                  sb_dial = (\<lambda>_. Some (NetError False ''connection refused'')),
                  sb_call = (\<lambda>_ _. (NewSearchResult, None))\<rparr> addr q meta False
              | Some nd' \<Rightarrow>
                  (case ask nd' (q\<lparr>sq_Meta := meta\<rparr>) of
                     None \<Rightarrow> None
                   | Some sr \<Rightarrow> remoteSearch \<lparr>sb_search = nd_search nd, sb_dial = (\<lambda>_. None),
                       sb_call = (\<lambda>_ _. (sr, None))\<rparr> addr q meta False)))"

primrec serve_search :: "nat \<Rightarrow> 'c network \<Rightarrow> 'c node \<Rightarrow> search_query \<Rightarrow> search_result option" where
  "serve_search 0 net nd q = None"
| "serve_search (Suc n) net nd q =
     (if SearchQuery_Normalize q \<noteq> None then node_reply nd [] q
      else (case node_requests nd q of
          Panics msg \<Rightarrow> None
        | Returns reqs \<Rightarrow>
            (case those (map (send_request (serve_search n net) net nd) reqs) of
               None \<Rightarrow> None
             | Some results \<Rightarrow> node_reply nd results q)))"

section \<open>What the service relies on\<close>

text \<open>The lines a daemon's searcher finds in one repository for the query.\<close>

definition found :: "search_query \<Rightarrow> 'c node \<Rightarrow> string \<Rightarrow> string \<times> string \<times> string \<Rightarrow> string option" where
  "found q nd key = match_at (fst (nd_search nd (q\<lparr>sq_RepoKeys := [key]\<rparr>)))"

text \<open>What the service relies on of the searcher, for the repositories that the daemon keeps: its
  results are well formed, hold lines of the repository asked for only, and do not depend on the
  metadata of the query.\<close>

definition searcher_ok :: "search_query \<Rightarrow> 'c node \<Rightarrow> bool" where
  "searcher_ok q nd \<longleftrightarrow> (\<forall>key meta. kept nd key \<longrightarrow>
     (let sr = fst (nd_search nd (q\<lparr>sq_Meta := meta, sq_RepoKeys := [key]\<rparr>))
     in sr_ok sr \<and> match_at sr = found q nd key \<and>
       (\<forall>f k l. k \<noteq> key \<longrightarrow> found q nd key (f, k, l) = None)))"

text \<open>The query that reaches a daemon differs from the first one in its keys and its metadata.\<close>

abbreviation asks :: "search_query \<Rightarrow> meta \<Rightarrow> string list \<Rightarrow> search_query" where
  "asks q meta keys \<equiv> q\<lparr>sq_Meta := meta, sq_RepoKeys := keys\<rparr>"

abbreviation selected :: "'c node \<Rightarrow> search_query \<Rightarrow> repo list" where
  "selected nd q \<equiv> genGetReqpos (nd_compile nd) (nd_db nd) (sq_RepoKeys q) (sq_Meta q) (sq_MetaRegexpMatch q)"

definition network_ok :: "search_query \<Rightarrow> 'c network \<Rightarrow> bool" where
  "network_ok q net \<longleftrightarrow> (\<forall>addr nd. net addr = Some nd \<longrightarrow> node_ok nd \<and> searcher_ok q nd)"

abbreviation line_repo :: "string \<times> string \<times> string \<Rightarrow> string" where
  "line_repo p \<equiv> fst (snd p)"

section \<open>The search service passes requests on\<close>

lemma search_pieces: "p \<in> set (search_mk_local q m ks) \<Longrightarrow>
    \<exists>ks'. p = asks q m ks' \<and> ks' \<noteq> [] \<and> length ks' = 1 \<and> set ks' \<subseteq> set ks"
proof -
  assume "p \<in> set (search_mk_local q m ks)"
  then obtain k where "k \<in> set ks" "p = asks q m [k]" by (auto simp: search_mk_local_def)
  then show ?thesis by (intro exI [of _ "[k]"]) simp
qed

lemma search_send_local:
  assumes "sr_ok (fst (nd_search nd q))"
  shows "\<exists>x. send_request S net nd (LocalReq q) = Some x \<and> sr_ok x \<and> match_at x = match_at (fst (nd_search nd q))"
  using assms by (cases "nd_search nd q")
    (auto simp: send_request_def localSearch_def sr_ok_def match_at_def split: option.split)

lemma search_send_remote:
  assumes "net addr = Some nd'"
  shows "send_request S net nd (RemoteReq addr (asks q m ks)) = map_option (\<lambda>x. x) (S nd' (asks q (nd_late nd m) ks))"
  using assms by (cases q) (simp add: send_request_def remoteSearch_def Let_def option.map_ident split: option.split)

text \<open>\<open>Update\<close> counts the lines it merges, so that results with no line in common are counted right, and
  a merge that stops early has no fewer lines than the limit.\<close>

definition entries :: "matchMap \<Rightarrow> (string \<times> string \<times> string) list" where
  "entries m = concat (map (\<lambda>(f, rs). concat (map (\<lambda>(k, ls). map (\<lambda>(l, v). (f, k, l)) ls) rs)) m)"

lemma length_entries: "length (entries m) = count_lines m"
proof -
  have "length (concat (map (\<lambda>(k, ls). map (\<lambda>(l, v). (f, k, l)) ls) rs)) = (\<Sum>(k, ls)\<leftarrow>rs. length ls)"
    for f :: string and rs :: "(string, (string, string) gomap) gomap"
    by (induction rs) auto
  then show ?thesis by (induction m) (auto simp: entries_def count_lines_def)
qed

lemma distinct_entries:
  assumes "matches_ok m"
  shows "distinct (entries m)"
proof -
  have lines: "gm_ok ls \<Longrightarrow> distinct (map (\<lambda>(l, v). (f, k, l)) ls)"
    for f k :: string and ls :: "(string, string) gomap"
    by (induction ls) (auto simp: gm_ok_def image_iff)
  have repos: "gm_ok rs \<Longrightarrow> \<forall>(k, ls) \<in> set rs. gm_ok ls \<Longrightarrow>
      distinct (concat (map (\<lambda>(k, ls). map (\<lambda>(l, v). (f, k, l)) ls) rs))"
    for f :: string and rs :: "(string, (string, string) gomap) gomap"
  proof (induction rs)
    case (Cons kls rs)
    obtain k ls where "kls = (k, ls)" by (cases kls)
    with Cons show ?case by (force simp: lines gm_ok_def)
  qed simp
  show ?thesis
    using assms
  proof (induction m)
    case (Cons frs m)
    obtain f rs where frs: "frs = (f, rs)" by (cases frs)
    from Cons.prems have ok: "matches_ok m" "gm_ok rs" "\<forall>(k, ls) \<in> set rs. gm_ok ls" "f \<notin> fst ` set m"
      by (auto simp: frs matches_ok_def gm_ok_def)
    then have "f \<notin> fst ` set (entries m)" by (force simp: entries_def)
    moreover have "fst ` set (concat (map (\<lambda>(k, ls). map (\<lambda>(l, v). (f, k, l)) ls) rs)) \<subseteq> {f}" by auto
    ultimately have "set (concat (map (\<lambda>(k, ls). map (\<lambda>(l, v). (f, k, l)) ls) rs)) \<inter> set (entries m) = {}" by blast
    with Cons.IH [OF ok(1)] repos [OF ok(2,3), of f] show ?case by (simp add: frs entries_def)
  qed (simp add: entries_def)
qed

lemma set_entries:
  assumes "sr_ok x"
  shows "set (entries (sr_Matches x)) = dom (match_at x)"
proof -
  note ok = assms [unfolded sr_ok_def, THEN conjunct1]
  have sub: "(\<exists>v. map_of (gm_sub g k) l = Some v) \<longleftrightarrow> (\<exists>ls v. (k, ls) \<in> set g \<and> (l, v) \<in> set ls)"
    if "gm_ok g" "\<forall>(k, ls) \<in> set g. gm_ok ls" for g :: "(string, (string, string) gomap) gomap" and k l
    using that by (fastforce simp: gm_sub_def gm_ok_def map_of_eq_None_iff split: option.splits dest: map_of_SomeD)
  have "(f, k, l) \<in> set (entries (sr_Matches x)) \<longleftrightarrow> (\<exists>rs. (f, rs) \<in> set (sr_Matches x) \<and> (\<exists>ls v. (k, ls) \<in> set rs \<and> (l, v) \<in> set ls))"
    for f k l by (force simp: entries_def)
  moreover have "(\<exists>rs. (f, rs) \<in> set (sr_Matches x) \<and> (\<exists>ls v. (k, ls) \<in> set rs \<and> (l, v) \<in> set ls)) \<longleftrightarrow>
      (\<exists>ls v. (k, ls) \<in> set (gm_sub (sr_Matches x) f) \<and> (l, v) \<in> set ls)" for f k l
    using ok by (fastforce simp: gm_sub_def matches_ok_def gm_ok_def split: option.splits dest: map_of_SomeD)
  ultimately have "(f, k, l) \<in> set (entries (sr_Matches x)) \<longleftrightarrow> (f, k, l) \<in> dom (match_at x)" for f k l
    using sub [OF gm_sub_ok [OF ok]] by (simp add: match_at_def dom_def)
  then show ?thesis by auto
qed

lemma count_match_at: "sr_ok x \<Longrightarrow> finite (dom (match_at x)) \<and> card (dom (match_at x)) = count_lines (sr_Matches x)"
  using set_entries [of x] distinct_card [OF distinct_entries, of "sr_Matches x"]
  by (metis List.finite_set length_entries sr_ok_def)

lemma NumMatches_le: "unat (sum_list (map (\<lambda>x. of_nat (f x)) xs) :: 64 word) \<le> sum_list (map f xs)"
proof -
  have "sum_list (map (\<lambda>x. of_nat (f x)) xs) = (of_nat (sum_list (map f xs)) :: 64 word)" by (induction xs) simp_all
  then show ?thesis by (simp add: unsigned_of_nat take_bit_eq_mod)
qed

lemma enough_lines:
  assumes "EnoughResults (fold SearchResult_Update xs (NewSearchResult\<lparr>sr_MaxMatches := m\<rparr>))" (is "EnoughResults ?sr")
    and "\<forall>x \<in> set xs. sr_ok x" "merged_matches.apart xs"
  shows "0 < unat m \<and> unat m \<le> card (dom (match_at ?sr))"
proof -
  let ?r0 = "NewSearchResult\<lparr>sr_MaxMatches := m\<rparr>"
  have "sr_MaxMatches (fold SearchResult_Update xs r) = sr_MaxMatches r" for r
    by (induction xs arbitrary: r) (simp_all add: Update_fields)
  then have m: "0 < m" "m \<le> sr_NumMatches ?sr" using assms(1) by (simp_all add: EnoughResults_def NewSearchResult_def)
  have "sr_ok ?r0" "match_at ?r0 = (\<lambda>_. None)"
    by (auto simp: NewSearchResult_def sr_ok_def matches_ok_def match_at_def)
  from merged_matches.card_fold [OF this(1) _ this(2) assms(3)] assms(2)
  have "card (dom (match_at ?sr)) = (\<Sum>x\<leftarrow>xs. card (dom (match_at x)))" by blast
  also have "\<dots> = (\<Sum>x\<leftarrow>xs. count_lines (sr_Matches x))"
    using assms(2) count_match_at by (intro arg_cong [of _ _ sum_list] map_cong) simp_all
  finally have "unat (sr_NumMatches ?sr) \<le> card (dom (match_at ?sr))"
    using NumMatches_le [of "\<lambda>x. count_lines (sr_Matches x)" xs] by (simp add: NumMatches_fold NewSearchResult_def)
  with m show ?thesis by (simp add: word_le_nat_alt unat_gt_0 word_neq_0_conv)
qed

lemma search_reply:
  assumes "node_ok nd" "SearchQuery_Normalize q = None" "node_requests nd q = Returns reqs" "\<forall>x \<in> set xs. sr_ok x"
    and "unat (sq_MaxMatches q) = 0 \<or> merged_matches.apart xs"
  shows "\<exists>r xs' ys r0. node_reply nd (map (\<lambda>x. x) xs) q = Some r \<and> mset (xs' @ ys) = mset xs \<and>
    sr_ok r0 \<and> match_at r0 = (\<lambda>_. None) \<and>
    (sr_ok (fold SearchResult_Update xs' r0) \<longrightarrow> sr_ok r \<and> match_at r = match_at (fold SearchResult_Update xs' r0)) \<and>
    (ys = [] \<or> 0 < unat (sq_MaxMatches q) \<and> unat (sq_MaxMatches q) \<le> card (dom (match_at r)))"
proof -
  let ?r0 = "NewSearchResult\<lparr>sr_MaxMatches := sq_MaxMatches q\<rparr>" and ?in = "nd_arrive nd xs"
  obtain n where n: "fst (search_merge ?in ?r0 []) = fold SearchResult_Update (take n ?in) ?r0"
    "n = length ?in \<or> EnoughResults (fold SearchResult_Update (take n ?in) ?r0)"
    using search_merge_prefix [of ?in ?r0 "[]"] by (metis fst_conv)
  let ?sr = "fold SearchResult_Update (take n ?in) ?r0"
  let ?fin = "?sr\<lparr>sr_Durations := (sr_Durations ?sr)\<lparr>sd_Search := nd_elapsed nd\<rparr>\<rparr>"
  have perm: "mset (take n ?in @ drop n ?in) = mset xs" using assms(1) by (simp add: node_ok_def)
  have fin: "sr_ok ?fin = sr_ok ?sr" "match_at ?fin = match_at ?sr" by (simp_all add: sr_ok_def match_at_def)
  have "drop n ?in = [] \<or> 0 < unat (sq_MaxMatches q) \<and> unat (sq_MaxMatches q) \<le> card (dom (match_at ?fin))"
  proof (cases "n = length ?in")
    case False
    with n(2) have enough: "EnoughResults ?sr" by simp
    have "sr_MaxMatches (fold SearchResult_Update zs r) = sr_MaxMatches r" for zs r
      by (induction zs arbitrary: r) (simp_all add: Update_fields)
    with enough have "0 < sq_MaxMatches q" by (simp add: EnoughResults_def)
    then have "merged_matches.apart xs" using assms(5) by (metis less_irrefl unat_eq_0)
    from merged_matches.apart_part [OF this perm] have "merged_matches.apart (take n ?in)" .
    moreover have "\<forall>x \<in> set (take n ?in). sr_ok x"
      using assms(4) mset_eq_setD [OF perm] by (metis UnCI set_append)
    ultimately show ?thesis using enough_lines [OF enough] unfolding fin by blast
  qed simp
  moreover have "node_reply nd (map (\<lambda>x. x) xs) q = Some ?fin"
    using assms(2,3) n(1) by (simp add: node_reply_def doSearch_def node_requests_def Let_def split_def rpc_Search_def)
  moreover have "sr_ok ?r0" "match_at ?r0 = (\<lambda>_. None)"
    by (auto simp: NewSearchResult_def sr_ok_def matches_ok_def match_at_def)
  ultimately show ?thesis
    using perm fin by (intro exI [of _ ?fin] exI [of _ "take n ?in"] exI [of _ "drop n ?in"] exI [of _ ?r0]) simp
qed

lemma search_not_full:
  assumes "node_ok nd" "i < length (group_hosts (genGetReqpos compile (nd_db nd) keys meta rx))"
  shows "\<not> (c_MaxSearchReqBe (nd_cfg nd) > 0 \<and> int i \<ge> c_MaxSearchReqBe (nd_cfg nd))"
  using group_hosts_few [OF assms(1), of compile keys meta rx] assms(2) by linarith

interpretation searching: forwarding SearchResult_Update match_at sr_ok line_repo
  sq_RepoKeys sq_Meta sq_MetaRegexpMatch asks "\<lambda>q. SearchQuery_Normalize q = None" "\<lambda>q. unat (sq_MaxMatches q)"
  "\<lambda>ks. length ks = 1" "\<lambda>_. True" "\<lambda>nd q n. c_MaxSearchReqBe (nd_cfg nd) > 0 \<and> int n \<ge> c_MaxSearchReqBe (nd_cfg nd)"
  search_mk_local node_requests "\<lambda>nd q. fst (nd_search nd q)" "\<lambda>x. x" send_request node_reply serve_search
proof unfold_locales
  show "node_requests nd q =
      (let repos = genGetReqpos (nd_compile nd) (nd_db nd) (sq_RepoKeys q) (sq_Meta q) (sq_MetaRegexpMatch q)
       in if length repos < 1 then Returns []
          else dispatch (nd_hostname nd) (\<lambda>n. c_MaxSearchReqBe (nd_cfg nd) > 0 \<and> int n \<ge> c_MaxSearchReqBe (nd_cfg nd))
            (search_mk_local q) (asks q) (nd_cfg nd) (sq_Meta q) 0 (nd_visit nd (group_hosts repos)))"
    for nd :: "'c node" and q
    by (simp add: node_requests_def getSearchQueries_def Let_def search_mk_remote_def [abs_def])
  show "finite (dom (match_at r))" if "sr_ok r" for r using count_match_at [OF that] by blast
qed ((rule search_pieces search_reply search_not_full search_send_local search_send_remote; assumption)
  | (simp add: SearchQuery_Normalize_def node_ok_def search_mk_local_def o_def; fail)
  | (simp add: split: option.split outcome.split; fail))+

lemma searching_found: "searching.found q nd = found q nd"
  by (cases q) (simp add: fun_eq_iff searching.found_def found_def)

lemma searcher_serves:
  assumes "searcher_ok q nd"
  shows "searching.serves q nd"
proof -
  have "match_at (fst (nd_search nd (asks q m ks))) = part line_repo (set ks) (found q nd) \<and>
      sr_ok (fst (nd_search nd (asks q m ks)))" if ks: "length ks = 1" "\<forall>k \<in> set ks. kept nd k" for m ks
  proof -
    obtain k where "ks = [k]" using ks(1) by (auto simp: length_Suc_conv)
    with assms ks(2) show ?thesis by (auto simp: searcher_ok_def Let_def part_def fun_eq_iff)
  qed
  then show ?thesis unfolding searching.serves_def searching_found by blast
qed

text \<open>The lines of an answer to a query, for expected lines \<open>e\<close> of some repositories: these lines and no
  others, all of them or, for a query with a limit on matches, no fewer than the limit.\<close>

definition answers_query :: "search_query \<Rightarrow> string set \<Rightarrow> (string \<Rightarrow> string \<times> string \<times> string \<Rightarrow> string option) \<Rightarrow> search_result \<Rightarrow> bool" where
  "answers_query q K e sr \<longleftrightarrow> sr_ok sr \<and> match_at sr \<subseteq>\<^sub>m part line_repo K e \<and>
     (match_at sr = part line_repo K e \<or> 0 < sq_MaxMatches q \<and> unat (sq_MaxMatches q) \<le> card (dom (match_at sr)))"

lemma serve_lines:
  assumes "SearchQuery_Normalize q = None" "sq_MaxMatches q = 0 \<or> distinct (sq_RepoKeys q)" "network_ok q net"
    and "node_ok nd" "searcher_ok q nd" "0 < n"
    and "\<forall>r \<in> set (selected nd q). owner n net nd (r_Key r) = Some (own (r_Key r))"
  shows "\<exists>sr. serve_search n net nd q = Some sr \<and> answers_query q (r_Key ` set (selected nd q)) (\<lambda>k. found q (own k) k) sr"
proof -
  have net: "\<And>addr nd'. net addr = Some nd' \<Longrightarrow> node_ok nd' \<and> searching.serves q nd'"
    using assms(3) searcher_serves by (auto simp: network_ok_def)
  have keys: "unat (sq_MaxMatches q) = 0 \<or> distinct (sq_RepoKeys q)" using assms(2) by auto
  have "\<exists>sr. serve_search n net nd q = Some sr \<and>
      searching.holds q (\<lambda>k. searching.found q (own k) k) (r_Key ` set (selected nd q)) sr"
    by (rule searching.serve_finds [OF assms(1) net assms(4) searcher_serves [OF assms(5)] assms(6) TrueI keys assms(7)])
  then show ?thesis unfolding searching_found searching.holds_def answers_query_def unat_gt_0 word_neq_0_conv .
qed

section \<open>A search ends at the owners of the repositories\<close>

text \<open>When every repository that a query selects has an owner, a daemon fewer than \<open>n\<close> steps away that
  keeps it, the asked daemon answers, and, without a limit on matches, the lines of the answer are,
  for each of the repositories, exactly the lines that its owner's searcher finds in it, whatever the
  order in which hosts are visited and answers arrive and through however many daemons the request
  was passed on; there are no other lines.\<close>

theorem search_reaches_owners:
  assumes "SearchQuery_Normalize q = None" "sq_MaxMatches q = 0" "network_ok q net"
    and "node_ok nd" "searcher_ok q nd" "0 < n"
    and "\<forall>r \<in> set (selected nd q). owner n net nd (r_Key r) = Some (own (r_Key r))"
  shows "\<exists>sr. serve_search n net nd q = Some sr \<and> sr_ok sr \<and>
    (\<forall>f k l. match_at sr (f, k, l) =
      (if k \<in> r_Key ` set (selected nd q)
       then match_at (fst (nd_search (own k) (q\<lparr>sq_RepoKeys := [k]\<rparr>))) (f, k, l) else None))"
  using serve_lines [OF assms(1) _ assms(3-7)] assms(2) by (auto simp: answers_query_def part_def found_def)

section \<open>Requests that are passed on for ever\<close>

text \<open>C28. Nothing stops a request from being passed on. When a key's repository is available at each of
  some daemons, under a host that the daemon does not take for its own and whose address leads to
  one of them again, a query for it is never answered there, however often it may be passed on:
  not even when its \<open>Recurse\<close> is off, which is meant to stop it after one hop.  A single daemon that
  knows a repository under another name of its own is such a case.\<close>

theorem passed_on_for_ever:
  assumes "SearchQuery_Normalize q = None" "nd \<in> S" "key \<in> set (sq_RepoKeys q)"
    and "\<And>nd. nd \<in> S \<Longrightarrow> node_ok nd \<and> (\<exists>r nd'. db_Get (nd_db nd) key = Some r \<and> r_State r = st_OK \<and>
      \<not> keeps_local nd (Host r) \<and> net (host_address (nd_cfg nd) (Host r)) = Some nd' \<and> nd' \<in> S)"
  shows "serve_search n net nd (q\<lparr>sq_Recurse := recurse\<rparr>) = None"
  using assms by (intro searching.never_served [of nd S]) (auto simp: SearchQuery_Normalize_def)

section \<open>Instances\<close>

text \<open>A daemon that knows one repository, \<open>k\<close>, under a host, and whose searcher finds one line in it.\<close>

definition tiny_result :: search_result where
  "tiny_result = NewSearchResult\<lparr>sr_Matches := [(''f'', [(''k'', [(''1'', ''abc'')])])]\<rparr>"

definition tiny_names :: find_result where
  "tiny_names = NewFindResult\<lparr>fr_Matches := [(''f'', [(''k'', 1)])], fr_NumMatches := 1\<rparr>"

definition tiny_node :: "string \<Rightarrow> string \<Rightarrow> (string, repo) gomap node" where
  "tiny_node hostname host = \<lparr>nd_hostname = Some hostname, nd_compile = (\<lambda>_. None), nd_visit = rev,
     nd_cfg = zero_config, nd_env = plain_env,
     nd_db = \<lparr>db_R = [(''k'', NewRepo\<lparr>r_Key := ''k'', r_State := st_OK, r_Meta := [(''host'', host)]\<rparr>)],
       db_bfn = '''', db_bs = False, db_files = (\<lambda>_. None)\<rparr>,
     nd_late = (\<lambda>meta. meta),
     nd_search = (\<lambda>q. (if sq_RepoKeys q = [''k''] then tiny_result else NewSearchResult, None)),
     nd_arrive = rev, nd_elapsed = 0,
     nd_find = (\<lambda>q. (if ''k'' \<in> set (fq_RepoKeys q) then tiny_names else NewFindResult, None)), nd_find_arrive = rev\<rparr>"

lemma tiny_node_ok: "hostname \<noteq> '''' \<Longrightarrow> node_ok (tiny_node hostname host)"
  by (simp add: node_ok_def tiny_node_def db_ok_def gm_ok_def db_keyed_def db_Get_map zero_config_def few_hosts_def)

lemma tiny_result_at: "match_at tiny_result (f, k, l) = (if f = ''f'' \<and> k = ''k'' \<and> l = ''1'' then Some ''abc'' else None)"
  by (simp add: tiny_result_def match_at_def gm_sub_def)

lemma tiny_searcher_ok: "searcher_ok q (tiny_node hostname host)"
proof -
  have "sr_ok tiny_result" "sr_ok NewSearchResult"
    by (simp_all add: tiny_result_def NewSearchResult_def sr_ok_def matches_ok_def gm_ok_def)
  moreover have "match_at NewSearchResult p = None" for p
    by (cases p) (simp add: NewSearchResult_def match_at_def)
  ultimately show ?thesis
    by (auto simp: searcher_ok_def found_def tiny_node_def Let_def tiny_result_at)
qed

lemma tiny_keeps_local:
  "keeps_local (tiny_node hostname host) h =
    (h \<in> set localHostnames \<or> (if hostname = '''' then False else h = hostname \<or> HasPrefix hostname (h @ ''.'')))"
  if "hostname \<noteq> ''''"
  using that isLocal_states(1) [of "Some hostname" zero_config hostname _ zero_config]
  by (auto simp: keeps_local_def tiny_node_def Config_Host_def zero_config_def gm_str_def Let_def)

lemma tiny_node_get: "db_Get (nd_db (tiny_node hostname host)) ''k''
    = Some (NewRepo\<lparr>r_Key := ''k'', r_State := st_OK, r_Meta := [(''host'', host)]\<rparr>)"
  by (simp add: tiny_node_def db_Get_map)

lemma tiny_Host: "Host (NewRepo\<lparr>r_Key := ''k'', r_State := st_OK, r_Meta := [(''host'', host)]\<rparr>) = host"
  by (simp add: Host_def Meta_Host_def gm_str_def)

abbreviation key_query :: search_query where
  "key_query \<equiv> NewSearchQuery ''abc'' '''' False [''k'']"

lemma key_query_valid: "SearchQuery_Normalize key_query = None" "sq_MaxMatches key_query = 0"
  by (simp_all add: NewSearchQuery_def SearchQuery_Normalize_def)

lemma search_reaches_owners_witness:
  "\<exists>sr. serve_search 2 (\<lambda>_. Some (tiny_node ''b'' '''')) (tiny_node ''a'' ''b'') key_query = Some sr \<and>
    match_at sr (''f'', ''k'', ''1'') = Some ''abc''"
proof -
  let ?a = "tiny_node ''a'' ''b''" and ?b = "tiny_node ''b'' ''''"
  let ?net = "\<lambda>_ :: string. Some ?b"
  have sel: "r_Key ` set (selected ?a key_query) = {''k''}"
    using searching.selected_ask [where nd = ?a and ks = "[''k'']" and q = key_query and m = "[]"] tiny_node_ok [of "''a''"] tiny_node_get
    by (auto simp: NewSearchQuery_def)
  have "owner 2 ?net ?a ''k'' = Some ?b"
    using tiny_keeps_local [of "''a''" "''b''"] tiny_keeps_local [of "''b''" "''''"]
    by (simp add: numeral_2_eq_2 tiny_node_get tiny_Host localHostnames_def HasPrefix_def)
  then have owners: "\<forall>r \<in> set (selected ?a key_query). owner 2 ?net ?a (r_Key r) = Some ?b"
    using sel imageI [of _ "set (selected ?a key_query)" r_Key] by (metis singletonD)
  have "network_ok key_query ?net"
    by (simp add: network_ok_def tiny_node_ok tiny_searcher_ok)
  moreover have "node_ok ?a" by (simp add: tiny_node_ok)
  ultimately obtain sr where "serve_search 2 ?net ?a key_query = Some sr"
    "\<forall>f k l. match_at sr (f, k, l) = (if k \<in> {''k''}
       then match_at (fst (nd_search ?b (key_query\<lparr>sq_RepoKeys := [k]\<rparr>))) (f, k, l) else None)"
    using search_reaches_owners [OF key_query_valid _ _ tiny_searcher_ok zero_less_numeral owners] unfolding sel
    by blast
  then show ?thesis by (simp add: tiny_node_def tiny_result_at)
qed

lemma passed_on_for_ever_witness:
  "serve_search 100 (\<lambda>_. Some (tiny_node ''a'' ''a.lan'')) (tiny_node ''a'' ''a.lan'')
     (key_query\<lparr>sq_Recurse := False\<rparr>) = None"
proof -
  let ?a = "tiny_node ''a'' ''a.lan''"
  have "\<not> keeps_local ?a ''a.lan''"
    using tiny_keeps_local [of "''a''"] by (simp add: localHostnames_def HasPrefix_def)
  then have "\<And>nd. nd \<in> {?a} \<Longrightarrow> node_ok nd \<and> (\<exists>r nd'. db_Get (nd_db nd) ''k'' = Some r \<and> r_State r = st_OK \<and>
      \<not> keeps_local nd (Host r) \<and> Some ?a = Some nd' \<and> nd' \<in> {?a})"
    using tiny_node_get [of "''a''" "''a.lan''"] tiny_Host [of "''a.lan''"] tiny_node_ok [of "''a''"] by auto
  from passed_on_for_ever [OF key_query_valid(1) _ _ this, of ?a] show ?thesis
    by (simp add: NewSearchQuery_def)
qed

end
