(* ===== verification/Pipeline.thy ===== *)
theory Pipeline
  imports Network
begin

text \<open>
  From files to answers: the scanner of \<open>afind/grepper.go\<close>, the search of a shard, the concurrent search
  of a repository's shards (\<open>afind/search.go\<close>), the search service over several hosts
  (\<open>afind/api/search.go\<close>) and the indexer (\<open>afind/index.go\<close>) composed. What each of them is proved to do adds up to
  one statement on lines: an answer holds the matching lines, all of them and nothing else.
\<close>

section \<open>One repository\<close>

text \<open>A line of a file, by number and text, on which the expression matches.\<close>

definition line_at ::
  "('re, 'ix) grep_env \<Rightarrow> string \<Rightarrow> (string \<Rightarrow> bool) \<Rightarrow> string \<Rightarrow> string \<Rightarrow> string \<Rightarrow> bool" where
  "line_at ge root P f l v \<longleftrightarrow> (\<exists>j. j < length (file_lines ge root f) \<and>
     P (strip (file_lines ge root f ! j)) \<and> l = Itoa (int j + 1) \<and> v = file_lines ge root f ! j)"

definition path_ok :: "('re, 'ix) grep_env \<Rightarrow> 're option \<Rightarrow> string \<Rightarrow> bool" where
  "path_ok ge pathre f \<longleftrightarrow> pathre = None \<or> \<not> ge_match_name ge (the pathre) f < 0"

text \<open>The files of an index that the posting query returns and whose names pass.\<close>

definition candidates :: "('re, 'ix) grep_env \<Rightarrow> 're \<Rightarrow> 're option \<Rightarrow> 'ix \<Rightarrow> string list" where
  "candidates ge re pathre ix = filter (path_ok ge pathre) (map (ge_name ge ix) (ge_posting ge ix re))"

definition shard_files :: "('re, 'ix) grep_env \<Rightarrow> 're \<Rightarrow> 're option \<Rightarrow> string \<Rightarrow> string set" where
  "shard_files ge re pathre shard =
     (case ge_index_open ge shard of Inl e \<Rightarrow> {} | Inr ix \<Rightarrow> set (candidates ge re pathre ix))"

text \<open>A query that can be run on some shards: its expressions compile, it asks for no context, the
  shards open, and the files they name can be read to their end.\<close>

definition searchable ::
  "('re, 'ix) grep_env \<Rightarrow> search_query \<Rightarrow> 're \<Rightarrow> 're option \<Rightarrow> (string \<Rightarrow> bool) \<Rightarrow> string \<Rightarrow> string list \<Rightarrow> bool" where
  "searchable ge q re pathre P root shards \<longleftrightarrow>
     buildRegexps (ge_compile ge) q = (Some re, pathre, None) \<and> line_matcher P (ge_match ge re) \<and>
     sq_Context q = \<lparr>sc_Both = 0, sc_Pre = 0, sc_Post = 0\<rparr> \<and>
     (\<forall>shard \<in> set shards. (\<exists>ix. ge_index_open ge shard = Inr ix) \<and>
       (\<forall>f \<in> shard_files ge re pathre shard. readable ge root f))"

text \<open>The lines that belong into the answer for some files of a repository.\<close>

definition lines_found ::
  "('re, 'ix) grep_env \<Rightarrow> string \<Rightarrow> (string \<Rightarrow> bool) \<Rightarrow> string \<Rightarrow> string set \<Rightarrow> search_result \<Rightarrow> bool" where
  "lines_found ge root P key F sr \<longleftrightarrow> sr_ok sr \<and>
     (\<forall>f k l v. match_at sr (f, k, l) = Some v \<longleftrightarrow> k = key \<and> f \<in> F \<and> line_at ge root P f l v)"

lemma searchLocal_lines:
  assumes "searchable ge q re pathre P (r_Root r) shards" "shard \<in> set shards"
  shows "\<exists>res. searchLocal ge (\<lambda>_. False) posted q r shard = Some (Returns (res, None)) \<and>
    lines_found ge (r_Root r) P (firstKey q) (shard_files ge re pathre shard) res"
proof -
  obtain ix where ix: "ge_index_open ge shard = Inr ix" "\<forall>f \<in> shard_files ge re pathre shard. readable ge (r_Root r) f"
    using assms by (auto simp: searchable_def)
  then have files: "shard_files ge re pathre shard = set (candidates ge re pathre ix)" by (simp add: shard_files_def)
  have names: "candidates ge re pathre ix = filter (\<lambda>f. pathre = None \<or> \<not> ge_match_name ge (the pathre) f < 0)
      (map (ge_name ge ix) (ge_posting ge ix re))"
    unfolding candidates_def path_ok_def ..
  have q: "buildRegexps (ge_compile ge) q = (Some re, pathre, None)" "line_matcher P (ge_match ge re)"
    "sq_Context q = \<lparr>sc_Both = 0, sc_Pre = 0, sc_Post = 0\<rparr>"
    using assms(1) by (simp_all add: searchable_def)
  have read: "readable ge (r_Root r) f" if "f \<in> set (candidates ge re pathre ix)" for f
    using ix(2) that files by blast
  obtain res where res: "grep_search ge (newGrep shard (r_Root r)) (\<lambda>_. False) posted q = Some (Returns (res, None))"
    "\<forall>f k l v. match_at res (f, k, l) = Some v \<longleftrightarrow> k = firstKey q \<and> f \<in> set (candidates ge re pathre ix) \<and>
      line_at ge (r_Root r) P f l v"
    using grep_search_lines [OF q(1) ix(1) q(2,3) _ names read, of "\<lambda>_. False" posted]
    by (auto simp: line_at_def)
  let ?res = "res\<lparr>sr_Repos := gm_put (r_Key r) r (sr_Repos res)\<rparr>"
  have "sr_ok ?res" "match_at ?res = match_at res"
    using grep_search_wf [OF res(1)] by (simp_all add: sr_ok_def match_at_def)
  then show ?thesis
    using res by (auto simp: searchLocal_def lines_found_def files)
qed

lemma sent_lines: "lines_found ge root P key F sr \<Longrightarrow> lines_found ge root P key F (sent r sr)"
  by (simp add: lines_found_def sent_def sr_ok_def match_at_def)

text \<open>Merging what shards found finds the union: a line is the same wherever its file was found.\<close>

lemma lines_found_merge:
  assumes "\<And>x. x \<in> set xs \<Longrightarrow> \<exists>F \<in> FS. lines_found ge root P key F x"
    and "\<And>F. F \<in> FS \<Longrightarrow> \<exists>x \<in> set xs. lines_found ge root P key F x"
    and "sr_ok r" "match_at r = (\<lambda>_. None)"
  shows "lines_found ge root P key (\<Union> FS) (fold SearchResult_Update xs r)"
proof -
  have ok: "sr_ok x" if "x \<in> set xs" for x using assms(1) [OF that] by (auto simp: lines_found_def)
  have line: "k = key \<and> line_at ge root P f l v" if "x \<in> set xs" "match_at x (f, k, l) = Some v" for x f k l v
    using assms(1) [OF that(1)] that(2) by (auto simp: lines_found_def)
  have "line_at ge root P f l v \<Longrightarrow> line_at ge root P f l w \<Longrightarrow> v = w" for f l v w
    by (auto simp: line_at_def Itoa_eq_iff)
  then have agree: "merged_matches.agree xs"
    unfolding merged_matches.agree_def by (metis line prod_cases3)
  have "match_at (fold SearchResult_Update xs r) (f, k, l) = Some v \<longleftrightarrow>
      k = key \<and> f \<in> \<Union> FS \<and> line_at ge root P f l v" (is "?m = _ \<longleftrightarrow> ?R") for f k l v
  proof
    assume m: "?m = Some v"
    then obtain x where x: "x \<in> set xs" "match_at x (f, k, l) \<noteq> None"
      using merged_matches.view_fold_none [OF assms(3) ok, where k = "(f, k, l)"] assms(4) by fastforce
    then have "match_at x (f, k, l) = Some v"
      using m merged_matches.view_fold_some [OF assms(3) ok agree x(1), of "(f, k, l)"] by fastforce
    with assms(1) [OF x(1)] show ?R by (auto simp: lines_found_def)
  next
    assume ?R
    then obtain F where F: "F \<in> FS" "f \<in> F" "k = key" "line_at ge root P f l v" by blast
    with assms(2) obtain x where "x \<in> set xs" "lines_found ge root P key F x" by blast
    moreover from this F have "match_at x (f, k, l) = Some v" by (auto simp: lines_found_def)
    ultimately show "?m = Some v" using merged_matches.view_fold_some [OF assms(3) ok agree] by blast
  qed
  then show ?thesis
    using merged_matches.wf_fold [OF assms(3) ok] by (simp add: lines_found_def)
qed

text \<open>The lines of one repository that a query should find.\<close>

definition repo_lines ::
  "('re, 'ix) grep_env \<Rightarrow> 're \<Rightarrow> 're option \<Rightarrow> (string \<Rightarrow> bool) \<Rightarrow> repo \<Rightarrow> string \<Rightarrow> string \<Rightarrow> string \<Rightarrow> bool" where
  "repo_lines ge re pathre P r f l v \<longleftrightarrow> (\<exists>shards. Shards r = Returns shards \<and>
     (\<exists>shard \<in> set shards. f \<in> shard_files ge re pathre shard) \<and> line_at ge (r_Root r) P f l v)"

lemma Search_start_shards:
  assumes "Search_start cfg env q d = Returns (Running s0)"
  shows "db_Get d (firstKey q) = Some (ss_repo s0)" "Shards (ss_repo s0) = Returns (ss_todo s0)"
  using assms by (auto simp: Search_start_def Let_def split: if_splits option.splits outcome.splits)

lemma run_lines:
  assumes start: "Search_start cfg env q d = Returns (Running s0)"
    and ok: "searchable ge q re pathre P (r_Root (ss_repo s0)) (ss_todo s0)"
    and run: "(search_step cfg env ge posted q)\<^sup>*\<^sup>* s0 s" "\<not> ss_expired s"
  shows "(\<exists>s'. (search_step cfg env ge posted q)\<^sup>*\<^sup>* s s' \<and> search_returned s' \<and> \<not> ss_expired s')"
    and "search_returned s \<Longrightarrow> lines_found ge (r_Root (ss_repo s0)) P (firstKey q)
      (\<Union> (shard_files ge re pathre ` set (ss_todo s0))) (ss_resp s)"
proof -
  let ?lines = "\<lambda>shard. lines_found ge (r_Root (ss_repo s0)) P (firstKey q) (shard_files ge re pathre shard)"
  have "\<forall>shard. \<exists>res. shard \<in> set (ss_todo s0) \<longrightarrow>
      searchLocal ge (\<lambda>_. False) (posted shard) q (ss_repo s0) shard = Some (Returns (res, None)) \<and> ?lines shard res"
    using searchLocal_lines [OF ok] by blast
  then obtain out where out: "\<And>shard. shard \<in> set (ss_todo s0) \<Longrightarrow>
      searchLocal ge (\<lambda>_. False) (posted shard) q (ss_repo s0) shard = Some (Returns (out shard, None)) \<and>
      ?lines shard (out shard)"
    by metis
  then have answers: "shards_answer ge posted q (ss_repo s0) (ss_todo s0) out"
    by (simp add: shards_answer_def)
  note merged = search_merged [OF start answers run]
  then show "\<exists>s'. (search_step cfg env ge posted q)\<^sup>*\<^sup>* s s' \<and> search_returned s' \<and> \<not> ss_expired s'" by blast
  assume "search_returned s"
  with merged obtain fs where fs: "mset fs = mset (ss_todo s0)"
    "ss_resp s = fold SearchResult_Update (map (\<lambda>f. sent (ss_repo s0) (out f)) fs)
      (NewSearchResult\<lparr>sr_Repos := [(firstKey q, ss_repo s0)]\<rparr>)" by blast
  have set: "set fs = set (ss_todo s0)" using fs(1) by (rule mset_eq_setD)
  show "lines_found ge (r_Root (ss_repo s0)) P (firstKey q)
      (\<Union> (shard_files ge re pathre ` set (ss_todo s0))) (ss_resp s)"
    unfolding fs(2)
  proof (rule lines_found_merge)
    fix x assume "x \<in> set (map (\<lambda>f. sent (ss_repo s0) (out f)) fs)"
    then obtain f where "f \<in> set (ss_todo s0)" "x = sent (ss_repo s0) (out f)" using set by auto
    with out [of f] sent_lines show "\<exists>F \<in> shard_files ge re pathre ` set (ss_todo s0).
        lines_found ge (r_Root (ss_repo s0)) P (firstKey q) F x" by blast
  next
    fix F assume "F \<in> shard_files ge re pathre ` set (ss_todo s0)"
    then obtain f where "f \<in> set fs" "F = shard_files ge re pathre f" using set by auto
    with out [of f] sent_lines set show "\<exists>x \<in> set (map (\<lambda>f. sent (ss_repo s0) (out f)) fs).
        lines_found ge (r_Root (ss_repo s0)) P (firstKey q) F x" by (auto intro!: bexI [of _ f])
  qed (auto simp: sr_ok_def matches_ok_def NewSearchResult_def gm_ok_def match_at_def)
qed

text \<open>C7. A search of a repository finds its matching lines. When the expressions compile, the shards
  open and their files can be read, then in every interleaving of the shards' goroutines before
  the deadline the search can still return, and what it returns holds, under the repository's
  key, exactly the matching lines of the files that the shards' posting queries return and whose
  names pass the path expression, with their numbers and their text.\<close>

theorem search_finds_matching_lines:
  assumes "Search_start cfg env q d = Returns (Running s0)"
    and "searchable ge q re pathre P (r_Root (ss_repo s0)) (ss_todo s0)"
    and "(search_step cfg env ge posted q)\<^sup>*\<^sup>* s0 s" "\<not> ss_expired s"
  shows "(\<exists>s'. (search_step cfg env ge posted q)\<^sup>*\<^sup>* s s' \<and> search_returned s' \<and> \<not> ss_expired s') \<and>
    (search_returned s \<longrightarrow> (\<forall>f k l v. match_at (Search_reply elapsed s) (f, k, l) = Some v \<longleftrightarrow>
      k = firstKey q \<and> repo_lines ge re pathre P (ss_repo s0) f l v))"
proof -
  have "match_at (Search_reply elapsed s) = match_at (ss_resp s)"
    by (simp add: Search_reply_def match_at_def)
  then show ?thesis
    using run_lines [OF assms] Search_start_shards [OF assms(1)]
    by (auto simp: lines_found_def repo_lines_def)
qed

section \<open>From the indexed files\<close>

text \<open>The writer of the code-search index, of which \<open>log\<close> reads the names added so far.\<close>

definition writer_logs :: "('w, 'f, 't) index_env \<Rightarrow> ('w \<Rightarrow> string list) \<Rightarrow> bool" where
  "writer_logs env log \<longleftrightarrow> (\<forall>name f w. log (ie_add env name f w) = log w @ [name]) \<and>
     (\<forall>w. log (ie_flush env w) = log w)"

text \<open>Its reader, on an index file written with some names: for an expression that looks at single
  lines, a posting query returns some of the files added, and every one of them that has a matching
  line.\<close>

definition index_reads :: "('re, 'ix) grep_env \<Rightarrow> string \<Rightarrow> string \<Rightarrow> string list \<Rightarrow> bool" where
  "index_reads ge root ixfile names \<longleftrightarrow> (\<exists>ix. ge_index_open ge ixfile = Inr ix \<and>
     (\<forall>re P. line_matcher P (ge_match ge re) \<longrightarrow>
       ge_name ge ix ` set (ge_posting ge ix re) \<subseteq> set names \<and>
       (\<forall>f \<in> set names. (\<exists>l v. line_at ge root P f l v) \<longrightarrow> f \<in> ge_name ge ix ` set (ge_posting ge ix re))))"

lemma indexShard_log:
  "writer_logs env log \<Longrightarrow> (\<And>i. \<not> expired i) \<Longrightarrow>
    log (fst (indexShard env root expired i names w num)) = log w @ filter (openable env root) names"
  by (induction names arbitrary: i w num) (auto simp: openable_def writer_logs_def split: sum.splits)

lemma flushed_logs:
  assumes "writer_logs env log" "length ws = length sch" "\<forall>(taken, expired) \<in> set sch. \<forall>i. \<not> expired i"
    and "\<forall>w \<in> set ws. log (the w) = []"
  shows "map log (flush_shards env (run_shards env root ws sch)) = map (filter (openable env root) \<circ> fst) sch"
  using assms(2-4)
proof (induction ws sch rule: list_induct2)
  case (Cons w ws s sch)
  obtain taken expired where s: "s = (taken, expired)" by (cases s)
  with Cons.prems have "\<And>i. \<not> expired i" by auto
  from indexShard_log [where expired = expired, OF assms(1) this, of root 0 taken "the w" 0] Cons assms(1) show ?case
    by (auto simp: s flush_shards_def run_shards_def writer_logs_def case_prod_beta)
qed (simp add: flush_shards_def run_shards_def)

lemma indexed_shards:
  assumes "fair sched n names" "writer_logs env log" "\<forall>w \<in> set writers. log (the w) = []" "length writers = n"
    and "length files = n"
    and "list_all2 (\<lambda>file w. index_reads ge root file (log w)) files
      (flush_shards env (run_shards env root writers (sched n names)))"
  shows "\<exists>parts. set (concat parts) = {f \<in> set names. openable env root f} \<and> list_all2 (index_reads ge root) files parts"
proof -
  have fair: "length (sched n names) = n" "\<forall>(taken, expired) \<in> set (sched n names). \<forall>i. \<not> expired i"
    "mset (concat (map fst (sched n names))) = mset names"
    using assms(1) by (auto simp: fair_def)
  let ?parts = "map (filter (openable env root) \<circ> fst) (sched n names)"
  have "map log (flush_shards env (run_shards env root writers (sched n names))) = ?parts"
    using flushed_logs [OF assms(2) _ fair(2) assms(3)] fair(1) assms(4) by simp
  then have "list_all2 (index_reads ge root) files ?parts"
    using assms(6) by (metis list_all2_map2)
  moreover have "set (concat ?parts) = {f \<in> set names. openable env root f}"
    using mset_eq_setD [OF fair(3)] by auto
  ultimately show ?thesis by blast
qed

text \<open>The files that the index files of a repository were written with, readable where they are.\<close>

definition repo_indexed :: "('re, 'ix) grep_env \<Rightarrow> repo \<Rightarrow> string set \<Rightarrow> bool" where
  "repo_indexed ge r fs \<longleftrightarrow> (\<exists>shards parts. Shards r = Returns shards \<and> list_all2 (index_reads ge (r_Root r)) shards parts \<and>
     fs = set (concat parts) \<and> (\<forall>f \<in> fs. readable ge (r_Root r) f))"

text \<open>A query whose expressions compile, that looks at single lines, and asks for no context.\<close>

definition runnable ::
  "('re, 'ix) grep_env \<Rightarrow> search_query \<Rightarrow> 're \<Rightarrow> 're option \<Rightarrow> (string \<Rightarrow> bool) \<Rightarrow> bool" where
  "runnable ge q re pathre P \<longleftrightarrow> buildRegexps (ge_compile ge) q = (Some re, pathre, None) \<and>
     line_matcher P (ge_match ge re) \<and> sq_Context q = \<lparr>sc_Both = 0, sc_Pre = 0, sc_Post = 0\<rparr>"

lemma indexed_repo_lines:
  assumes "Shards repo = Returns files" "list_all2 (index_reads ge (r_Root repo)) files parts"
    and "line_matcher P (ge_match ge re)"
  shows "repo_lines ge re pathre P repo f l v \<longleftrightarrow>
    f \<in> set (concat parts) \<and> path_ok ge pathre f \<and> line_at ge (r_Root repo) P f l v"
    and "shard \<in> set files \<Longrightarrow> \<exists>ix. ge_index_open ge shard = Inr ix"
    and "shard \<in> set files \<Longrightarrow> shard_files ge re pathre shard \<subseteq> set (concat parts)"
proof -
  have reads: "\<exists>part \<in> set parts. index_reads ge (r_Root repo) shard part" if "shard \<in> set files" for shard
    using that assms(2) by (metis in_set_conv_nth list_all2_conv_all_nth)
  have read_by: "\<exists>shard \<in> set files. index_reads ge (r_Root repo) shard part" if "part \<in> set parts" for part
    using that assms(2) by (metis in_set_conv_nth list_all2_conv_all_nth)
  show "\<exists>ix. ge_index_open ge shard = Inr ix" if "shard \<in> set files" for shard
    using reads [OF that] by (auto simp: index_reads_def)
  have sub: "shard_files ge re pathre shard \<subseteq> {f \<in> set (concat parts). path_ok ge pathre f}" if "shard \<in> set files" for shard
    using reads [OF that] assms(3) by (fastforce simp: index_reads_def shard_files_def candidates_def)
  then show "shard_files ge re pathre shard \<subseteq> set (concat parts)" if "shard \<in> set files" for shard
    using that by blast
  have "\<exists>shard \<in> set files. f \<in> shard_files ge re pathre shard"
    if f: "f \<in> set (concat parts)" "path_ok ge pathre f" "line_at ge (r_Root repo) P f l v"
  proof -
    obtain part where part: "part \<in> set parts" "f \<in> set part" using f(1) by auto
    then obtain shard where "shard \<in> set files" "index_reads ge (r_Root repo) shard part" using read_by by blast
    moreover from this part(2) f(2,3) assms(3) have "f \<in> shard_files ge re pathre shard"
      by (fastforce simp: index_reads_def shard_files_def candidates_def)
    ultimately show ?thesis by blast
  qed
  with sub show "repo_lines ge re pathre P repo f l v \<longleftrightarrow>
      f \<in> set (concat parts) \<and> path_ok ge pathre f \<and> line_at ge (r_Root repo) P f l v"
    unfolding repo_lines_def assms(1) by blast
qed

lemma repo_indexed_lines:
  assumes "repo_indexed ge r fs" "runnable ge q re pathre P"
  shows "repo_lines ge re pathre P r f l v \<longleftrightarrow> f \<in> fs \<and> path_ok ge pathre f \<and> line_at ge (r_Root r) P f l v"
    and "Shards r = Returns shards \<Longrightarrow> searchable ge q re pathre P (r_Root r) shards"
proof -
  have match: "line_matcher P (ge_match ge re)" using assms(2) by (simp add: runnable_def)
  obtain shards' parts where parts: "Shards r = Returns shards'" "list_all2 (index_reads ge (r_Root r)) shards' parts"
    "fs = set (concat parts)" "\<forall>f \<in> fs. readable ge (r_Root r) f"
    using assms(1) unfolding repo_indexed_def by blast
  note lines = indexed_repo_lines [OF parts(1,2) match, folded parts(3)]
  show "repo_lines ge re pathre P r f l v \<longleftrightarrow> f \<in> fs \<and> path_ok ge pathre f \<and> line_at ge (r_Root r) P f l v"
    by (rule lines(1))
  show "searchable ge q re pathre P (r_Root r) shards" if "Shards r = Returns shards"
  proof -
    have "shards = shards'" using that parts(1) by simp
    then show ?thesis using lines(2,3) parts(4) assms(2) unfolding searchable_def runnable_def by blast
  qed
qed

text \<open>What the indexer makes is such a repository.\<close>

lemma Index_repo_indexed:
  assumes "IndexQuery_Normalize order req = Inr req'" "c_IndexInRepo cfg" "getRoot cfg req' = (rt, gq)"
    and "0 \<le> c_NumShards cfg" "n = nat (if c_NumShards cfg = 0 then 1 else min (c_NumShards cfg) 32)"
    and "files = map (\<lambda>i. path_Join [rt, shardName (iq_Key req) (int i)]) [0..<n]"
    and "create_shards env files = Inr writers"
    and "scanner fuel (ie_walkfs env rt) (ie_art env) gq = Some (names, scanerr)" "fair sched n names"
    and "Index cfg env order fuel sched None elapsed now req
      = Some (Returns (\<lparr>ir_Repo = Some repo, ir_Error = None\<rparr>, None))"
    and "writer_logs env log" "\<forall>w \<in> set writers. log (the w) = []"
    and "list_all2 (\<lambda>file w. index_reads ge rt file (log w)) files
      (flush_shards env (run_shards env rt writers (sched n names)))"
    and "\<forall>f \<in> set names. openable env rt f \<longrightarrow> readable ge rt f"
  shows "r_Root repo = rt" "Shards repo = Returns files" "repo_indexed ge repo {f \<in> set names. openable env rt f}"
proof -
  show built: "Shards repo = Returns files" "r_Root repo = rt"
    using Index_built [OF assms(1,3-9), of elapsed now] assms(1-3,10)
    by (auto simp: getRoot_def IndexQuery_Normalize_def split: if_splits sum.splits)
  have len: "length writers = n" "length files = n"
    using create_shards_length [OF assms(7)] assms(6) by simp_all
  obtain parts where "set (concat parts) = {f \<in> set names. openable env rt f}"
    "list_all2 (index_reads ge rt) files parts"
    using indexed_shards [OF assms(9,11,12) len assms(13)] by blast
  then show "repo_indexed ge repo {f \<in> set names. openable env rt f}"
    using assms(14) by (auto simp: repo_indexed_def built)
qed

text \<open>C2. What was indexed is found. A valid request is indexed into its own root, in time, by shards
  that share out the scanned names; then a search of the repository it made returns, in every
  interleaving before its deadline, exactly the lines on which the expression matches in the files
  that the scan found, that could be opened, and whose names pass the path expression. That needs
  a code-search index that names every added file in which a line matches, and no other.\<close>

theorem indexed_lines_are_found:
  assumes "IndexQuery_Normalize order req = Inr req'" "c_IndexInRepo cfg" "getRoot cfg req' = (rt, gq)"
    and "0 \<le> c_NumShards cfg" "n = nat (if c_NumShards cfg = 0 then 1 else min (c_NumShards cfg) 32)"
    and "files = map (\<lambda>i. path_Join [rt, shardName (iq_Key req) (int i)]) [0..<n]"
    and "create_shards env files = Inr writers"
    and "scanner fuel (ie_walkfs env rt) (ie_art env) gq = Some (names, scanerr)" "fair sched n names"
    and "Index cfg env order fuel sched None elapsed now req
      = Some (Returns (\<lparr>ir_Repo = Some repo, ir_Error = None\<rparr>, None))"
    and "writer_logs env log" "\<forall>w \<in> set writers. log (the w) = []"
    and "list_all2 (\<lambda>file w. index_reads ge rt file (log w)) files
      (flush_shards env (run_shards env rt writers (sched n names)))"
    and "\<forall>f \<in> set names. openable env rt f \<longrightarrow> readable ge rt f"
    and "buildRegexps (ge_compile ge) q = (Some re, pathre, None)" "line_matcher P (ge_match ge re)"
    and "sq_Context q = \<lparr>sc_Both = 0, sc_Pre = 0, sc_Post = 0\<rparr>"
    and "db_Get d (firstKey q) = Some repo" "Search_start scfg senv q d = Returns (Running s0)"
    and "(search_step scfg senv ge posted q)\<^sup>*\<^sup>* s0 s" "\<not> ss_expired s"
  shows "(\<exists>s'. (search_step scfg senv ge posted q)\<^sup>*\<^sup>* s s' \<and> search_returned s' \<and> \<not> ss_expired s') \<and>
    (search_returned s \<longrightarrow> (\<forall>f k l v. match_at (Search_reply dt s) (f, k, l) = Some v \<longleftrightarrow>
      k = firstKey q \<and> f \<in> set names \<and> openable env rt f \<and> path_ok ge pathre f \<and> line_at ge rt P f l v))"
proof -
  note repo = Index_repo_indexed [OF assms(1-14)]
  have "runnable ge q re pathre P" using assms(15-17) by (simp add: runnable_def)
  note lines = repo_indexed_lines [OF repo(3) this, unfolded repo(1)]
  have s0: "ss_repo s0 = repo" "ss_todo s0 = files"
    using Search_start_shards [OF assms(19)] assms(18) repo(2) by simp_all
  have "searchable ge q re pathre P (r_Root (ss_repo s0)) (ss_todo s0)"
    unfolding s0 repo(1) by (rule lines(2) [OF repo(2)])
  note run = run_lines [OF assms(19) this assms(20,21)]
  have "match_at (Search_reply dt s) = match_at (ss_resp s)"
    by (simp add: Search_reply_def match_at_def)
  moreover have "Shards (ss_repo s0) = Returns (ss_todo s0)" by (simp add: s0 repo)
  ultimately show ?thesis
    using run lines(1) by (auto simp: lines_found_def s0 repo repo_lines_def)
qed

section \<open>Several hosts\<close>

text \<open>A daemon whose searcher is the search of \<open>afind/search.go\<close> over the index files of its disk: for
  the repositories it keeps, a run of \<open>search_step\<close> that returns in time gives the answer.\<close>

definition searches_with ::
  "('c node \<Rightarrow> ('re, 'ix) grep_env) \<Rightarrow> (string \<Rightarrow> duration) \<Rightarrow> search_query \<Rightarrow> 'c node \<Rightarrow> bool" where
  "searches_with ge posted q nd \<longleftrightarrow> (\<forall>key meta. kept nd key \<longrightarrow>
     (\<exists>s0 s elapsed. Search_start (nd_cfg nd) (nd_env nd) (asks q meta [key]) (nd_db nd) = Returns (Running s0) \<and>
       (search_step (nd_cfg nd) (nd_env nd) (ge nd) posted (asks q meta [key]))\<^sup>*\<^sup>* s0 s \<and>
       \<not> ss_expired s \<and> search_returned s \<and>
       nd_search nd (asks q meta [key]) = (Search_reply elapsed s, None)))"

definition all_searchable ::
  "('c node \<Rightarrow> ('re, 'ix) grep_env) \<Rightarrow> search_query \<Rightarrow> 're \<Rightarrow> 're option \<Rightarrow> (string \<Rightarrow> bool) \<Rightarrow> 'c node \<Rightarrow> bool" where
  "all_searchable ge q re pathre P nd \<longleftrightarrow> (\<forall>key r shards. kept nd key \<and> db_Get (nd_db nd) key = Some r \<and>
     Shards r = Returns shards \<longrightarrow> searchable (ge nd) q re pathre P (r_Root r) shards)"

lemma buildRegexps_asks: "buildRegexps compile (asks q meta keys) = buildRegexps compile q"
  by (simp add: buildRegexps_def Let_def)

lemma searchable_asks: "searchable ge (asks q meta keys) re pathre P root shards = searchable ge q re pathre P root shards"
  by (simp add: searchable_def buildRegexps_asks)

lemma node_lines:
  assumes "searches_with ge posted q nd" "all_searchable ge q re pathre P nd" "kept nd key"
    and "db_Get (nd_db nd) key = Some r"
  shows "\<exists>F. lines_found (ge nd) (r_Root r) P key F (fst (nd_search nd (asks q meta [key]))) \<and>
    (\<forall>f l v. repo_lines (ge nd) re pathre P r f l v \<longleftrightarrow> f \<in> F \<and> line_at (ge nd) (r_Root r) P f l v)"
proof -
  obtain s0 s elapsed where run: "Search_start (nd_cfg nd) (nd_env nd) (asks q meta [key]) (nd_db nd) = Returns (Running s0)"
    "(search_step (nd_cfg nd) (nd_env nd) (ge nd) posted (asks q meta [key]))\<^sup>*\<^sup>* s0 s"
    "\<not> ss_expired s" "search_returned s" "nd_search nd (asks q meta [key]) = (Search_reply elapsed s, None)"
    using assms(1,3) unfolding searches_with_def by meson
  have key: "firstKey (asks q meta [key]) = key" by (simp add: firstKey_def)
  have r: "ss_repo s0 = r" "Shards r = Returns (ss_todo s0)"
    using Search_start_shards [OF run(1)] assms(4) unfolding key by simp_all
  then have "searchable (ge nd) (asks q meta [key]) re pathre P (r_Root (ss_repo s0)) (ss_todo s0)"
    using assms(2-4) by (simp add: all_searchable_def searchable_asks)
  from run_lines(2) [OF run(1) this run(2-4)]
  have "lines_found (ge nd) (r_Root r) P key (\<Union> (shard_files (ge nd) re pathre ` set (ss_todo s0))) (ss_resp s)"
    by (simp add: key r)
  then have "lines_found (ge nd) (r_Root r) P key (\<Union> (shard_files (ge nd) re pathre ` set (ss_todo s0)))
      (fst (nd_search nd (asks q meta [key])))"
    by (simp add: run(5) lines_found_def Search_reply_def sr_ok_def match_at_def gm_ok_def case_prod_beta o_def)
  then show ?thesis
    using r(2) by (intro exI [of _ "\<Union> (shard_files (ge nd) re pathre ` set (ss_todo s0))"])
      (auto simp: repo_lines_def)
qed

lemma node_match_at:
  assumes "searches_with ge posted q nd" "all_searchable ge q re pathre P nd" "kept nd key"
    and "db_Get (nd_db nd) key = Some r"
  shows "match_at (fst (nd_search nd (asks q meta [key]))) (f, k, l) = Some v \<longleftrightarrow>
    k = key \<and> repo_lines (ge nd) re pathre P r f l v"
  using node_lines [OF assms, of meta] by (auto simp: lines_found_def)

lemma found_lines:
  assumes "searches_with ge posted q nd" "all_searchable ge q re pathre P nd" "kept nd key"
    and "db_Get (nd_db nd) key = Some r"
  shows "found q nd key (f, k, l) = Some v \<longleftrightarrow> k = key \<and> repo_lines (ge nd) re pathre P r f l v"
proof -
  have "q\<lparr>sq_RepoKeys := [key]\<rparr> = asks q (sq_Meta q) [key]" by (cases q) simp
  then show ?thesis unfolding found_def by (simp only: node_match_at [OF assms])
qed

lemma node_searcher_ok:
  assumes "searches_with ge posted q nd" "all_searchable ge q re pathre P nd"
  shows "searcher_ok q nd"
  unfolding searcher_ok_def Let_def
proof (intro allI impI)
  fix key meta assume kept: "kept nd key"
  then obtain r where r: "db_Get (nd_db nd) key = Some r" by (auto simp: kept_def)
  let ?sr = "fst (nd_search nd (asks q meta [key]))"
  note at = node_match_at [OF assms kept r, of meta] and found = found_lines [OF assms kept r]
  have "match_at ?sr p = found q nd key p" for p
  proof (cases p)
    case (fields f k l)
    then show ?thesis by (intro option_eqI) (simp add: at found)
  qed
  moreover have "found q nd key (f, k, l) = None" if "k \<noteq> key" for f k l
    using found [of f k l] that by (cases "found q nd key (f, k, l)") auto
  ultimately show "sr_ok ?sr \<and> match_at ?sr = found q nd key \<and>
      (\<forall>f k l. k \<noteq> key \<longrightarrow> found q nd key (f, k, l) = None)"
    using node_lines [OF assms kept r, of meta] by (auto simp: lines_found_def)
qed

text \<open>Daemons that keep their databases sound and search with the code's searcher, a query that they can
  run, and repositories on their disks of which the index files were written with \<open>files\<close>.\<close>

definition searching_network ::
  "('c node \<Rightarrow> ('re, 'ix) grep_env) \<Rightarrow> (string \<Rightarrow> duration) \<Rightarrow> ('c node \<Rightarrow> string \<Rightarrow> string set) \<Rightarrow>
   search_query \<Rightarrow> 're \<Rightarrow> 're option \<Rightarrow> (string \<Rightarrow> bool) \<Rightarrow> 'c node set \<Rightarrow> bool" where
  "searching_network ge posted files q re pathre P nodes \<longleftrightarrow>
     (\<forall>nd \<in> nodes. node_ok nd \<and> searches_with ge posted q nd \<and> runnable (ge nd) q re pathre P \<and>
       (\<forall>key r. kept nd key \<and> db_Get (nd_db nd) key = Some r \<longrightarrow> repo_indexed (ge nd) r (files nd key)))"

text \<open>The lines, by file, repository, number and text, on which the expression matches in the files of
  some repositories, each on its owner's disk.\<close>

type_synonym text_line = "string \<times> string \<times> string \<times> string"

definition disk_lines ::
  "('c node \<Rightarrow> ('re, 'ix) grep_env) \<Rightarrow> ('c node \<Rightarrow> string \<Rightarrow> string set) \<Rightarrow> 're option \<Rightarrow> (string \<Rightarrow> bool) \<Rightarrow>
   (string \<Rightarrow> 'c node) \<Rightarrow> string set \<Rightarrow> text_line set" where
  "disk_lines ge files pathre P own K = {(f, k, l, v). k \<in> K \<and> f \<in> files (own k) k \<and> path_ok (ge (own k)) pathre f \<and>
     (\<exists>r. db_Get (nd_db (own k)) k = Some r \<and> line_at (ge (own k)) (r_Root r) P f l v)}"

definition result_lines :: "search_result \<Rightarrow> text_line set" where
  "result_lines sr = {(f, k, l, v). match_at sr (f, k, l) = Some v}"

lemma card_result_lines: "card (result_lines sr) = card (dom (match_at sr))"
proof (rule bij_betw_same_card)
  show "bij_betw (\<lambda>(f, k, l, v). (f, k, l)) (result_lines sr) (dom (match_at sr))"
    by (force simp: bij_betw_def inj_on_def result_lines_def image_iff)
qed

lemma network_lines:
  assumes "searching_network ge posted files q re pathre P nodes" "nd \<in> nodes" "kept nd k"
  shows "found q nd k (f, k, l) = Some v \<longleftrightarrow> f \<in> files nd k \<and> path_ok (ge nd) pathre f \<and>
    (\<exists>r. db_Get (nd_db nd) k = Some r \<and> line_at (ge nd) (r_Root r) P f l v)"
    and "searcher_ok q nd"
proof -
  have nd: "searches_with ge posted q nd" "runnable (ge nd) q re pathre P"
    "\<And>key r. kept nd key \<Longrightarrow> db_Get (nd_db nd) key = Some r \<Longrightarrow> repo_indexed (ge nd) r (files nd key)"
    using assms(1,2) unfolding searching_network_def by blast+
  then have all: "all_searchable ge q re pathre P nd"
    using repo_indexed_lines(2) by (fastforce simp: all_searchable_def)
  with nd(1) show "searcher_ok q nd" by (rule node_searcher_ok)
  obtain r where r: "db_Get (nd_db nd) k = Some r" using assms(3) by (auto simp: kept_def)
  show "found q nd k (f, k, l) = Some v \<longleftrightarrow> f \<in> files nd k \<and> path_ok (ge nd) pathre f \<and>
      (\<exists>r. db_Get (nd_db nd) k = Some r \<and> line_at (ge nd) (r_Root r) P f l v)"
    using found_lines [OF nd(1) all assms(3) r] repo_indexed_lines(1) [OF nd(3) [OF assms(3) r] nd(2)] r by simp
qed

text \<open>The answer of a network of such daemons.\<close>

lemma network_answer:
  assumes "SearchQuery_Normalize q = None" "sq_MaxMatches q = 0 \<or> distinct (sq_RepoKeys q)"
    and nodes: "searching_network ge posted files q re pathre P (insert nd (ran net))"
    and "0 < n" "\<forall>r \<in> set (selected nd q). owner n net nd (r_Key r) = Some (own (r_Key r))"
    and expected: "expected = disk_lines ge files pathre P own (r_Key ` set (selected nd q))"
  shows "\<exists>sr. serve_search n net nd q = Some sr \<and> sr_ok sr \<and> result_lines sr \<subseteq> expected \<and>
    (result_lines sr = expected \<or> 0 < sq_MaxMatches q \<and> unat (sq_MaxMatches q) \<le> card (result_lines sr))"
proof -
  let ?e = "part line_repo (r_Key ` set (selected nd q)) (\<lambda>k. found q (own k) k)"
  have searcher: "node_ok nd' \<and> searcher_ok q nd'" if "nd' \<in> insert nd (ran net)" for nd'
  proof -
    from nodes that have "node_ok nd'" unfolding searching_network_def by blast
    moreover have "searcher_ok q nd'"
    proof (cases "\<exists>k. kept nd' k")
      case True
      then show ?thesis using network_lines(2) [OF nodes that] by blast
    qed (simp add: searcher_ok_def)
    ultimately show ?thesis by simp
  qed
  then have "network_ok q net" "node_ok nd" "searcher_ok q nd" by (auto simp: network_ok_def intro: ranI)
  from serve_lines [OF assms(1,2) this assms(4,5)] obtain sr where
    sr: "serve_search n net nd q = Some sr" "answers_query q (r_Key ` set (selected nd q)) (\<lambda>k. found q (own k) k) sr" by blast
  have "?e (f, k, l) = Some v \<longleftrightarrow> (f, k, l, v) \<in> expected" for f k l v
  proof (cases "k \<in> r_Key ` set (selected nd q)")
    case True
    then have owner: "owner n net nd k = Some (own k)" using assms(5) by auto
    show ?thesis
      using True network_lines(1) [OF nodes _ owner_kept [OF owner], of f l v] owner_node [OF owner]
      by (simp add: part_def expected disk_lines_def)
  qed (simp add: part_def expected disk_lines_def)
  then have expected: "expected = {(f, k, l, v). ?e (f, k, l) = Some v}" by auto
  have "result_lines sr \<subseteq> expected" if "match_at sr \<subseteq>\<^sub>m ?e"
    using that by (force simp: result_lines_def expected map_le_def dom_def)
  moreover have "result_lines sr = expected" if "match_at sr = ?e" by (simp add: result_lines_def expected that)
  ultimately show ?thesis using sr unfolding answers_query_def card_result_lines by blast
qed

text \<open>C3. A search over several hosts finds the matching lines of their files. A daemon asked to search
  answers, when each repository that the query selects has an owner among the daemons and these
  search their index files in time, with the matching lines of the selected repositories: for each,
  those of the files that its index on its owner's disk was written with and whose names pass the
  path expression; however many daemons the request is passed through, and in whatever order hosts
  are asked, goroutines run and results arrive. Without a limit on matches these are all in the answer;
  with one, which takes that no key is given twice, they are all in it or it has no fewer lines than
  the limit; no other line ever is. The query asks for no context lines, and a limit of a daemon on
  backend requests is no less than the number of hosts it knows of; the indexed files can be read
  to their end; and the code-search index names every one of them in which a line matches, and no
  other file.\<close>

theorem network_search_is_exact:
  assumes "SearchQuery_Normalize q = None" "sq_MaxMatches q = 0 \<or> distinct (sq_RepoKeys q)"
    and nodes: "searching_network ge posted files q re pathre P (insert nd (ran net))"
    and "0 < n" "\<forall>r \<in> set (selected nd q). owner n net nd (r_Key r) = Some (own (r_Key r))"
    and expected: "expected = disk_lines ge files pathre P own (r_Key ` set (selected nd q))"
  shows "\<exists>sr. serve_search n net nd q = Some sr \<and> sr_ok sr \<and> result_lines sr \<subseteq> expected \<and>
    (result_lines sr = expected \<or> 0 < sq_MaxMatches q \<and> unat (sq_MaxMatches q) \<le> card (result_lines sr))"
  using assms by (rule network_answer)

section \<open>Instances\<close>

text \<open>A file of two lines, the second of which the query looks for; and the environment that has it.\<close>

definition two_lines :: string where
  "two_lines = ''ac'' @ [nl] @ ''abc''"

abbreviation two_env :: "(string, string list) grep_env" where
  "two_env \<equiv> tiny_env [(''a'', two_lines)]"

abbreviation has_abc :: "string \<Rightarrow> bool" where
  "has_abc l \<equiv> sublist ''abc'' l"

lemma two_env_query:
  "buildRegexps (ge_compile two_env) (NewSearchQuery ''abc'' '''' False keys) = (Some ''(?m)abc'', None, None)"
  "line_matcher has_abc (ge_match two_env ''(?m)abc'')"
  by (simp_all add: buildRegexps_def tiny_env_def NewSearchQuery_def line_matcher_def)

lemma one_query_env:
  "buildRegexps (ge_compile two_env) one_query = (Some ''(?m)abc'', None, None)" "firstKey one_query = ''k''"
  "sq_Context one_query = \<lparr>sc_Both = 0, sc_Pre = 0, sc_Post = 0\<rparr>"
  using two_env_query(1) by (simp_all add: one_query_def firstKey_def NewSearchQuery_def)

lemma two_env_lines: "file_lines two_env root ''a'' = [''ac'' @ [nl], ''abc'']"
  by (simp add: file_lines_def tiny_env_def two_lines_def nl_def)

lemma two_env_readable: "readable two_env root ''a''"
  by (simp add: readable_def tiny_env_def two_lines_def fits_def bufSize_def strip_def nl_def)

lemma two_env_line_at: "line_at two_env root has_abc ''a'' ''2'' ''abc''"
proof -
  have "Itoa (int 1 + 1) = ''2''" by code_simp
  then show ?thesis
    unfolding line_at_def two_env_lines by (intro exI [of _ 1]) (simp add: strip_def nl_def sublist_code)
qed

lemma two_env_files: "shard_files two_env ''(?m)abc'' None shard = {''a''}"
  by (simp add: shard_files_def candidates_def path_ok_def tiny_env_def)

lemma two_env_searchable:
  "searchable two_env (NewSearchQuery ''abc'' '''' False keys) ''(?m)abc'' None has_abc root shards"
proof -
  have "\<exists>ix. ge_index_open two_env shard = Inr ix" for shard by (simp add: tiny_env_def)
  then show ?thesis
    using two_env_query(1) [of keys] two_env_query(2) by (simp add: searchable_def two_env_files two_env_readable NewSearchQuery_def)
qed

lemma two_env_repo_lines:
  "Shards r = Returns shards \<Longrightarrow> shards \<noteq> [] \<Longrightarrow>
    repo_lines two_env ''(?m)abc'' None has_abc r ''a'' ''2'' ''abc''"
  by (auto simp: repo_lines_def two_env_files two_env_line_at neq_Nil_conv)

lemma one_repo_run:
  "\<exists>s0. Search_start zero_config plain_env one_query one_db = Returns (Running s0) \<and>
    firstKey one_query = ''k'' \<and> ss_repo s0 = one_repo \<and> ss_todo s0 \<noteq> [] \<and> \<not> ss_expired s0"
  using one_start by (auto simp: one_query_def NewSearchQuery_def firstKey_def)

lemma search_finds_matching_lines_witness:
  "\<exists>s0 s. Search_start zero_config plain_env one_query one_db = Returns (Running s0) \<and>
    (search_step zero_config plain_env two_env (\<lambda>_. 0) one_query)\<^sup>*\<^sup>* s0 s \<and> search_returned s \<and>
    match_at (Search_reply 0 s) (''a'', ''k'', ''2'') = Some ''abc''"
proof -
  obtain s0 where s0: "Search_start zero_config plain_env one_query one_db = Returns (Running s0)"
    "firstKey one_query = ''k''" "ss_todo s0 \<noteq> []" "\<not> ss_expired s0"
    using one_repo_run by blast
  have ok: "searchable two_env one_query ''(?m)abc'' None has_abc (r_Root (ss_repo s0)) (ss_todo s0)"
    unfolding one_query_def by (rule two_env_searchable)
  obtain s where s: "(search_step zero_config plain_env two_env (\<lambda>_. 0) one_query)\<^sup>*\<^sup>* s0 s"
    "search_returned s" "\<not> ss_expired s"
    using search_finds_matching_lines [OF s0(1) ok rtranclp.rtrancl_refl s0(4)] by blast
  have "repo_lines two_env ''(?m)abc'' None has_abc (ss_repo s0) ''a'' ''2'' ''abc''"
    using Search_start_shards(2) [OF s0(1)] s0(3) by (rule two_env_repo_lines)
  then have "match_at (Search_reply 0 s) (''a'', ''k'', ''2'') = Some ''abc''"
    using search_finds_matching_lines [OF s0(1) ok s(1,3), where elapsed = 0] s(2) s0(2) by simp
  with s0(1) s show ?thesis by blast
qed

lemma indexed_lines_are_found_witness:
  "\<exists>repo d s0 s. Index in_repo_config tiny_index_env (\<lambda>xs. xs) 2 one_shard None 0 0 tiny_index_request
      = Some (Returns (\<lparr>ir_Repo = Some repo, ir_Error = None\<rparr>, None)) \<and> db_Get d ''k'' = Some repo \<and>
    Search_start zero_config plain_env one_query d = Returns (Running s0) \<and>
    (search_step zero_config plain_env two_env (\<lambda>_. 0) one_query)\<^sup>*\<^sup>* s0 s \<and> search_returned s \<and>
    match_at (Search_reply 0 s) (''a'', ''k'', ''2'') = Some ''abc'' \<and>
    match_at (Search_reply 0 s) (''b'', ''k'', ''1'') = None"
proof -
  let ?fs = "map (\<lambda>i. path_Join [''/src'', shardName (iq_Key tiny_index_request) (int i)]) [0..<1]"
  have key: "iq_Key tiny_index_request = ''k''" by (simp add: tiny_index_request_def NewIndexQuery_def)
  obtain repo where repo: "Index in_repo_config tiny_index_env (\<lambda>xs. xs) 2 one_shard None 0 0 tiny_index_request
      = Some (Returns (\<lparr>ir_Repo = Some repo, ir_Error = None\<rparr>, None))" "r_State repo = st_OK"
      "Shards repo = Returns ?fs"
    using Index_built [OF tiny_index_ready(1-4) refl tiny_index_ready(5-7), of 0 0] by auto
  let ?d = "\<lparr>db_R = [(''k'', repo)], db_bfn = '''', db_bs = False, db_files = \<lambda>_. None :: (string, repo) gomap option\<rparr>"
  have q: "firstKey one_query = ''k''" by (simp add: one_query_def NewSearchQuery_def firstKey_def)
  have get: "db_Get ?d (firstKey one_query) = Some repo" by (simp add: q db_Get_map)
  obtain s0 where s0: "Search_start zero_config plain_env one_query ?d = Returns (Running s0)" "\<not> ss_expired s0"
    using get repo(2,3) by (simp add: Search_start_def Let_def q)
  have open_a: "openable tiny_index_env root name = (name = ''a'')" for root name
    by (simp add: openable_def tiny_index_env_def)
  have logs: "writer_logs tiny_index_env (\<lambda>w. w)" by (simp add: writer_logs_def tiny_index_env_def)
  have "flush_shards tiny_index_env (run_shards tiny_index_env ''/src'' [Some []] (one_shard 1 [''a'', ''b''])) = [[''a'']]"
    by (simp add: flush_shards_def run_shards_def tiny_index_env_def)
  moreover have "index_reads two_env ''/src'' fname [''a'']" for fname
    by (simp add: index_reads_def tiny_env_def)
  ultimately have reads: "list_all2 (\<lambda>file w. index_reads two_env ''/src'' file w) ?fs
      (flush_shards tiny_index_env (run_shards tiny_index_env ''/src'' [Some []] (one_shard 1 [''a'', ''b''])))"
    by simp
  have misc: "c_IndexInRepo in_repo_config" "\<forall>w \<in> set [Some []]. the w = []"
    "\<forall>f \<in> set [''a'', ''b'']. openable tiny_index_env ''/src'' f \<longrightarrow> readable two_env ''/src'' f"
    by (simp_all add: open_a two_env_readable)
  note found = indexed_lines_are_found [OF tiny_index_ready(1) misc(1) tiny_index_ready(2-4) refl tiny_index_ready(5-7)
      repo(1) logs misc(2) reads misc(3) one_query_env(1) two_env_query(2) one_query_env(3) get s0(1)]
  obtain s where s: "(search_step zero_config plain_env two_env (\<lambda>_. 0) one_query)\<^sup>*\<^sup>* s0 s"
    "search_returned s" "\<not> ss_expired s"
    using found [OF rtranclp.rtrancl_refl s0(2)] by blast
  have at: "match_at (Search_reply 0 s) (f, k, l) = Some v \<longleftrightarrow>
      k = ''k'' \<and> f = ''a'' \<and> path_ok two_env None f \<and> line_at two_env ''/src'' has_abc f l v" for f k l v
    using found [OF s(1,3), where dt = 0] s(2) by (auto simp: open_a q)
  have "match_at (Search_reply 0 s) (''a'', ''k'', ''2'') = Some ''abc''"
    unfolding at using two_env_line_at by (simp add: path_ok_def)
  moreover have "match_at (Search_reply 0 s) (''b'', ''k'', ''1'') = None"
    using at [of "''b''"] by (intro option_eqI) simp
  ultimately show ?thesis using repo(1) get s0(1) s q by (intro exI conjI) auto
qed

text \<open>A daemon with one repository on its disk, under a host, and with the limit on backend requests that
  \<open>afindd\<close> sets; what its searcher answers may depend on the metadata of the query.\<close>

definition disk_repo :: "string \<Rightarrow> repo" where
  "disk_repo host = one_repo\<lparr>r_Meta := [(''host'', host)]\<rparr>"

abbreviation disk_config :: config where
  "disk_config \<equiv> zero_config\<lparr>c_MaxSearchReqBe := 300\<rparr>"

definition disk_node :: "string \<Rightarrow> string \<Rightarrow> (meta \<Rightarrow> search_result) \<Rightarrow> (string, repo) gomap node" where
  "disk_node hostname host answer = (tiny_node hostname host)\<lparr>
     nd_cfg := disk_config, nd_db := \<lparr>db_R = [(''k'', disk_repo host)], db_bfn = '''', db_bs = False, db_files = (\<lambda>_. None)\<rparr>,
     nd_search := (\<lambda>q. (answer (sq_Meta q), None))\<rparr>"

lemma disk_node_ok: "hostname \<noteq> '''' \<Longrightarrow> node_ok (disk_node hostname host answer)"
  by (simp add: node_ok_def disk_node_def tiny_node_def db_ok_def gm_ok_def db_keyed_def db_Get_map
      disk_repo_def one_repo_def few_hosts_def)

lemma disk_node_get: "db_Get (nd_db (disk_node hostname host answer)) key =
    (if key = ''k'' then Some (disk_repo host) else None)"
  by (simp add: disk_node_def db_Get_map)

lemma disk_keeps_local: "hostname \<noteq> '''' \<Longrightarrow> keeps_local (disk_node hostname host answer) h =
    (h \<in> set localHostnames \<or> h = hostname \<or> HasPrefix hostname (h @ ''.''))"
  using isLocal_states(1) [of "Some hostname" disk_config hostname _ disk_config]
  by (auto simp: keeps_local_def disk_node_def tiny_node_def Config_Host_def zero_config_def gm_str_def Let_def)

lemma disk_repo_fields: "Host (disk_repo host) = host" "r_State (disk_repo host) = st_OK" "r_Key (disk_repo host) = ''k''"
  by (simp_all add: disk_repo_def one_repo_def Host_def Meta_Host_def gm_str_def)

lemma disk_Shards: "\<exists>shard. Shards (disk_repo host) = Returns [shard]"
  by (simp add: disk_repo_def one_repo_def NewRepo_def Shards_def)

lemma disk_kept: "kept (disk_node ''b'' '''' answer) key = (key = ''k'')" "\<not> kept (disk_node ''a'' ''b'' answer) key"
  using disk_keeps_local [of "''b''" "''''"] disk_keeps_local [of "''a''" "''b''"]
  by (auto simp: kept_def disk_node_get disk_repo_fields localHostnames_def HasPrefix_def)

lemma disk_run:
  assumes "runnable two_env q ''(?m)abc'' None has_abc"
  shows "\<exists>s0 s. Search_start disk_config plain_env (asks q meta [''k'']) (nd_db (disk_node hn host answer)) = Returns (Running s0) \<and>
    (search_step disk_config plain_env two_env (\<lambda>_. 0) (asks q meta [''k'']))\<^sup>*\<^sup>* s0 s \<and>
    search_returned s \<and> \<not> ss_expired s"
proof -
  let ?q = "asks q meta [''k'']"
  obtain shard where shard: "Shards (disk_repo host) = Returns [shard]" using disk_Shards by blast
  obtain s0 where s0: "Search_start disk_config plain_env ?q (nd_db (disk_node hn host answer)) = Returns (Running s0)"
    "\<not> ss_expired s0"
    using shard by (simp add: Search_start_def Let_def firstKey_def disk_node_get disk_repo_fields)
  have "searchable two_env ?q ''(?m)abc'' None has_abc (r_Root (ss_repo s0)) (ss_todo s0)"
  proof -
    have "\<exists>ix. ge_index_open two_env shard = Inr ix" for shard by (simp add: tiny_env_def)
    moreover have "runnable two_env ?q ''(?m)abc'' None has_abc"
      using assms unfolding runnable_def buildRegexps_asks by simp
    ultimately show ?thesis unfolding searchable_def runnable_def two_env_files by (simp only: ball_simps two_env_readable) simp
  qed
  from run_lines(1) [OF s0(1) this rtranclp.rtrancl_refl s0(2)] s0(1) show ?thesis by blast
qed

text \<open>Its index was written with the one file there is.\<close>

abbreviation disk_files :: "'d \<Rightarrow> string \<Rightarrow> string set" where
  "disk_files \<equiv> \<lambda>_ _. {''a''}"

lemma disk_indexed: "repo_indexed two_env (disk_repo host) {''a''}"
proof -
  obtain shard where "Shards (disk_repo host) = Returns [shard]" using disk_Shards by blast
  moreover have "index_reads two_env root shard [''a'']" for root by (simp add: index_reads_def tiny_env_def)
  ultimately show ?thesis
    unfolding repo_indexed_def by (intro exI [of _ "[shard]"] exI [of _ "[[''a'']]"]) (simp add: two_env_readable)
qed

lemma disk_expected:
  "disk_lines (\<lambda>_. two_env) disk_files None has_abc (\<lambda>_. disk_node hostname host answer) {''k''}
    = {(''a'', ''k'', ''2'', ''abc'')}"
proof -
  have "Itoa (int 1 + 1) = ''2''" by code_simp
  then have "line_at two_env root has_abc ''a'' l v \<longleftrightarrow> l = ''2'' \<and> v = ''abc''" for root l v
    unfolding line_at_def two_env_lines by (auto simp: less_Suc_eq strip_def nl_def sublist_code)
  then show ?thesis by (auto simp: disk_lines_def disk_node_get path_ok_def)
qed

text \<open>The daemon \<open>b\<close> has the repository on its disk, the daemon \<open>a\<close> knows it as one of \<open>b\<close>.\<close>

definition disk_network :: "(meta \<Rightarrow> search_result) \<Rightarrow> search_query \<Rightarrow> bool" where
  "disk_network answer q \<longleftrightarrow>
     (let a = disk_node ''a'' ''b'' answer; b = disk_node ''b'' '''' answer
      in searching_network (\<lambda>_. two_env) (\<lambda>_. 0) disk_files q ''(?m)abc'' None has_abc (insert a (ran (\<lambda>_ :: string. Some b))) \<and>
        r_Key ` set (selected a q) = {''k''} \<and>
        (\<forall>r \<in> set (selected a q). owner 2 (\<lambda>_. Some b) a (r_Key r) = Some b))"

lemma disk_network:
  assumes "runnable two_env q ''(?m)abc'' None has_abc" "sq_RepoKeys q = [''k'']"
  shows "\<exists>answer. disk_network answer q"
proof -
  let ?db = "nd_db (disk_node ''b'' '''' undefined)"
  let ?runs = "\<lambda>meta p. Search_start disk_config plain_env (asks q meta [''k'']) ?db = Returns (Running (fst p)) \<and>
      (search_step disk_config plain_env two_env (\<lambda>_. 0) (asks q meta [''k'']))\<^sup>*\<^sup>* (fst p) (snd p) \<and>
      search_returned (snd p) \<and> \<not> ss_expired (snd p)"
  have "\<exists>p. ?runs meta p" for meta
    using disk_run [OF assms(1), where meta = meta and hn = "''b''" and host = "''''" and answer = undefined] by simp
  then obtain P where P: "\<And>meta. ?runs meta (P meta)" using choice [of ?runs] by blast
  define S0 S where S: "S0 = (\<lambda>meta. fst (P meta))" "S = (\<lambda>meta. snd (P meta))"
  have run: "Search_start disk_config plain_env (asks q meta [''k'']) ?db = Returns (Running (S0 meta))"
    "(search_step disk_config plain_env two_env (\<lambda>_. 0) (asks q meta [''k'']))\<^sup>*\<^sup>* (S0 meta) (S meta)"
    "search_returned (S meta)" "\<not> ss_expired (S meta)" for meta
    using P [of meta] by (simp_all add: S)
  let ?answer = "\<lambda>meta. Search_reply 0 (S meta)"
  let ?b = "disk_node ''b'' '''' ?answer" and ?a = "disk_node ''a'' ''b'' ?answer"
  let ?net = "\<lambda>_ :: string. Some ?b"
  have same: "nd_db ?b = nd_db (disk_node ''b'' '''' undefined)" "nd_cfg ?b = disk_config" "nd_env ?b = plain_env"
    by (simp_all add: disk_node_def tiny_node_def)
  have "nd_search ?b (asks q meta [''k'']) = (Search_reply 0 (S meta), None)" for meta
    by (simp add: disk_node_def)
  then have b: "searches_with (\<lambda>_. two_env) (\<lambda>_. 0) q ?b"
    unfolding searches_with_def disk_kept(1) same using run by blast
  have a: "searches_with (\<lambda>_. two_env) (\<lambda>_. 0) q ?a"
    by (simp add: searches_with_def disk_kept)
  have net: "searching_network (\<lambda>_. two_env) (\<lambda>_. 0) disk_files q ''(?m)abc'' None has_abc (insert ?a (ran ?net))"
    using a b assms(1) by (auto simp: searching_network_def disk_node_ok disk_kept disk_node_get disk_indexed ran_def)
  have "asks q (sq_Meta q) [''k''] = q" using assms(2) by (cases q) simp
  then have sel: "r_Key ` set (selected ?a q) = {''k''}"
    using searching.selected_ask [where nd = ?a and ks = "[''k'']" and q = q and m = "sq_Meta q"]
      disk_node_ok [of "''a''"] disk_node_get [of "''a''" "''b''"] disk_repo_fields by auto
  have "owner 2 ?net ?a ''k'' = Some ?b"
    using disk_keeps_local [of "''a''" "''b''"] disk_keeps_local [of "''b''" "''''"]
    by (simp add: numeral_2_eq_2 disk_node_get disk_repo_fields localHostnames_def HasPrefix_def)
  then have "\<forall>r \<in> set (selected ?a q). owner 2 ?net ?a (r_Key r) = Some ?b"
    using sel imageI [of _ "set (selected ?a q)" r_Key] by (metis singletonD)
  with net sel show ?thesis by (intro exI [of _ ?answer]) (simp add: disk_network_def)
qed

lemma key_query_runs: "runnable two_env (key_query\<lparr>sq_MaxMatches := m\<rparr>) ''(?m)abc'' None has_abc"
  using two_env_query(1) [of "[''k'']"] two_env_query(2) by (simp add: runnable_def NewSearchQuery_def buildRegexps_def)

lemma network_search_is_exact_witness:
  "\<exists>(a :: (string, repo) gomap node) b sr. node_ok a \<and> node_ok b \<and> \<not> kept a ''k'' \<and>
    serve_search 2 (\<lambda>_. Some b) a (key_query\<lparr>sq_MaxMatches := 100\<rparr>) = Some sr \<and>
    result_lines sr = {(''a'', ''k'', ''2'', ''abc'')}"
proof -
  let ?q = "key_query\<lparr>sq_MaxMatches := 100\<rparr>"
  have q: "SearchQuery_Normalize ?q = None" "sq_MaxMatches ?q = 0 \<or> distinct (sq_RepoKeys ?q)" "sq_RepoKeys ?q = [''k'']"
    by (simp_all add: NewSearchQuery_def SearchQuery_Normalize_def)
  from disk_network [OF key_query_runs q(3)] obtain answer where net: "disk_network answer ?q" by blast
  let ?b = "disk_node ''b'' '''' answer" and ?a = "disk_node ''a'' ''b'' answer"
  let ?net = "\<lambda>_ :: string. Some ?b"
  note parts = net [unfolded disk_network_def Let_def, THEN conjunct1]
    net [unfolded disk_network_def Let_def, THEN conjunct2, THEN conjunct1]
    net [unfolded disk_network_def Let_def, THEN conjunct2, THEN conjunct2]
  obtain sr where sr: "serve_search 2 ?net ?a ?q = Some sr" "result_lines sr \<subseteq> {(''a'', ''k'', ''2'', ''abc'')}"
    "result_lines sr = {(''a'', ''k'', ''2'', ''abc'')} \<or> unat (sq_MaxMatches ?q) \<le> card (result_lines sr)"
    using network_search_is_exact [OF q(1,2) parts(1) zero_less_numeral parts(3) refl]
    unfolding parts(2) disk_expected by blast
  have "card (result_lines sr) \<le> 1" using card_mono [OF _ sr(2)] by simp
  then have "result_lines sr = {(''a'', ''k'', ''2'', ''abc'')}" using sr(3) by simp
  moreover have "node_ok ?a" "node_ok ?b" by (simp_all add: disk_node_ok)
  ultimately show ?thesis using disk_kept(2) sr(1) by blast
qed

end
