(* ===== verification/Find_Network.thy ===== *)
theory Find_Network
  imports Pipeline
begin

text \<open>
  A find over several hosts: the find service of \<open>afind/api/find.go\<close> composed with itself, as the second
  instance of \<open>forwarding\<close>, and with the finder of \<open>afind/find.go\<close> on each host. \<open>serve_find n\<close> lets a
  request be passed on through fewer than \<open>n\<close> daemons; it is \<open>None\<close> when that is not enough.

  A find differs from a search in three ways. The keys of a local host travel in one request; a
  daemon that can not be reached sends nothing at all; and the limit on matches also limits the hosts
  that are asked, so that what follows is about queries without one.
\<close>

section \<open>Daemons that ask daemons\<close>

definition node_find_requests :: "'c node \<Rightarrow> find_query \<Rightarrow> find_query request list outcome" where
  "node_find_requests nd q = getFindRequests (nd_hostname nd) (nd_compile nd) (nd_visit nd) (nd_cfg nd) (nd_db nd) q"

text \<open>What the requests sent; the ones that sent nothing do not arrive.\<close>

definition find_reply :: "'c node \<Rightarrow> find_result option list \<Rightarrow> find_query \<Rightarrow> find_result option" where
  "find_reply nd answers q =
     (case doFind (nd_hostname nd) (nd_compile nd) (nd_visit nd) (nd_cfg nd)
         (\<lambda>_. nd_find_arrive nd (List.map_filter id answers)) q (nd_db nd) of
        Panics msg \<Rightarrow> None
      | Returns res \<Rightarrow> Some (rpc_Find res))"

definition send_find ::
  "('c node \<Rightarrow> find_query \<Rightarrow> find_result option) \<Rightarrow> 'c network \<Rightarrow> 'c node \<Rightarrow>
   find_query request \<Rightarrow> find_result option option" where
  "send_find ask net nd req =
     (case req of
        LocalReq q \<Rightarrow> Some (localFind \<lparr>fb_find = nd_find nd, fb_dial = (\<lambda>_. None),
            fb_call = (\<lambda>_ _. (NewFindResult, None))\<rparr> q False)
      | RemoteReq addr q \<Rightarrow>
          (let meta = nd_late nd (fq_Meta q)
           in case net addr of
                None \<Rightarrow> Some (fst (remoteFind \<lparr>fb_find = nd_find nd,
                  fb_dial = (\<lambda>_. Some (NetError False ''connection refused'')),
                  fb_call = (\<lambda>_ _. (NewFindResult, None))\<rparr> addr q meta False))
              | Some nd' \<Rightarrow>
                  (case ask nd' (q\<lparr>fq_Meta := meta\<rparr>) of
                     None \<Rightarrow> None
                   | Some fr \<Rightarrow> Some (fst (remoteFind \<lparr>fb_find = nd_find nd, fb_dial = (\<lambda>_. None),
                       fb_call = (\<lambda>_ _. (fr, None))\<rparr> addr q meta False)))))"

primrec serve_find :: "nat \<Rightarrow> 'c network \<Rightarrow> 'c node \<Rightarrow> find_query \<Rightarrow> find_result option" where
  "serve_find 0 net nd q = None"
| "serve_find (Suc n) net nd q =
     (if FindQuery_Normalize q \<noteq> None then find_reply nd [] q
      else (case node_find_requests nd q of
          Panics msg \<Rightarrow> None
        | Returns reqs \<Rightarrow>
            (case those (map (send_find (serve_find n net) net nd) reqs) of
               None \<Rightarrow> None
             | Some answers \<Rightarrow> find_reply nd answers q)))"

section \<open>The find service passes requests on\<close>

abbreviation asks_find :: "find_query \<Rightarrow> meta \<Rightarrow> string list \<Rightarrow> find_query" where
  "asks_find q meta keys \<equiv> q\<lparr>fq_Meta := meta, fq_RepoKeys := keys\<rparr>"

abbreviation selected_find :: "'c node \<Rightarrow> find_query \<Rightarrow> repo list" where
  "selected_find nd q \<equiv> genGetReqpos (nd_compile nd) (nd_db nd) (fq_RepoKeys q) (fq_Meta q) (fq_MetaRegexpMatch q)"

lemma find_pieces: "p \<in> set (find_mk_local q m ks) \<Longrightarrow> p = asks_find q m ks"
  by (simp add: find_mk_local_def fold_snoc)

lemma find_send_local:
  assumes "fr_ok (fst (nd_find nd q))"
  shows "\<exists>x. send_find S net nd (LocalReq q) = Some (Some x) \<and> fr_ok x \<and> listed x = listed (fst (nd_find nd q))"
  using assms by (cases "nd_find nd q") (auto simp: send_find_def localFind_def fr_ok_def split: option.split)

lemma find_send_remote:
  assumes "net addr = Some nd'"
  shows "send_find S net nd (RemoteReq addr (asks_find q m ks)) = map_option Some (S nd' (asks_find q (nd_late nd m) ks))"
  using assms by (cases q) (simp add: send_find_def remoteFind_def Let_def split: option.split)

lemma find_merge_fold: "find_merge xs cnt fr = (fold FindResult_Update xs fr, cnt + length xs)"
  by (induction xs arbitrary: cnt fr) simp_all

lemma map_filter_Some: "List.map_filter id (map Some xs) = xs"
  by (induction xs) (simp_all add: List.map_filter_def)

text \<open>\<open>isLocal\<close> may set the host name in the configuration first, which changes no request.\<close>

lemma dispatch_returns_find: "\<exists>reqs. getFindRequests hostname compile visit c d q = Returns reqs"
  by (simp add: getFindRequests_def Let_def dispatch_returns)

lemma find_reply_merges:
  assumes "node_ok nd" "FindQuery_Normalize q = None"
  shows "\<exists>r xs' ys r0. find_reply nd (map Some xs) q = Some r \<and> mset (xs' @ ys) = mset xs \<and>
    fr_ok r0 \<and> listed r0 = (\<lambda>_. None) \<and>
    (fr_ok (fold FindResult_Update xs' r0) \<longrightarrow> fr_ok r \<and> listed r = listed (fold FindResult_Update xs' r0)) \<and>
    (ys = [] \<or> 0 < (0 :: nat) \<and> 0 \<le> card (dom (listed r)))"
proof -
  let ?c = "snd (isLocal (nd_hostname nd) (nd_cfg nd) (Meta_Host (fq_Meta q)))"
  let ?r0 = "NewFindResult\<lparr>fr_MaxMatches := fq_MaxMatches q\<rparr>"
  let ?fr = "fold FindResult_Update (nd_find_arrive nd xs) ?r0"
  obtain reqs where reqs: "getFindRequests (nd_hostname nd) (nd_compile nd) (nd_visit nd) ?c (nd_db nd) q = Returns reqs"
    using dispatch_returns_find by blast
  have "find_reply nd (map Some xs) q =
      Some (FindResult_SetError (if length (nd_find_arrive nd xs) < 1 then Some NewRepoUnavailableError else None) ?fr)"
    using assms(2) reqs
    by (simp add: find_reply_def doFind_def split_def Let_def find_merge_fold map_filter_Some rpc_Find_def)
  moreover have "mset (nd_find_arrive nd xs) = mset xs" using assms(1) by (simp add: node_ok_def)
  moreover have "fr_ok ?r0" by (simp add: fr_ok_def NewFindResult_def)
  moreover have "fr_ok (FindResult_SetError e fr) = fr_ok fr" "listed (FindResult_SetError e fr) = listed fr" for e fr
    by (simp_all add: FindResult_SetError_def fr_ok_def)
  ultimately show ?thesis
    by (intro exI [of _ "FindResult_SetError _ ?fr"] exI [of _ "nd_find_arrive nd xs"] exI [of _ "[]"] exI [of _ ?r0]) auto
qed

lemma finite_listed: "finite (dom (listed r))"
proof (rule finite_subset)
  show "dom (listed r) \<subseteq> (\<Union>(f, ks) \<in> set (fr_Matches r). (\<lambda>(k, _). (f, k)) ` set ks)"
    by (force simp: listed_def gm_sub_def split: option.splits dest: map_of_SomeD)
qed auto

interpretation finding: forwarding FindResult_Update listed fr_ok snd
  fq_RepoKeys fq_Meta fq_MetaRegexpMatch asks_find "\<lambda>q. FindQuery_Normalize q = None \<and> fq_MaxMatches q = 0" "\<lambda>_. 0"
  distinct distinct "\<lambda>nd q n. fq_MaxMatches q > 0 \<and> n \<ge> unat (fq_MaxMatches q)"
  find_mk_local node_find_requests "\<lambda>nd q. fst (nd_find nd q)" Some send_find find_reply serve_find
proof unfold_locales
  show "node_find_requests nd q =
      (let repos = genGetReqpos (nd_compile nd) (nd_db nd) (fq_RepoKeys q) (fq_Meta q) (fq_MetaRegexpMatch q)
       in if length repos < 1 then Returns []
          else dispatch (nd_hostname nd) (\<lambda>n. fq_MaxMatches q > 0 \<and> n \<ge> unat (fq_MaxMatches q))
            (find_mk_local q) (asks_find q) (nd_cfg nd) (fq_Meta q) 0 (nd_visit nd (group_hosts repos)))"
    for nd :: "'c node" and q
    by (simp add: node_find_requests_def getFindRequests_def Let_def find_mk_remote_def [abs_def])
  show "\<exists>ks'. p = asks_find q m ks' \<and> ks' \<noteq> [] \<and> distinct ks' \<and> set ks' \<subseteq> set ks"
    if "ks \<noteq> []" "distinct ks" "p \<in> set (find_mk_local q m ks)" for p q m ks
    using find_pieces [OF that(3)] that(1,2) by blast
  show "finite (dom (listed r))" for r by (rule finite_listed)
qed ((rule distinct_selected find_send_local find_send_remote; assumption)
  | (rule find_reply_merges; simp; fail)
  | (simp add: FindQuery_Normalize_def find_mk_local_def fold_snoc; fail)
  | (simp split: option.split outcome.split; fail))+

section \<open>With the finder of each host\<close>

text \<open>The names that a find for an expression should list for a repository: those in the indices of its
  shards, which the posting query for \<open>re_all\<close> returns, on which the expression matches.\<close>

definition repo_names :: "('re, 'ix) grep_env \<Rightarrow> 're \<Rightarrow> 're \<Rightarrow> repo \<Rightarrow> string \<Rightarrow> bool" where
  "repo_names ge re_all re r f \<longleftrightarrow> (\<exists>shards shard ix. Shards r = Returns shards \<and> shard \<in> set shards \<and>
     ge_index_open ge shard = Inr ix \<and> f \<in> ge_name ge ix ` set (ge_posting ge ix re_all) \<and> \<not> ge_match_name ge re f < 0)"

definition find_pattern :: "find_query \<Rightarrow> string" where
  "find_pattern q = (if fq_IgnoreCase q then ''(?i)'' @ fq_PathRe q else fq_PathRe q)"

text \<open>A daemon whose finder is \<open>Find\<close> over the index files of its disk: for the repositories it keeps a
  run of it returns the answer, the names arriving in some order.\<close>

definition finds_with ::
  "('c node \<Rightarrow> ('re, 'ix) grep_env) \<Rightarrow> 're \<Rightarrow> find_query \<Rightarrow> 'c node \<Rightarrow> bool" where
  "finds_with ge re_all q nd \<longleftrightarrow> (\<forall>m ks. ks \<noteq> [] \<and> distinct ks \<and> (\<forall>k \<in> set ks. kept nd k) \<longrightarrow>
     (\<exists>arrive. (\<forall>xss. mset (arrive xss) = mset (concat xss)) \<and>
       Find (ge nd) re_all arrive (nd_db nd) (asks_find q m ks) = Some (Returns (nd_find nd (asks_find q m ks)))))"

lemma shardFind_names: "(f, k) \<in> set (shardFind ge re_all re shard key) \<longleftrightarrow> k = key \<and>
    (\<exists>ix. ge_index_open ge shard = Inr ix \<and> f \<in> ge_name ge ix ` set (ge_posting ge ix re_all) \<and> \<not> ge_match_name ge re f < 0)"
  by (cases "ge_index_open ge shard") (auto simp: shardFind_def)

lemma find_queue_requests:
  assumes "find_queue d keys fr reqs = Some (Returns (fr', reqs'))"
  shows "set reqs' = set reqs \<union> {(fn, k). \<exists>key \<in> set keys. \<exists>r fns. db_Get d key = Some r \<and> Shards r = Returns fns \<and>
      fn \<in> set fns \<and> k = r_Key r} \<and> fr_Matches fr' = fr_Matches fr \<and> (fr_ok fr \<longrightarrow> fr_ok fr')"
  using assms
proof (induction d keys fr reqs rule: find_queue.induct)
  case (2 d key keys fr reqs)
  show ?case
  proof (cases "db_Get d key")
    case None
    with 2(1) [OF None] 2(3) show ?thesis by (auto simp: fr_ok_def)
  next
    case (Some r)
    with 2(3) obtain fns where fns: "Shards r = Returns fns" by (auto split: outcome.splits)
    let ?reqs = "reqs @ map (\<lambda>fn. (fn, r_Key r)) fns"
    have "find_queue d keys fr ?reqs = Some (Returns (fr', reqs'))" "\<not> length ?reqs > chQuery_cap"
      using 2(3) Some fns by (simp_all add: Let_def split: if_splits)
    from 2(2) [OF Some fns refl this(2,1)] Some fns show ?thesis by auto
  qed
qed simp

lemma found_names:
  assumes "node_ok nd" "finds_with ge re_all q nd" "FindQuery_Normalize q = None"
    and "ge_compile (ge nd) (find_pattern q) = Inr re"
    and ks: "ks \<noteq> []" "distinct ks" "\<forall>k \<in> set ks. kept nd k"
  shows "fr_ok (fst (nd_find nd (asks_find q m ks)))"
    and "listed (fst (nd_find nd (asks_find q m ks))) (f, k) = Some () \<longleftrightarrow>
      k \<in> set ks \<and> (\<exists>r. db_Get (nd_db nd) k = Some r \<and> repo_names (ge nd) re_all re r f)"
proof -
  let ?q = "asks_find q m ks" and ?d = "nd_db nd"
  obtain arrive where arrive: "\<And>xss. mset (arrive xss) = mset (concat xss)"
    "Find (ge nd) re_all arrive ?d ?q = Some (Returns (nd_find nd ?q))"
    using assms(2) ks unfolding finds_with_def by blast
  have "fq_PathRe q \<noteq> ''''" using assms(3) by (auto simp: FindQuery_Normalize_def)
  then obtain fr reqs where queue: "find_queue ?d ks NewFindResult [] = Some (Returns (fr, reqs))"
    "fst (nd_find nd ?q) = find_collect (arrive (map (\<lambda>(fn, key). shardFind (ge nd) re_all re fn key) reqs)) fr"
    using arrive(2) ks(1) assms(4)
    by (auto simp: Find_def Let_def find_pattern_def split: option.splits outcome.splits prod.splits if_splits)
      (metis fst_conv)+
  have keyed: "r_Key r = key" if "db_Get ?d key = Some r" for key r
    using assms(1) that by (simp add: node_ok_def db_keyed_def)
  note reqs = find_queue_requests [OF queue(1)]
  have queued: "set reqs = {(fn, k). \<exists>key \<in> set ks. \<exists>r fns. db_Get ?d key = Some r \<and> Shards r = Returns fns \<and>
      fn \<in> set fns \<and> k = r_Key r}" using reqs by simp
  have names: "(\<exists>fns fn. Shards r = Returns fns \<and> fn \<in> set fns \<and> (f, k) \<in> set (shardFind (ge nd) re_all re fn (r_Key r)))
      \<longleftrightarrow> k = key \<and> repo_names (ge nd) re_all re r f" if "db_Get ?d key = Some r" for key r
    by (auto simp: shardFind_names repo_names_def keyed [OF that])
  have fr: "fr_ok fr" "listed fr = (\<lambda>_. None)"
    using reqs by (simp_all add: fr_ok_def NewFindResult_def listed_def fun_eq_iff gm_sub_def)
  show "fr_ok (fst (nd_find nd ?q))" unfolding queue(2) using fr(1) by (rule listed_collect(2))
  have "set (arrive xss) = set (concat xss)" for xss by (rule mset_eq_setD) (rule arrive(1))
  then have "listed (fst (nd_find nd ?q)) (f, k) = Some () \<longleftrightarrow>
      (\<exists>(fn, key) \<in> set reqs. (f, k) \<in> set (shardFind (ge nd) re_all re fn key))"
    by (auto simp: queue(2) listed_collect(1) fr(2))
  also have "\<dots> \<longleftrightarrow> (\<exists>key \<in> set ks. \<exists>r. db_Get ?d key = Some r \<and> (\<exists>fns fn. Shards r = Returns fns \<and> fn \<in> set fns \<and>
      (f, k) \<in> set (shardFind (ge nd) re_all re fn (r_Key r))))"
    unfolding queued by blast
  also have "\<dots> \<longleftrightarrow> (\<exists>key \<in> set ks. \<exists>r. db_Get ?d key = Some r \<and> k = key \<and> repo_names (ge nd) re_all re r f)"
    using names by blast
  also have "\<dots> \<longleftrightarrow> k \<in> set ks \<and> (\<exists>r. db_Get ?d k = Some r \<and> repo_names (ge nd) re_all re r f)" by blast
  finally show "listed (fst (nd_find nd ?q)) (f, k) = Some () \<longleftrightarrow>
      k \<in> set ks \<and> (\<exists>r. db_Get ?d k = Some r \<and> repo_names (ge nd) re_all re r f)" .
qed

lemma finder_serves:
  assumes "node_ok nd" "finds_with ge re_all q nd" "FindQuery_Normalize q = None"
    and "ge_compile (ge nd) (find_pattern q) = Inr re"
  shows "finding.serves q nd"
    and "kept nd k \<Longrightarrow> finding.found q nd k (f, k) = Some () \<longleftrightarrow>
      (\<exists>r. db_Get (nd_db nd) k = Some r \<and> repo_names (ge nd) re_all re r f)"
proof -
  have one: "finding.found q nd k (f, k') = Some () \<longleftrightarrow>
      k' = k \<and> (\<exists>r. db_Get (nd_db nd) k = Some r \<and> repo_names (ge nd) re_all re r f)" if "kept nd k" for k f k'
    using found_names(2) [OF assms, where ks = "[k]" and m = "fq_Meta q" and f = f and k = k'] that
    by (auto simp: finding.found_def)
  then show "kept nd k \<Longrightarrow> finding.found q nd k (f, k) = Some () \<longleftrightarrow>
      (\<exists>r. db_Get (nd_db nd) k = Some r \<and> repo_names (ge nd) re_all re r f)" by simp
  have "listed (fst (nd_find nd (asks_find q m ks))) = part snd (set ks) (finding.found q nd)"
    if "ks \<noteq> []" "distinct ks" "\<forall>k \<in> set ks. kept nd k" for m ks
  proof (intro ext option_eqI)
    fix p :: "string \<times> string" and v :: unit
    obtain f k where p: "p = (f, k)" by (cases p)
    show "listed (fst (nd_find nd (asks_find q m ks))) p = Some v \<longleftrightarrow> part snd (set ks) (finding.found q nd) p = Some v"
      using found_names(2) [OF assms that, where f = f and k = k] one [of k f k] that(3)
      by (auto simp: p part_def)
  qed
  with found_names(1) [OF assms] show "finding.serves q nd"
    unfolding finding.serves_def by blast
qed

text \<open>C8. A find over several hosts lists the files of their indices. A daemon asked to find files,
  without a limit, answers, when each repository that the query selects has an owner among the
  daemons and these run \<open>Find\<close> on their index files, with exactly the names on which the expression
  matches in the shards of each selected repository on its owner's disk; however many daemons the
  request is passed through, and in whatever order hosts are asked and results arrive.\<close>

theorem network_find_is_exact:
  assumes "FindQuery_Normalize q = None" "fq_MaxMatches q = 0" "distinct (fq_RepoKeys q)"
    and nodes: "\<forall>nd' \<in> insert nd (ran net). node_ok nd' \<and> finds_with ge re_all q nd' \<and>
      ge_compile (ge nd') (find_pattern q) = Inr re"
    and "0 < n" "\<forall>r \<in> set (selected_find nd q). owner n net nd (r_Key r) = Some (own (r_Key r))"
  shows "\<exists>fr. serve_find n net nd q = Some fr \<and>
    (\<forall>f k. listed fr (f, k) = Some () \<longleftrightarrow> k \<in> r_Key ` set (selected_find nd q) \<and>
      (\<exists>r. db_Get (nd_db (own k)) k = Some r \<and> repo_names (ge (own k)) re_all re r f))"
proof -
  have node: "node_ok nd'" "finds_with ge re_all q nd'" "ge_compile (ge nd') (find_pattern q) = Inr re"
    if "nd' = nd \<or> nd' \<in> ran net" for nd'
    using nodes that by auto
  note serves = finder_serves [OF node(1,2) assms(1) node(3)]
  have net: "\<And>addr nd'. net addr = Some nd' \<Longrightarrow> node_ok nd' \<and> finding.serves q nd'"
    using node(1) serves(1) by (auto intro: ranI)
  have here: "node_ok nd" "finding.serves q nd" using node(1) serves(1) by blast+
  have valid: "FindQuery_Normalize q = None \<and> fq_MaxMatches q = 0" using assms(1,2) by simp
  have "\<exists>fr. serve_find n net nd q = Some fr \<and>
      finding.holds q (\<lambda>k. finding.found q (own k) k) (r_Key ` set (selected_find nd q)) fr"
    by (rule finding.serve_finds [OF valid net here assms(5,3) disjI1 [OF refl] assms(6)])
  then obtain fr where fr: "serve_find n net nd q = Some fr"
    "listed fr = part snd (r_Key ` set (selected_find nd q)) (\<lambda>k. finding.found q (own k) k)"
    by (auto simp: finding.holds_def)
  have "finding.found q (own k) k (f, k) = Some () \<longleftrightarrow>
      (\<exists>r. db_Get (nd_db (own k)) k = Some r \<and> repo_names (ge (own k)) re_all re r f)"
    if "k \<in> r_Key ` set (selected_find nd q)" for f k
  proof -
    have owner: "owner n net nd k = Some (own k)" using that assms(6) by auto
    note own = owner_node [OF owner]
    show ?thesis by (rule serves(2) [OF own own own owner_kept [OF owner]])
  qed
  with fr show ?thesis by (intro exI [of _ fr]) (auto simp: part_def)
qed

text \<open>A find is passed on like a search, and its \<open>Recurse\<close> stops it no more.\<close>

theorem find_passed_on_for_ever:
  assumes "FindQuery_Normalize q = None" "fq_MaxMatches q = 0" "distinct (fq_RepoKeys q)"
    and "nd \<in> S" "key \<in> set (fq_RepoKeys q)"
    and "\<And>nd. nd \<in> S \<Longrightarrow> node_ok nd \<and> (\<exists>r nd'. db_Get (nd_db nd) key = Some r \<and> r_State r = st_OK \<and>
      \<not> keeps_local nd (Host r) \<and> net (host_address (nd_cfg nd) (Host r)) = Some nd' \<and> nd' \<in> S)"
  shows "serve_find n net nd (q\<lparr>fq_Recurse := recurse\<rparr>) = None"
  using assms by (intro finding.never_served [of nd S]) (auto simp: FindQuery_Normalize_def)

section \<open>Instances\<close>

text \<open>A daemon with one repository on its disk, under a host, whose finder is \<open>Find\<close> on an index of one file.\<close>

abbreviation name_env :: "(string, string list) grep_env" where
  "name_env \<equiv> tiny_env [(''abc.go'', '''')]"

definition find_node :: "string \<Rightarrow> string \<Rightarrow> (string, repo) gomap node" where
  "find_node hostname host = (let nd = disk_node hostname host (\<lambda>_. NewSearchResult) in nd\<lparr>nd_find :=
     (\<lambda>q. case Find name_env '''' concat (nd_db nd) q of Some (Returns res) \<Rightarrow> res | _ \<Rightarrow> (NewFindResult, None))\<rparr>)"

abbreviation name_query :: find_query where
  "name_query \<equiv> NewFindQuery\<lparr>fq_PathRe := ''abc'', fq_RepoKeys := [''k'']\<rparr>"

lemma name_query_valid: "FindQuery_Normalize name_query = None" "fq_MaxMatches name_query = 0"
  "distinct (fq_RepoKeys name_query)" "find_pattern name_query = ''abc''"
  by (simp_all add: FindQuery_Normalize_def NewFindQuery_def find_pattern_def)

lemma find_node_fields:
  "hostname \<noteq> '''' \<Longrightarrow> node_ok (find_node hostname host)"
  "db_Get (nd_db (find_node hostname host)) key = (if key = ''k'' then Some (disk_repo host) else None)"
  "keeps_local (find_node hostname host) = keeps_local (disk_node hostname host (\<lambda>_. NewSearchResult))"
  "kept (find_node hostname host) = kept (disk_node hostname host (\<lambda>_. NewSearchResult))"
  using disk_node_ok [of hostname host "\<lambda>_. NewSearchResult"] disk_node_get [of hostname host "\<lambda>_. NewSearchResult"]
  by (simp_all add: find_node_def Let_def node_ok_def few_hosts_def keeps_local_def [abs_def] kept_def [abs_def])

lemma find_node_finds: "finds_with (\<lambda>_. name_env) '''' name_query (find_node ''b'' '''')"
  unfolding finds_with_def
proof (intro allI impI exI [of _ concat] conjI)
  fix m ks assume ks: "ks \<noteq> [] \<and> distinct ks \<and> (\<forall>k \<in> set ks. kept (find_node ''b'' '''') k)"
  then have "set ks \<subseteq> {''k''}" by (auto simp: find_node_fields disk_kept)
  with ks have ks': "ks = [''k'']"
    by (cases ks; cases "tl ks") auto
  obtain shard where "Shards (disk_repo '''') = Returns [shard]" using disk_Shards by blast
  then have "\<exists>res. Find name_env '''' concat (nd_db (disk_node ''b'' '''' (\<lambda>_. NewSearchResult))) (asks_find name_query m ks)
      = Some (Returns res)"
    by (simp add: ks' Find_def disk_node_get tiny_env_def NewFindQuery_def chQuery_cap_def)
  then show "Find name_env '''' concat (nd_db (find_node ''b'' '''')) (asks_find name_query m ks)
      = Some (Returns (nd_find (find_node ''b'' '''') (asks_find name_query m ks)))"
    by (auto simp: find_node_def Let_def)
qed simp

lemma network_find_is_exact_witness:
  "\<exists>(a :: (string, repo) gomap node) b fr. node_ok a \<and> node_ok b \<and> \<not> kept a ''k'' \<and>
    serve_find 2 (\<lambda>_. Some b) a name_query = Some fr \<and> listed fr (''abc.go'', ''k'') = Some () \<and> listed fr (''b.go'', ''k'') = None"
proof -
  let ?a = "find_node ''a'' ''b''" and ?b = "find_node ''b'' ''''"
  let ?net = "\<lambda>_ :: string. Some ?b"
  have ok: "node_ok ?a" "node_ok ?b" by (simp_all add: find_node_fields)
  have away: "\<not> kept ?a key" for key by (simp add: find_node_fields disk_kept)
  then have "finds_with (\<lambda>_. name_env) '''' name_query ?a"
    unfolding finds_with_def by (metis hd_in_set)
  then have nodes: "\<forall>nd' \<in> insert ?a (ran ?net). node_ok nd' \<and> finds_with (\<lambda>_. name_env) '''' name_query nd' \<and>
      ge_compile name_env (find_pattern name_query) = Inr ''abc''"
    using ok find_node_finds by (auto simp: ran_def name_query_valid(4) tiny_env_def)
  have sel: "r_Key ` set (selected_find ?a name_query) = {''k''}"
    using finding.selected_ask [where nd = ?a and ks = "[''k'']" and q = name_query and m = "[]"]
      ok(1) find_node_fields(2) [of "''a''" "''b''"] disk_repo_fields
    by (auto simp: NewFindQuery_def)
  have "owner 2 ?net ?a ''k'' = Some ?b"
    using disk_keeps_local [of "''a''" "''b''"] disk_keeps_local [of "''b''" "''''"]
    by (simp add: numeral_2_eq_2 find_node_fields disk_repo_fields localHostnames_def HasPrefix_def)
  then have owners: "\<forall>r \<in> set (selected_find ?a name_query). owner 2 ?net ?a (r_Key r) = Some ?b"
    using sel imageI [of _ "set (selected_find ?a name_query)" r_Key] by (metis singletonD)
  obtain fr where fr: "serve_find 2 ?net ?a name_query = Some fr"
    "\<forall>f k. listed fr (f, k) = Some () \<longleftrightarrow> k \<in> {''k''} \<and>
      (\<exists>r. db_Get (nd_db ?b) k = Some r \<and> repo_names name_env '''' ''abc'' r f)"
    using network_find_is_exact [OF name_query_valid(1-3) nodes zero_less_numeral owners] unfolding sel by blast
  obtain shard where "Shards (disk_repo '''') = Returns [shard]" using disk_Shards by blast
  then have "repo_names name_env '''' ''abc'' (disk_repo '''') f \<longleftrightarrow> f = ''abc.go''" for f
    by (auto simp: repo_names_def tiny_env_def sublist_code)
  then have at: "listed fr (f, ''k'') = Some () \<longleftrightarrow> f = ''abc.go''" for f
    using fr(2) by (simp add: find_node_fields)
  have "listed fr (''abc.go'', ''k'') = Some ()" by (simp add: at)
  moreover have "listed fr (''b.go'', ''k'') = None" using at [of "''b.go''"] by (cases "listed fr (''b.go'', ''k'')") auto
  ultimately show ?thesis using ok away fr(1) by blast
qed

end
