(* ===== verification/Repos_Client.thy ===== *)
theory Repos_Client
  imports Client Endpoints
begin

text \<open>
  The client's \<open>repos\<close> command against a daemon: \<open>ReposClient\<close> of \<open>afind/api/repos.go\<close> between the command
  of \<open>cmd/afind/afind.go\<close> and the repository service of the daemon.

  Of \<open>net/rpc\<close> this has what the three calls depend on. A call is sent and its reply decoded into
  the variable that the caller points to. A \<open>nil\<close> pointer can not be decoded into: the call ends with an
  error, and the goroutine that reads replies ends too, after which calls fail without being sent.
  Calls made before that goroutine has shut the client down still go out; their number is the
  parameter \<open>late\<close>.
\<close>

section \<open>Calls over one connection\<close>

text \<open>\<open>None\<close> while replies are read; \<open>Some n\<close> when reading has ended and \<open>n\<close> more calls will be sent.\<close>

type_synonym conn = "nat option"

definition unassignable :: string where
  "unassignable = ''gob: DecodeValue of unassignable value''"

definition rpc_Call ::
  "nat \<Rightarrow> ('d \<Rightarrow> 'r \<times> 'd) \<Rightarrow> bool \<Rightarrow> 'd \<times> conn \<Rightarrow> ('r option \<times> go_error option) \<times> 'd \<times> conn" where
  "rpc_Call late serve nil_reply s =
     (case s of
        (d, None) \<Rightarrow>
          (let (r, d) = serve d
           in if nil_reply then ((None, Some (OtherError (''reading body '' @ unassignable))), d, Some late)
              else ((Some r, None), d, None))
      | (d, Some 0) \<Rightarrow> ((None, Some (OtherError ''connection is shut down'')), d, Some 0)
      | (d, Some (Suc n)) \<Rightarrow> ((None, Some (OtherError unassignable)), snd (serve d), Some n))"

definition ReposClient_Get ::
  "nat \<Rightarrow> string \<Rightarrow> 'c db \<times> conn \<Rightarrow> ((string, repo) gomap \<times> go_error option) \<times> 'c db \<times> conn" where
  "ReposClient_Get late key s =
     (case rpc_Call late (\<lambda>d. (repos_Get d key, d)) False s of
        ((resp, err), s) \<Rightarrow> ((case resp of Some m \<Rightarrow> m | None \<Rightarrow> [], err), s))"

definition ReposClient_GetAll ::
  "nat \<Rightarrow> 'c db \<times> conn \<Rightarrow> ((string, repo) gomap \<times> go_error option) \<times> 'c db \<times> conn" where
  "ReposClient_GetAll late s =
     (case rpc_Call late (\<lambda>d. (repos_GetAll d, d)) False s of
        ((resp, err), s) \<Rightarrow> ((case resp of Some m \<Rightarrow> m | None \<Rightarrow> [], err), s))"

text \<open>\<open>resp\<close> is a \<open>nil\<close> pointer.\<close>

definition ReposClient_Delete ::
  "'c fs_env \<Rightarrow> nat \<Rightarrow> string \<Rightarrow> 'c db \<times> conn \<Rightarrow> go_error option \<times> 'c db \<times> conn" where
  "ReposClient_Delete fenv late key s =
     (case rpc_Call late (\<lambda>d. ((), repos_Delete fenv key d)) True s of ((resp, err), s) \<Rightarrow> (err, s))"

text \<open>The client's environment, its repository calls going to a daemon with this database.\<close>

definition over_rpc ::
  "'c fs_env \<Rightarrow> nat \<Rightarrow> ('c db \<times> conn) client_env \<Rightarrow> ('c db \<times> conn) client_env" where
  "over_rpc fenv late env = env\<lparr>
     ce_get := (\<lambda>key s. fst (ReposClient_Get late key s)),
     ce_getall := (\<lambda>s. fst (ReposClient_GetAll late s)),
     ce_delete := ReposClient_Delete fenv late\<rparr>"

section \<open>Listing\<close>

text \<open>Reading keeps the connection usable.\<close>

lemma reads_keep:
  "ReposClient_Get late key (d, None) = ((repos_Get d key, None), d, None)"
  "ReposClient_GetAll late (d, None) = ((repos_GetAll d, None), d, None)"
  by (simp_all add: ReposClient_Get_def ReposClient_GetAll_def rpc_Call_def)

lemma repos_each_get:
  "\<not> fl_delete fl \<Longrightarrow> '''' \<notin> set args \<Longrightarrow>
    repos_each (over_rpc fenv late env) fl args None (d, None) =
      (None, concat (map (\<lambda>k. map (\<lambda>(_, r). println (repoAsString env r)) (repos_Get d k)) args), d, None)"
proof (induction args)
  case (Cons k ks)
  then have "repos (over_rpc fenv late env) fl k (d, None)
      = (None, map (\<lambda>(_, r). println (repoAsString env r)) (repos_Get d k), d, None)"
    by (auto simp: repos_def over_rpc_def reads_keep repoAsString_def)
  with Cons show ?case by simp
qed simp

lemma repos_GetAll_ok: "db_ok d \<Longrightarrow> gm_ok (repos_GetAll d)"
proof -
  assume ok: "db_ok d"
  have "gm_ok m \<Longrightarrow> gm_ok (fold (\<lambda>(k, r). gm_put k r) rs m)" for rs :: "(string \<times> repo) list" and m
    by (induction rs arbitrary: m) (auto split: prod.split)
  moreover have "repos_GetAll d = fold (\<lambda>(k, r). gm_put k r) (db_R d) []"
    unfolding repos_GetAll_def by (rule db_ForEach_fold [OF ok]) simp
  ultimately show ?thesis by simp
qed

lemma repos_command:
  "Parse flagSetRepos args default_flags = Parsed fl rest \<Longrightarrow> ce_dial env (getFlagRpcAddress env fl) = None \<Longrightarrow>
    (if args = [] then repos env fl '''' s else repos_each env fl args None s) = (None, out, s') \<Longrightarrow>
    main env (''repos'' # args) s = (0, out, s')"
proof (cases "args = []")
  case True
  have "ToLower ''repos'' = ''repos''" "\<not> is_flag ''repos''" by (code_simp, simp add: is_flag_def)
  moreover assume "Parse flagSetRepos args default_flags = Parsed fl rest" "ce_dial env (getFlagRpcAddress env fl) = None"
    "(if args = [] then repos env fl '''' s else repos_each env fl args None s) = (None, out, s')"
  ultimately show ?thesis
    using True by (simp add: main_def doAfind_def connected_def setupContext_def finished_def)
qed (simp add: main_repos)

text \<open>C31. \<open>afind repos\<close> prints every repository of the daemon's database, once each; with keys, for each
  key in turn the repository stored under it, if any; and succeeds either way.\<close>

theorem repos_prints_database:
  assumes "db_ok d" "\<And>a. ce_dial env a = None" "\<not> is_flag k" "'''' \<notin> set (k # ks)"
  shows "(\<exists>m. gm_ok m \<and> map_of m = db_Get d \<and>
      main (over_rpc fenv late env) [''repos''] (d, None) = (0, map (\<lambda>(_, r). println (repoAsString env r)) m, d, None)) \<and>
    main (over_rpc fenv late env) (''repos'' # k # ks) (d, None) =
      (0, map (\<lambda>r. println (repoAsString env r)) (List.map_filter (db_Get d) (k # ks)), d, None)"
proof
  let ?env = "over_rpc fenv late env"
  have dial: "ce_dial ?env a = None" for a using assms(2) by (simp add: over_rpc_def)
  have "repos ?env default_flags '''' (d, None)
      = (None, map (\<lambda>(_, r). println (repoAsString env r)) (repos_GetAll d), d, None)"
    by (simp add: repos_def over_rpc_def reads_keep repoAsString_def)
  then have "main ?env [''repos''] (d, None) = (0, map (\<lambda>(_, r). println (repoAsString env r)) (repos_GetAll d), d, None)"
    using dial by (intro repos_command [where fl = default_flags and rest = "[]"]) simp_all
  with repos_GetAll_ok [OF assms(1)] repos_GetAll_at [OF assms(1)]
  show "\<exists>m. gm_ok m \<and> map_of m = db_Get d \<and>
      main ?env [''repos''] (d, None) = (0, map (\<lambda>(_, r). println (repoAsString env r)) m, d, None)" by blast
  have one: "concat (map (\<lambda>k. map (\<lambda>(_, r). println (repoAsString env r)) (repos_Get d k)) ks)
      = map (\<lambda>r. println (repoAsString env r)) (List.map_filter (db_Get d) ks)" for ks
    by (induction ks) (auto simp: repos_Get_def List.map_filter_simps gm_put_def split: option.split)
  have "repos_each ?env default_flags (k # ks) None (d, None)
      = (None, map (\<lambda>r. println (repoAsString env r)) (List.map_filter (db_Get d) (k # ks)), d, None)"
    using repos_each_get [of default_flags "k # ks" fenv late env d] assms(4) unfolding one
    by (simp add: default_flags_def del: repos_each.simps)
  then show "main ?env (''repos'' # k # ks) (d, None) =
      (0, map (\<lambda>r. println (repoAsString env r)) (List.map_filter (db_Get d) (k # ks)), d, None)"
    using dial by (intro repos_command [OF Parse_plain [OF assms(3)]]) (simp_all del: repos_each.simps)
qed

section \<open>Deleting\<close>

text \<open>Once reading has ended every deletion fails; the first few still take place.\<close>

lemma delete_broken:
  "\<exists>e. ReposClient_Delete fenv late key (d, Some n) =
    (Some e, if n = 0 then d else repos_Delete fenv key d, Some (n - 1))"
  by (cases n) (auto simp: ReposClient_Delete_def rpc_Call_def)

lemma repos_each_broken:
  assumes "fl_delete fl" "'''' \<notin> set args" "err \<noteq> None"
  shows "\<exists>e out d' c. repos_each (over_rpc fenv late env) fl args err (d, Some n) = (Some e, out, d', c) \<and>
    d' = fold (repos_Delete fenv) (take n args) d"
  using assms(2,3)
proof (induction args arbitrary: err d n)
  case (Cons k ks)
  let ?d = "if n = 0 then d else repos_Delete fenv k d"
  obtain e where e: "ce_delete (over_rpc fenv late env) k (d, Some n) = (Some e, ?d, Some (n - 1))"
    using delete_broken [of fenv late k d n] by (auto simp: over_rpc_def)
  obtain e' out d' c where IH: "repos_each (over_rpc fenv late env) fl ks (Some e) (?d, Some (n - 1)) = (Some e', out, d', c)"
    "d' = fold (repos_Delete fenv) (take (n - 1) ks) ?d"
    using Cons.IH [of "Some e" ?d "n - 1"] Cons.prems(1) by auto
  have "k \<noteq> []" using Cons.prems(1) by auto
  with repos_delete [OF assms(1) this, of "over_rpc fenv late env" "(d, Some n)"] IH(1) e
  have "repos_each (over_rpc fenv late env) fl (k # ks) err (d, Some n) =
      (Some e', Stderr (''deleting repo '' @ k) # out, d', c)" by simp
  moreover have "d' = fold (repos_Delete fenv) (take n (k # ks)) d" using IH(2) by (cases n) simp_all
  ultimately show ?case by blast
qed auto

lemma fold_repos_Delete: "db_Get (fold (repos_Delete fenv) ks d) = db_Get d |` (- set ks)"
proof (induction ks arbitrary: d)
  case (Cons k ks)
  have "db_Get (repos_Delete fenv k d) = (db_Get d)(k := None)" by (simp add: repos_Delete_def)
  with Cons show ?case by (auto simp: restrict_map_def fun_eq_iff)
qed (simp add: restrict_map_def fun_eq_iff)

text \<open>C30. \<open>afind repos -D\<close> always ends in an error, and can leave every repository where it was: the first
  key it asks the daemon to delete is \<open>-D\<close> itself, whose reply it can not read; of the keys that follow
  only those are deleted whose call goes out before the connection has been shut down.\<close>

theorem repos_D_loses_connection:
  assumes "\<And>a. ce_dial env a = None" "\<not> is_flag k" "'''' \<notin> set (k # ks)"
  shows "\<exists>out d' c. main (over_rpc fenv late env) (''repos'' # ''-D'' # k # ks) (d, None) = (1, out, d', c) \<and>
    db_Get d' = db_Get d |` (- set (''-D'' # take late (k # ks)))"
proof -
  let ?env = "over_rpc fenv late env" and ?fl = "default_flags\<lparr>fl_delete := True\<rparr>" and ?args = "''-D'' # k # ks"
  have p: "Parse flagSetRepos ?args default_flags = Parsed ?fl (k # ks)"
    unfolding Parse_D using assms(2) by (rule Parse_plain)
  let ?d = "repos_Delete fenv ''-D'' d" and ?e = "OtherError (''reading body '' @ unassignable)"
  have first: "ce_delete ?env ''-D'' (d, None) = (Some ?e, ?d, Some late)"
    by (simp add: over_rpc_def ReposClient_Delete_def rpc_Call_def)
  obtain err out' d' c where rest: "repos_each ?env ?fl (k # ks) (Some ?e) (?d, Some late) = (err, out', d', c)"
    by (cases "repos_each ?env ?fl (k # ks) (Some ?e) (?d, Some late)") auto
  have broken: "\<exists>e. err = Some e" "d' = fold (repos_Delete fenv) (take late (k # ks)) ?d"
    using repos_each_broken [of ?fl "k # ks" "Some ?e" fenv late env ?d late] assms(3) unfolding rest by auto
  have run: "repos_each ?env ?fl ?args None (d, None) = (err, Stderr ''deleting repo -D'' # out', d', c)"
    using repos_delete [of ?fl "''-D''" ?env "(d, None)"] rest by (simp only: repos_each.simps(2) [of _ _ "''-D''"]) (simp add: first)
  have dial: "ce_dial ?env a = None" for a using assms(1) by (simp add: over_rpc_def)
  obtain out'' where "main ?env (''repos'' # ?args) (d, None) = (1, out'', d', c)"
    using main_repos [OF p dial _ run] broken(1) by auto
  moreover have "db_Get d' = db_Get d |` (- set (''-D'' # take late (k # ks)))"
    unfolding broken(2) fold_repos_Delete by (auto simp: repos_Delete_def restrict_map_def fun_eq_iff)
  ultimately show ?thesis by blast
qed

section \<open>Instances\<close>

definition idle_env :: "('c db \<times> conn) client_env" where
  "idle_env = \<lparr>ce_server = '''', ce_dial = \<lambda>_. None, ce_search = \<lambda>_ s. ((NewSearchResult, None), s),
     ce_index = \<lambda>_ s. ((NewIndexResult, None), s), ce_get = \<lambda>_ _. ([], None), ce_getall = \<lambda>_. ([], None),
     ce_delete = \<lambda>_ s. (None, s), ce_lstat = \<lambda>_. None, ce_int = Atoi, ce_uint = \<lambda>_. None,
     ce_duration = \<lambda>_. None, ce_show_time = Itoa, ce_show_duration = \<lambda>_. ''0''\<rparr>"

abbreviation kept_db :: "(string, repo) gomap db" where
  "kept_db \<equiv> fst (db_Set plain_env ''k'' (Some (NewRepo\<lparr>r_Key := ''k''\<rparr>)) no_repos)"

lemma idle_dials: "ce_dial idle_env a = None"
  by (simp add: idle_env_def)

lemma repos_prints_database_witness:
  "main (over_rpc plain_env 0 idle_env) [''repos'', ''j'', ''k''] (kept_db, None)
    = (0, [println (repoAsString (idle_env :: ((string, repo) gomap db \<times> conn) client_env) (NewRepo\<lparr>r_Key := ''k''\<rparr>))], kept_db, None)"
proof -
  have "db_ok kept_db" by (simp add: no_repos_def newDb_def db_ok_def)
  from repos_prints_database [OF this idle_dials, of "''j''" "[''k'']"] show ?thesis
    by (simp add: is_flag_def no_repos_Get List.map_filter_simps)
qed

lemma repos_D_loses_connection_witness:
  "\<exists>out d' c. main (over_rpc plain_env 0 idle_env) [''repos'', ''-D'', ''k''] (kept_db, None) = (1, out, d', c) \<and>
    db_Get d' ''k'' = Some (NewRepo\<lparr>r_Key := ''k''\<rparr>)"
proof -
  obtain out d' c where "main (over_rpc plain_env 0 idle_env) [''repos'', ''-D'', ''k''] (kept_db, None) = (1, out, d', c)"
    "db_Get d' = db_Get kept_db |` (- {''-D''})"
    using repos_D_loses_connection [of idle_env "''k''" "[]" plain_env 0 kept_db] by (auto simp: is_flag_def idle_dials)
  then show ?thesis by (auto simp: restrict_map_def)
qed

end
