(* ===== verification/Http_Json.thy ===== *)
theory Http_Json
  imports Repo_Json Api_Find
begin

text \<open>
  The HTTP handlers of \<open>afind/api\<close> on the texts they exchange: a body is decoded into a query by its tags,
  and the reply is encoded, as \<open>encoding/json\<close> does both. With it the handlers \<open>webSearch\<close>, \<open>webFind\<close> and
  \<open>webIndex\<close>, which took a query or an error, become functions from a text to a status and a text.

  The message of a syntax error is a parameter (\<open>bad_syntax\<close>); so is the text of a time (\<open>ft\<close>). A member
  \<open>meta\<close> that is \<open>null\<close> makes the metadata a nil map, which the records of queries have no room for: it is
  a flag beside the query. The backends are parameters that give the results that arrive, and whether
  their channel is closed, never closed, or a goroutine panics.
\<close>

section \<open>Objects by their tags\<close>

type_synonym 'q tags = "string \<Rightarrow> (json \<Rightarrow> go_error option \<Rightarrow> 'q \<Rightarrow> 'q decoded) option"

text \<open>A field is read in place; \<open>null\<close> leaves what it can not set.\<close>

definition field_of ::
  "(json \<Rightarrow> go_error option \<Rightarrow> 'a \<Rightarrow> 'a decoded) \<Rightarrow> ('q \<Rightarrow> 'a) \<Rightarrow> ('a \<Rightarrow> 'q \<Rightarrow> 'q) \<Rightarrow>
   json \<Rightarrow> go_error option \<Rightarrow> 'q \<Rightarrow> 'q decoded" where
  "field_of read get put v err q = map_decoded (\<lambda>x. put x q) (read v err (get q))"

fun decode_members :: "'q tags \<Rightarrow> (string \<times> json) list \<Rightarrow> go_error option \<Rightarrow> 'q \<Rightarrow> 'q decoded" where
  "decode_members tags [] err q = Decoded q err"
| "decode_members tags ((k, v) # ms) err q =
     (case tags (fold_name k) of
        None \<Rightarrow> decode_members tags ms err q
      | Some read \<Rightarrow>
          (case read v err q of
             Decoded q err \<Rightarrow> decode_members tags ms err q
           | res \<Rightarrow> res))"

definition decode_struct :: "string \<Rightarrow> 'q tags \<Rightarrow> json \<Rightarrow> go_error option \<Rightarrow> 'q \<Rightarrow> 'q decoded" where
  "decode_struct typ tags v err q = (case v of
      JObj ms \<Rightarrow> decode_members tags ms err q
    | JNull \<Rightarrow> Decoded q err
    | _ \<Rightarrow> Decoded q (mismatch v typ err))"

definition decode_bool :: "json \<Rightarrow> go_error option \<Rightarrow> bool \<Rightarrow> bool decoded" where
  "decode_bool v err old = (case v of
      JBool b \<Rightarrow> Decoded b err
    | JNull \<Rightarrow> Decoded old err
    | _ \<Rightarrow> Decoded old (mismatch v ''bool'' err))"

definition decode_uint64 :: "json \<Rightarrow> go_error option \<Rightarrow> uint64 \<Rightarrow> uint64 decoded" where
  "decode_uint64 v err old = (case v of
      JNum lit \<Rightarrow> if list_all is_digit lit \<and> digits_val lit < 2 ^ 64 then Decoded (of_nat (digits_val lit)) err
        else Decoded old (mismatch v ''uint64'' err)
    | JNull \<Rightarrow> Decoded old err
    | _ \<Rightarrow> Decoded old (mismatch v ''uint64'' err))"

definition decode_duration :: "json \<Rightarrow> go_error option \<Rightarrow> duration \<Rightarrow> duration decoded" where
  "decode_duration v err old = map_decoded word_of_int (decode_int ''time.Duration'' v err (sint old))"

text \<open>A list is read into the memory that it has: an element that is \<open>null\<close>, or no string, keeps what was
  there. What a list leaves of its memory when it gets shorter is seen again when it is read a second
  time; an empty array and \<open>null\<close> make a new list.\<close>

fun decode_elems :: "json list \<Rightarrow> go_error option \<Rightarrow> string list \<Rightarrow> string list \<Rightarrow> (string list \<times> string list) decoded" where
  "decode_elems [] err memory xs = Decoded (xs, if xs = [] then [] else memory) err"
| "decode_elems (v # vs) err memory xs =
     (case decode_string v err (case memory of [] \<Rightarrow> '''' | s # _ \<Rightarrow> s) of
        Decoded s err \<Rightarrow> decode_elems vs err (tl memory) (xs @ [s])
      | res \<Rightarrow> Outside)"

definition decode_strings ::
  "json \<Rightarrow> go_error option \<Rightarrow> string list \<times> string list \<Rightarrow> (string list \<times> string list) decoded" where
  "decode_strings v err old = (case v of
      JArr vs \<Rightarrow> decode_elems vs err (fst old @ snd old) []
    | JNull \<Rightarrow> Decoded ([], []) err
    | _ \<Rightarrow> Decoded old (mismatch v ''[]string'' err))"

text \<open>Metadata, with whether its map is nil.\<close>

definition decode_nil_meta :: "json \<Rightarrow> go_error option \<Rightarrow> meta \<times> bool \<Rightarrow> (meta \<times> bool) decoded" where
  "decode_nil_meta v err old = (case v of
      JObj ms \<Rightarrow> map_decoded (\<lambda>m. (m, False)) (decode_entries ms err (fst old))
    | JNull \<Rightarrow> Decoded ([], True) err
    | _ \<Rightarrow> Decoded old (mismatch v ''afind.Meta'' err))"

text \<open>\<open>Decoder.Decode\<close> of a body into a query: the query, or the error that \<open>Decode\<close> returns.\<close>

definition decode_body ::
  "(string \<Rightarrow> go_error) \<Rightarrow> string \<Rightarrow> 'q tags \<Rightarrow> string \<Rightarrow> 'q \<Rightarrow> (go_error + 'q) option" where
  "decode_body bad_syntax typ tags body q =
     (case json_read body of
        None \<Rightarrow> Some (Inl (bad_syntax body))
      | Some v \<Rightarrow>
          (case decode_struct typ tags v None q of
             Decoded q None \<Rightarrow> Some (Inr q)
           | Decoded q (Some e) \<Rightarrow> Some (Inl e)
           | Aborted q e \<Rightarrow> Some (Inl e)
           | Outside \<Rightarrow> None))"

section \<open>Queries\<close>

definition context_fields :: "search_context tags" where
  "context_fields = map_of [
     (''both'', field_of (decode_int ''int'') sc_Both (\<lambda>i c. c\<lparr>sc_Both := i\<rparr>)),
     (''pre'', field_of (decode_int ''int'') sc_Pre (\<lambda>i c. c\<lparr>sc_Pre := i\<rparr>)),
     (''post'', field_of (decode_int ''int'') sc_Post (\<lambda>i c. c\<lparr>sc_Post := i\<rparr>))]"

text \<open>A query beside the flag of its metadata and the memory that its lists left, by their tags. The field
  \<open>Recurse\<close> has the tag \<open>-\<close>; a field without a tag goes by its own name.\<close>

type_synonym 'q nilable = "'q \<times> bool \<times> (string \<Rightarrow> string list)"

definition of_query :: "('q \<Rightarrow> 'a) \<Rightarrow> 'q nilable \<Rightarrow> 'a" where "of_query get = get \<circ> fst"

definition in_query :: "('a \<Rightarrow> 'q \<Rightarrow> 'q) \<Rightarrow> 'a \<Rightarrow> 'q nilable \<Rightarrow> 'q nilable" where "in_query put x = apfst (put x)"

abbreviation query_field where
  "query_field read get put \<equiv> field_of read (of_query get) (in_query put)"

definition meta_field ::
  "('q \<Rightarrow> meta) \<Rightarrow> (meta \<Rightarrow> 'q \<Rightarrow> 'q) \<Rightarrow> json \<Rightarrow> go_error option \<Rightarrow> 'q nilable \<Rightarrow> 'q nilable decoded" where
  "meta_field get put = field_of decode_nil_meta (\<lambda>(q, b, _). (get q, b)) (\<lambda>(m, b) (q, _, left). (put m q, b, left))"

definition list_field ::
  "string \<Rightarrow> ('q \<Rightarrow> string list) \<Rightarrow> (string list \<Rightarrow> 'q \<Rightarrow> 'q) \<Rightarrow> json \<Rightarrow> go_error option \<Rightarrow>
   'q nilable \<Rightarrow> 'q nilable decoded" where
  "list_field tag get put = field_of decode_strings (\<lambda>(q, _, left). (get q, left tag))
     (\<lambda>(xs, rest) (q, b, left). (put xs q, b, left(tag := rest)))"

definition search_fields :: "search_query nilable tags" where
  "search_fields = map_of [
     (''re'', query_field decode_string sq_Re (\<lambda>s q. q\<lparr>sq_Re := s\<rparr>)),
     (''path_re'', query_field decode_string sq_PathRe (\<lambda>s q. q\<lparr>sq_PathRe := s\<rparr>)),
     (''i'', query_field decode_bool sq_IgnoreCase (\<lambda>b q. q\<lparr>sq_IgnoreCase := b\<rparr>)),
     (''repo_keys'', list_field ''repo_keys'' sq_RepoKeys (\<lambda>ks q. q\<lparr>sq_RepoKeys := ks\<rparr>)),
     (''meta'', meta_field sq_Meta (\<lambda>m q. q\<lparr>sq_Meta := m\<rparr>)),
     (''meta_use_regexp'', query_field decode_bool sq_MetaRegexpMatch (\<lambda>b q. q\<lparr>sq_MetaRegexpMatch := b\<rparr>)),
     (''metareplicakey'', query_field decode_string sq_MetaReplicaKey (\<lambda>s q. q\<lparr>sq_MetaReplicaKey := s\<rparr>)),
     (''metareplicamax'', query_field (decode_int ''int'') sq_MetaReplicaMax (\<lambda>i q. q\<lparr>sq_MetaReplicaMax := i\<rparr>)),
     (''context'', query_field (decode_struct ''afind.SearchContext'' context_fields) sq_Context
        (\<lambda>c q. q\<lparr>sq_Context := c\<rparr>)),
     (''max_matches'', query_field decode_uint64 sq_MaxMatches (\<lambda>n q. q\<lparr>sq_MaxMatches := n\<rparr>)),
     (''timeout'', query_field decode_duration sq_Timeout (\<lambda>t q. q\<lparr>sq_Timeout := t\<rparr>))]"

definition find_fields :: "find_query nilable tags" where
  "find_fields = map_of [
     (''path_re'', query_field decode_string fq_PathRe (\<lambda>s q. q\<lparr>fq_PathRe := s\<rparr>)),
     (''i'', query_field decode_bool fq_IgnoreCase (\<lambda>b q. q\<lparr>fq_IgnoreCase := b\<rparr>)),
     (''repo_keys'', list_field ''repo_keys'' fq_RepoKeys (\<lambda>ks q. q\<lparr>fq_RepoKeys := ks\<rparr>)),
     (''meta'', meta_field fq_Meta (\<lambda>m q. q\<lparr>fq_Meta := m\<rparr>)),
     (''meta_use_regexp'', query_field decode_bool fq_MetaRegexpMatch (\<lambda>b q. q\<lparr>fq_MetaRegexpMatch := b\<rparr>)),
     (''max_matches'', query_field decode_uint64 fq_MaxMatches (\<lambda>n q. q\<lparr>fq_MaxMatches := n\<rparr>)),
     (''timeout'', query_field decode_duration fq_Timeout (\<lambda>t q. q\<lparr>fq_Timeout := t\<rparr>))]"

definition index_fields :: "index_query nilable tags" where
  "index_fields = map_of [
     (''key'', query_field decode_string iq_Key (\<lambda>s q. q\<lparr>iq_Key := s\<rparr>)),
     (''root'', query_field decode_string iq_Root (\<lambda>s q. q\<lparr>iq_Root := s\<rparr>)),
     (''dirs'', list_field ''dirs'' iq_Dirs (\<lambda>ds q. q\<lparr>iq_Dirs := ds\<rparr>)),
     (''files'', list_field ''files'' iq_Files (\<lambda>fs q. q\<lparr>iq_Files := fs\<rparr>)),
     (''meta'', meta_field iq_Meta (\<lambda>m q. q\<lparr>iq_Meta := m\<rparr>)),
     (''timeout'', query_field decode_duration iq_Timeout (\<lambda>t q. q\<lparr>iq_Timeout := t\<rparr>))]"

text \<open>\<open>Decode\<close> of a body into a query, with the flag of its metadata.\<close>

definition decode_query ::
  "(string \<Rightarrow> go_error) \<Rightarrow> string \<Rightarrow> 'q nilable tags \<Rightarrow> string \<Rightarrow> 'q \<times> bool \<Rightarrow> (go_error + 'q \<times> bool) option" where
  "decode_query bad_syntax typ tags body q =
     map_option (map_sum id (\<lambda>(q, nil, left). (q, nil))) (decode_body bad_syntax typ tags body (fst q, snd q, \<lambda>_. []))"

section \<open>Replies\<close>

definition encode_error :: "struct_error \<Rightarrow> json" where
  "encode_error e = JObj ((''type'', JStr (se_T e)) # (if se_M e = '''' then [] else [(''message'', JStr (se_M e))]))"

definition encode_map :: "('v \<Rightarrow> json) \<Rightarrow> (string, 'v) gomap \<Rightarrow> json" where
  "encode_map enc m = JObj (map (\<lambda>(k, v). (k, enc v)) (sort_key fst m))"

definition encode_uint64 :: "uint64 \<Rightarrow> json" where
  "encode_uint64 n = JNum (Itoa (int (unat n)))"

definition encode_duration :: "duration \<Rightarrow> json" where
  "encode_duration t = JNum (Itoa (sint t))"

definition encode_durations :: "search_durations \<Rightarrow> json" where
  "encode_durations t = JObj [
     (''posting'', encode_duration (sd_PostingQuery t)), (''get_repos'', encode_duration (sd_GetRepos t)),
     (''total'', encode_duration (sd_Search t)),
     (''combined_posting'', encode_duration (sd_CombinedPostingQuery t)),
     (''combined_total'', encode_duration (sd_CombinedSearch t))]"

definition encode_search_result :: "(int \<Rightarrow> string) \<Rightarrow> search_result \<Rightarrow> json" where
  "encode_search_result ft r = JObj (
     [(''matches'', encode_map (encode_map (encode_map JStr)) (sr_Matches r))] @
     (if sr_Errors r = [] then [] else [(''errors'', encode_map encode_error (sr_Errors r))]) @
     (if sr_Error r = '''' then [] else [(''error'', JStr (sr_Error r))]) @
     [(''num_matches'', encode_uint64 (sr_NumMatches r))] @
     (if sr_Repos r = [] then [] else [(''repos'', encode_map (encode_repo ft) (sr_Repos r))]) @
     [(''max_matches'', encode_uint64 (sr_MaxMatches r)), (''durations'', encode_durations (sr_Durations r))])"

definition encode_find_result :: "find_result \<Rightarrow> json" where
  "encode_find_result r = JObj (
     [(''matches'', encode_map (encode_map (\<lambda>i. JNum (Itoa i))) (fr_Matches r))] @
     (if fr_Errors r = [] then [] else [(''errors'', encode_map encode_error (fr_Errors r))]) @
     (case fr_Error r of None \<Rightarrow> [] | Some e \<Rightarrow> [(''error'', encode_error e)]) @
     [(''num_matches'', encode_uint64 (fr_NumMatches r)), (''max_matches'', encode_uint64 (fr_MaxMatches r))])"

definition encode_index_result :: "(int \<Rightarrow> string) \<Rightarrow> index_result \<Rightarrow> json" where
  "encode_index_result ft r = JObj (
     (''repo'', case ir_Repo r of None \<Rightarrow> JNull | Some repo \<Rightarrow> encode_repo ft repo) #
     (case ir_Error r of None \<Rightarrow> [] | Some e \<Rightarrow> [(''error'', encode_error e)]))"

text \<open>What \<open>Encoder.Encode\<close> writes for a reply.\<close>

definition body_text :: "('b \<Rightarrow> json) \<Rightarrow> 'b http_body \<Rightarrow> string" where
  "body_text enc b = (case b of
      NoBody \<Rightarrow> ''''
    | Body x \<Rightarrow> json_text (enc x) @ [CHR 0x0A]
    | ErrorBody e \<Rightarrow> json_text (encode_error e) @ [CHR 0x0A])"

section \<open>Handlers\<close>

text \<open>\<open>SetHost\<close> assigns to the metadata of a query that selects a repository, in the goroutine that makes the
  requests: with a nil map the first host that it visits ends the daemon.\<close>

definition nil_map :: string where
  "nil_map = ''assignment to entry in nil map''"

definition nil_meta_requests ::
  "((string \<times> string list) list \<Rightarrow> (string \<times> string list) list) \<Rightarrow> (nat \<Rightarrow> bool) \<Rightarrow> repo list \<Rightarrow> 'q request list outcome" where
  "nil_meta_requests visit full repos =
     (if length repos < 1 then Returns []
      else case visit (group_hosts repos) of
          [] \<Rightarrow> Returns []
        | (host, keys) # hosts \<Rightarrow> if full 0 then Returns [] else Panics nil_map)"

definition map_outcome :: "('a \<Rightarrow> 'b) \<Rightarrow> 'a outcome \<Rightarrow> 'b outcome" where
  "map_outcome f x = (case x of Panics msg \<Rightarrow> Panics msg | Returns y \<Rightarrow> Returns (f y))"

text \<open>What a backend makes of some requests: the results in the order in which they arrive, and how that
  ends. The channel is closed, or it never is, or a goroutine panics, and the daemon ends with it.\<close>

type_synonym 'r run = "'r list \<times> unit outcome option"

text \<open>Whether the handler gets its results. A query that is not valid needs none; a search may stop
  receiving once it has enough, a find receives until the channel is closed.\<close>

definition search_ends ::
  "string option \<Rightarrow> regexp_compile \<Rightarrow> ((string \<times> string list) list \<Rightarrow> (string \<times> string list) list) \<Rightarrow> config \<Rightarrow>
   (search_query request list \<Rightarrow> search_result run) \<Rightarrow> search_query \<Rightarrow> bool \<Rightarrow> 'c db \<Rightarrow> unit outcome option" where
  "search_ends hostname compile visit c run q nil d =
     (let (timeout, c) = timeoutSearch q c;
          reqs = (if nil then nil_meta_requests visit (\<lambda>n. c_MaxSearchReqBe c > 0 \<and> int n \<ge> c_MaxSearchReqBe c)
              (genGetReqpos compile d (sq_RepoKeys q) (sq_Meta q) (sq_MetaRegexpMatch q))
            else getSearchQueries hostname compile visit c d q)
      in case reqs of
           Panics msg \<Rightarrow> Some (Panics msg)
         | Returns reqs \<Rightarrow>
             (if SearchQuery_Normalize q \<noteq> None then Some (Returns ())
              else (case snd (run reqs) of
                  None \<Rightarrow>
                    if EnoughResults (fst (search_merge (fst (run reqs)) (NewSearchResult\<lparr>sr_MaxMatches := sq_MaxMatches q\<rparr>) []))
                    then Some (Returns ()) else None
                | fin \<Rightarrow> fin)))"

definition find_ends ::
  "string option \<Rightarrow> regexp_compile \<Rightarrow> ((string \<times> string list) list \<Rightarrow> (string \<times> string list) list) \<Rightarrow> config \<Rightarrow>
   (find_query request list \<Rightarrow> find_result run) \<Rightarrow> find_query \<Rightarrow> bool \<Rightarrow> 'c db \<Rightarrow> unit outcome option" where
  "find_ends hostname compile visit c run q nil d =
     (let (timeout, c) = timeoutFind q c; (local, c) = isLocal hostname c (Meta_Host (fq_Meta q));
          reqs = (if nil then nil_meta_requests visit (\<lambda>n. fq_MaxMatches q > 0 \<and> n \<ge> unat (fq_MaxMatches q))
              (genGetReqpos compile d (fq_RepoKeys q) (fq_Meta q) (fq_MetaRegexpMatch q))
            else getFindRequests hostname compile visit c d q)
      in case reqs of
           Panics msg \<Rightarrow> Some (Panics msg)
         | Returns reqs \<Rightarrow> if FindQuery_Normalize q \<noteq> None then Some (Returns ()) else snd (run reqs))"

text \<open>The handlers: \<open>None\<close> is a request that is never answered.\<close>

definition webSearch_text ::
  "(string \<Rightarrow> go_error) \<Rightarrow> (int \<Rightarrow> string) \<Rightarrow> string option \<Rightarrow> regexp_compile \<Rightarrow>
   ((string \<times> string list) list \<Rightarrow> (string \<times> string list) list) \<Rightarrow> config \<Rightarrow> 'c fs_env \<Rightarrow>
   (search_query request list \<Rightarrow> search_result run) \<Rightarrow> duration \<Rightarrow> string \<Rightarrow> 'c db \<Rightarrow>
   ((int \<times> string) \<times> 'c db) outcome option" where
  "webSearch_text bad_syntax ft hostname compile visit c env run elapsed body d =
     (let answer = (\<lambda>read. map_outcome (apfst (apsnd (body_text (encode_search_result ft))))
            (webSearch hostname compile visit c env (fst \<circ> run) elapsed read d))
      in case decode_query bad_syntax ''afind.SearchQuery'' search_fields body (NewSearchQuery '''' '''' False [], False) of
           None \<Rightarrow> None
         | Some (Inl e) \<Rightarrow> Some (answer (Inl e))
         | Some (Inr (q, nil)) \<Rightarrow>
             (case search_ends hostname compile visit c run (q\<lparr>sq_Recurse := True\<rparr>) nil d of
                None \<Rightarrow> None
              | Some (Panics msg) \<Rightarrow> Some (Panics msg)
              | Some (Returns _) \<Rightarrow> Some (answer (Inr q))))"

definition webFind_text ::
  "(string \<Rightarrow> go_error) \<Rightarrow> string option \<Rightarrow> regexp_compile \<Rightarrow>
   ((string \<times> string list) list \<Rightarrow> (string \<times> string list) list) \<Rightarrow> config \<Rightarrow>
   (find_query request list \<Rightarrow> find_result run) \<Rightarrow> string \<Rightarrow> 'c db \<Rightarrow> (int \<times> string) outcome option" where
  "webFind_text bad_syntax hostname compile visit c run body d =
     (let answer = (\<lambda>read. map_outcome (apsnd (body_text encode_find_result))
            (webFind hostname compile visit c (fst \<circ> run) read d))
      in case decode_query bad_syntax ''afind.FindQuery'' find_fields body (NewFindQuery, False) of
           None \<Rightarrow> None
         | Some (Inl e) \<Rightarrow> Some (answer (Inl e))
         | Some (Inr (q, nil)) \<Rightarrow>
             (case find_ends hostname compile visit c run (q\<lparr>fq_Recurse := True\<rparr>) nil d of
                None \<Rightarrow> None
              | Some (Panics msg) \<Rightarrow> Some (Panics msg)
              | Some (Returns _) \<Rightarrow> Some (answer (Inr q))))"

text \<open>Indexing only reads the metadata of its query.\<close>

definition webIndex_text ::
  "(string \<Rightarrow> go_error) \<Rightarrow> (int \<Rightarrow> string) \<Rightarrow> string option \<Rightarrow> (string list \<Rightarrow> string list) \<Rightarrow> config \<Rightarrow>
   'c fs_env \<Rightarrow> index_backend \<Rightarrow> index_choices \<Rightarrow> string \<Rightarrow> 'c db \<Rightarrow> ((int \<times> string) outcome \<times> 'c db) option" where
  "webIndex_text bad_syntax ft hostname order c env be ch body d =
     (case decode_query bad_syntax ''afind.IndexQuery'' index_fields body (NewIndexQuery '''', True) of
        None \<Rightarrow> None
      | Some read \<Rightarrow>
          Some (apfst (map_outcome (apsnd (body_text (encode_index_result ft))))
            (webIndex hostname order c env be ch (map_sum id fst read) d)))"

section \<open>What a body can not set\<close>

text \<open>Reading a field leaves a part of what it is read into as it is.\<close>

definition keeps :: "('q \<Rightarrow> 'i) \<Rightarrow> (json \<Rightarrow> go_error option \<Rightarrow> 'q \<Rightarrow> 'q decoded) \<Rightarrow> bool" where
  "keeps I read \<longleftrightarrow> (\<forall>v err q q' err'. read v err q = Decoded q' err' \<longrightarrow> I q' = I q)"

lemma decode_members_keeps:
  assumes "decode_members tags ms err q = Decoded q' err'" "\<forall>k read. tags k = Some read \<longrightarrow> keeps I read"
  shows "I q' = I q"
  using assms
proof (induction tags ms err q rule: decode_members.induct)
  case (2 tags k v ms err q)
  show ?case
  proof (cases "tags (fold_name k)")
    case None
    with 2(1,3,4) show ?thesis by simp
  next
    case (Some read)
    then obtain q1 err1 where read: "read v err q = Decoded q1 err1" "decode_members tags ms err1 q1 = Decoded q' err'"
      using 2(3) by (auto split: decoded.splits)
    moreover have "I q1 = I q" using 2(4) Some read(1) unfolding keeps_def by blast
    ultimately show ?thesis using 2(2) [OF Some read] 2(4) by simp
  qed
qed simp

lemma decode_body_keeps:
  assumes "decode_body bad_syntax typ tags body q = Some (Inr q')" "\<forall>k read. tags k = Some read \<longrightarrow> keeps I read"
  shows "I q' = I q"
  using assms(1) decode_members_keeps [OF _ assms(2)]
  by (auto simp: decode_body_def decode_struct_def split: option.splits json.splits decoded.splits)

lemma keeps_table: "list_all (\<lambda>(k, read). keeps I read) ts \<Longrightarrow> map_of ts k = Some read \<Longrightarrow> keeps I read"
  by (auto simp: list_all_iff dest: map_of_SomeD)

lemma map_decoded_eq: "map_decoded f x = Decoded y err \<Longrightarrow> \<exists>z. y = f z"
  by (cases x) auto

lemma keeps_field [simp]:
  "(\<And>x q. I (put x q) = I q) \<Longrightarrow> keeps (I \<circ> fst) (query_field read get put)"
  "(\<And>m q. I (put' m q) = I q) \<Longrightarrow> keeps (I \<circ> fst) (meta_field get' put')"
  "(\<And>xs q. I (put'' xs q) = I q) \<Longrightarrow> keeps (I \<circ> fst) (list_field tag get'' put'')"
  by (auto simp: keeps_def field_of_def in_query_def meta_field_def list_field_def dest!: map_decoded_eq split: prod.split)

lemma decode_query_keeps:
  assumes "decode_query bad_syntax typ tags body (q, b) = Some (Inr (q', b'))" "\<forall>k read. tags k = Some read \<longrightarrow> keeps (I \<circ> fst) read"
  shows "I q' = I q"
proof -
  obtain res where res: "decode_body bad_syntax typ tags body (q, b, \<lambda>_. []) = Some res"
    "map_sum id (\<lambda>(q, nil, left). (q, nil)) res = Inr (q', b')"
    using assms(1) by (auto simp: decode_query_def)
  then obtain left where "decode_body bad_syntax typ tags body (q, b, \<lambda>_. []) = Some (Inr (q', b', left))"
    by (cases res) auto
  from decode_body_keeps [OF this assms(2)] show ?thesis by simp
qed

lemma tables_keep_recurse:
  "\<forall>k read. search_fields k = Some read \<longrightarrow> keeps (sq_Recurse \<circ> fst) read"
  "\<forall>k read. find_fields k = Some read \<longrightarrow> keeps (fq_Recurse \<circ> fst) read"
  "\<forall>k read. index_fields k = Some read \<longrightarrow> keeps (iq_Recurse \<circ> fst) read"
  unfolding search_fields_def find_fields_def index_fields_def by (intro allI impI, erule keeps_table [rotated], simp; fail)+

text \<open>C29. A client can not ask for recursion. Whatever text a body is, the query it is decoded into has the
  \<open>Recurse\<close> of the query that the handler set up before, for all three services.\<close>

theorem recursion_not_in_bodies:
  "(decode_query bad_syntax tn search_fields body (sq, b) = Some (Inr (sq', b')) \<longrightarrow> sq_Recurse sq' = sq_Recurse sq) \<and>
   (decode_query bad_syntax tn find_fields body (fq, b) = Some (Inr (fq', b')) \<longrightarrow> fq_Recurse fq' = fq_Recurse fq) \<and>
   (decode_query bad_syntax tn index_fields body (iq, b) = Some (Inr (iq', b')) \<longrightarrow> iq_Recurse iq' = iq_Recurse iq)"
  by (intro conjI impI; (erule decode_query_keeps [OF _ tables_keep_recurse(1)] decode_query_keeps [OF _ tables_keep_recurse(2)]
    decode_query_keeps [OF _ tables_keep_recurse(3)]))

lemma recursion_not_in_bodies_witness:
  "\<exists>q. decode_query OtherError ''afind.SearchQuery'' search_fields (json_text (JObj [(''Recurse'', JBool True), (''re'', JStr ''x'')]))
      (NewSearchQuery '''' '''' False [], False) = Some (Inr (q, False)) \<and> sq_Re q = ''x'' \<and> \<not> sq_Recurse q"
proof -
  let ?body = "json_text (JObj [(''Recurse'', JBool True), (''re'', JStr ''x'')])"
  have "json_read ?body = Some (JObj [(''Recurse'', JBool True), (''re'', JStr ''x'')])"
    using json_read_text [of "JObj [(''Recurse'', JBool True), (''re'', JStr ''x'')]" "[]"] by (simp add: coerce_name)
  then obtain q where q: "decode_query OtherError ''afind.SearchQuery'' search_fields ?body
      (NewSearchQuery '''' '''' False [], False) = Some (Inr (q, False))" "sq_Re q = ''x''"
    by (simp add: decode_query_def decode_body_def decode_struct_def search_fields_def fold_byte_def field_of_def decode_string_def
        in_query_def NewSearchQuery_def)
  moreover have "sq_Recurse q = sq_Recurse (NewSearchQuery '''' '''' False [])"
    using recursion_not_in_bodies q(1) by blast
  ultimately show ?thesis by (simp add: NewSearchQuery_def)
qed

section \<open>What a body can do to the daemon\<close>

lemma web_returns:
  "\<exists>res. webSearch hostname compile visit c env arrive elapsed read d = Returns res"
  "\<exists>res. webFind hostname compile visit c arrive' read' d = Returns res"
proof -
  have "\<exists>res. doSearch hostname compile visit c env arrive elapsed q d = Returns res" for c q
  proof -
    have "\<exists>reqs. getSearchQueries hostname compile visit c d q = Returns reqs"
      by (simp add: getSearchQueries_def Let_def dispatch_returns)
    then show ?thesis by (auto simp: doSearch_def split_def Let_def split: option.split)
  qed
  then have search: "\<exists>resp err d'. doSearch hostname compile visit c env arrive elapsed q d = Returns (resp, err, d')" for c q
    by (metis prod.collapse)
  show "\<exists>res. webSearch hostname compile visit c env arrive elapsed read d = Returns res"
  proof (cases read)
    case (Inr q)
    then show ?thesis
      using search [of "snd (timeoutSearch (q\<lparr>sq_Recurse := True\<rparr>) c)" "q\<lparr>sq_Recurse := True\<rparr>"]
      by (auto simp: webSearch_def split_def Let_def)
  qed (simp add: webSearch_def)
  have find: "\<exists>res. doFind hostname compile visit c arrive' q d = Returns res" for c q
  proof -
    let ?c = "snd (isLocal hostname c (Meta_Host (fq_Meta q)))"
    have "\<exists>reqs. getFindRequests hostname compile visit ?c d q = Returns reqs"
      by (simp add: getFindRequests_def Let_def dispatch_returns)
    then show ?thesis by (auto simp: doFind_def split_def Let_def split: option.split)
  qed
  show "\<exists>res. webFind hostname compile visit c arrive' read' d = Returns res"
  proof (cases read')
    case (Inr q)
    then show ?thesis
      using find [of "snd (timeoutFind (q\<lparr>fq_Recurse := True\<rparr>) c)" "q\<lparr>fq_Recurse := True\<rparr>"]
      by (auto simp: webFind_def split_def Let_def)
  qed (simp add: webFind_def)
qed

text \<open>Every body is decoded, or is an error.\<close>

definition inside :: "(json \<Rightarrow> go_error option \<Rightarrow> 'q \<Rightarrow> 'q decoded) \<Rightarrow> bool" where
  "inside read \<longleftrightarrow> (\<forall>v err q. read v err q \<noteq> Outside)"

lemma decode_members_inside:
  "\<forall>k read. tags k = Some read \<longrightarrow> inside read \<Longrightarrow> decode_members tags ms err q \<noteq> Outside"
  by (induction tags ms err q rule: decode_members.induct) (auto simp: inside_def split: option.split decoded.split)

lemma inside_table: "list_all (\<lambda>(k, read). inside read) ts \<Longrightarrow> map_of ts k = Some read \<Longrightarrow> inside read"
  by (auto simp: list_all_iff dest: map_of_SomeD)

lemma inside_struct: "\<forall>k read. tags k = Some read \<longrightarrow> inside read \<Longrightarrow> inside (decode_struct typ tags)"
  using decode_members_inside [of tags] by (auto simp: inside_def decode_struct_def split: json.split)

lemma map_decoded_Outside [simp]: "map_decoded f x = Outside \<longleftrightarrow> x = Outside"
  by (cases x) simp_all

lemma inside_field: "inside read \<Longrightarrow> inside (field_of read get put)"
  by (simp add: inside_def field_of_def)

lemma inside_values: "inside decode_string" "inside (decode_int typ)" "inside decode_bool" "inside decode_uint64"
  by (auto simp: inside_def decode_string_def decode_int_def decode_bool_def decode_uint64_def split: json.split option.split)

lemma inside_lists: "inside decode_duration" "inside decode_strings" "inside decode_nil_meta"
proof -
  have str: "\<exists>s e. decode_string v err old = Decoded s e" for v err old
    by (auto simp: decode_string_def split: json.split)
  have "decode_elems vs err memory xs \<noteq> Outside" for vs err memory xs
  proof (induction vs arbitrary: err memory xs)
    case (Cons v vs)
    obtain s e where "decode_string v err (case memory of [] \<Rightarrow> '''' | s # _ \<Rightarrow> s) = Decoded s e" using str by blast
    with Cons show ?case by simp
  qed simp
  then show "inside decode_strings" by (auto simp: inside_def decode_strings_def split: json.split)
  have "decode_entries ms err m \<noteq> Outside" for ms err m
  proof (induction ms arbitrary: err m)
    case (Cons kv ms)
    obtain k v where "kv = (k, v)" by (cases kv)
    moreover obtain s e where "decode_string v err '''' = Decoded s e" using str by blast
    ultimately show ?case using Cons by simp
  qed simp
  then show "inside decode_nil_meta" by (auto simp: inside_def decode_nil_meta_def split: json.split)
  show "inside decode_duration"
    using inside_values(2) by (simp add: inside_def decode_duration_def)
qed

lemma tables_inside:
  "\<forall>k read. context_fields k = Some read \<longrightarrow> inside read"
  "\<forall>k read. search_fields k = Some read \<longrightarrow> inside read"
  "\<forall>k read. find_fields k = Some read \<longrightarrow> inside read"
  "\<forall>k read. index_fields k = Some read \<longrightarrow> inside read"
proof -
  note reads = inside_field [OF inside_values(1)] inside_field [OF inside_values(2)] inside_field [OF inside_values(3)]
    inside_field [OF inside_values(4)] inside_field [OF inside_lists(1)] inside_field [OF inside_lists(2)]
    inside_field [OF inside_lists(3)]
  show ctx: "\<forall>k read. context_fields k = Some read \<longrightarrow> inside read"
    unfolding context_fields_def by (intro allI impI, erule inside_table [rotated], simp add: reads)
  note reads = reads inside_field [OF inside_struct [OF ctx]]
  show "\<forall>k read. search_fields k = Some read \<longrightarrow> inside read"
    unfolding search_fields_def by (intro allI impI, erule inside_table [rotated], simp add: reads meta_field_def list_field_def)
  show "\<forall>k read. find_fields k = Some read \<longrightarrow> inside read"
    unfolding find_fields_def by (intro allI impI, erule inside_table [rotated], simp add: reads meta_field_def list_field_def)
  show "\<forall>k read. index_fields k = Some read \<longrightarrow> inside read"
    unfolding index_fields_def by (intro allI impI, erule inside_table [rotated], simp add: reads meta_field_def list_field_def)
qed

lemma decode_query_some:
  assumes "\<forall>k read. tags k = Some read \<longrightarrow> inside read"
  shows "\<exists>read. decode_query bad_syntax typ tags body q = Some read"
  using inside_struct [OF assms]
  by (auto simp: decode_query_def decode_body_def inside_def split: option.split decoded.split)

text \<open>The goroutine that makes the requests, with a nil map.\<close>

lemma nil_meta_panics:
  assumes "\<And>hosts. mset (visit hosts) = mset hosts" "\<not> full 0"
  shows "nil_meta_requests visit full repos = (if repos = [] then Returns [] else Panics nil_map)"
proof (cases repos)
  case (Cons r rs)
  have "mset (concat (map snd (group_hosts repos))) = mset (map r_Key repos)" by (rule group_hosts_keys)
  then have "group_hosts repos \<noteq> []" using Cons by auto
  then obtain host keys hosts where "visit (group_hosts repos) = (host, keys) # hosts"
    using assms(1) [of "group_hosts repos"] by (cases "visit (group_hosts repos)") auto
  with Cons assms(2) show ?thesis by (simp add: nil_meta_requests_def)
qed (simp add: nil_meta_requests_def)

text \<open>How the handlers end, for a query that was decoded.\<close>

definition ends_as :: "('q request list \<Rightarrow> 'r run) \<Rightarrow> bool \<Rightarrow> unit outcome option \<Rightarrow> bool" where
  "ends_as run null_selects fin \<longleftrightarrow> (if null_selects then fin = Some (Panics nil_map)
     else fin = Some (Returns ()) \<or> (\<exists>reqs. snd (run reqs) = fin \<and> fin \<noteq> Some (Returns ())))"

lemma search_ends_as:
  assumes "\<And>hosts. mset (visit hosts) = mset hosts"
  shows "ends_as run (nil \<and> genGetReqpos compile d (sq_RepoKeys q) (sq_Meta q) (sq_MetaRegexpMatch q) \<noteq> [])
    (search_ends hostname compile visit c run q nil d)"
proof -
  have "\<exists>reqs. getSearchQueries hostname compile visit c d q = Returns reqs" for c
    by (simp add: getSearchQueries_def Let_def dispatch_returns)
  then obtain reqs where "\<And>c. getSearchQueries hostname compile visit c d q = Returns (reqs c)" by metis
  moreover have nil: "nil_meta_requests visit (\<lambda>n. c_MaxSearchReqBe c > 0 \<and> int n \<ge> c_MaxSearchReqBe c) repos
      = (if repos = [] then Returns [] else Panics nil_map)" for c repos
    by (rule nil_meta_panics [OF assms]) simp
  ultimately show ?thesis
    unfolding search_ends_def ends_as_def split_def Let_def nil
    by (cases nil) (auto split: option.splits outcome.splits)
qed

lemma find_ends_as:
  assumes "\<And>hosts. mset (visit hosts) = mset hosts"
  shows "ends_as run (nil \<and> genGetReqpos compile d (fq_RepoKeys q) (fq_Meta q) (fq_MetaRegexpMatch q) \<noteq> [])
    (find_ends hostname compile visit c run q nil d)"
proof -
  have "\<exists>reqs. getFindRequests hostname compile visit c d q = Returns reqs" for c
    by (simp add: getFindRequests_def Let_def dispatch_returns)
  then obtain reqs where "\<And>c. getFindRequests hostname compile visit c d q = Returns (reqs c)" by metis
  moreover have nil: "nil_meta_requests visit (\<lambda>n. fq_MaxMatches q > 0 \<and> n \<ge> unat (fq_MaxMatches q)) repos
      = (if repos = [] then Returns [] else Panics nil_map)" for repos
    by (rule nil_meta_panics [OF assms]) (metis le_zero_eq less_irrefl unat_eq_0)
  ultimately show ?thesis
    unfolding find_ends_def ends_as_def split_def Let_def nil by (cases nil) auto
qed

lemma search_ending:
  assumes "\<And>hosts. mset (visit hosts) = mset hosts"
    and sread_def: "sread = decode_query bad_syntax ''afind.SearchQuery'' search_fields body (NewSearchQuery '''' '''' False [], False)"
    and sres_def: "sres = webSearch_text bad_syntax ft hostname compile visit c env run elapsed body d"
  shows "if \<exists>q. sread = Some (Inr (q, True)) \<and> genGetReqpos compile d (sq_RepoKeys q) (sq_Meta q) (sq_MetaRegexpMatch q) \<noteq> []
      then sres = Some (Panics nil_map)
      else (\<exists>status t d'. sres = Some (Returns ((status, t), d'))) \<or>
        (\<exists>reqs. snd (run reqs) = None \<and> sres = None) \<or>
        (\<exists>reqs msg. snd (run reqs) = Some (Panics msg) \<and> sres = Some (Panics msg))"
proof -
  let ?answer = "\<lambda>read. map_outcome (apfst (apsnd (body_text (encode_search_result ft))))
    (webSearch hostname compile visit c env (fst \<circ> run) elapsed read d)"
  have answer: "\<exists>status t d'. ?answer read = Returns ((status, t), d')" for read
    using web_returns(1) [of hostname compile visit c env "fst \<circ> run" elapsed read d] by (auto simp: map_outcome_def)
  obtain read where read: "sread = Some read"
    using decode_query_some [OF tables_inside(2)] unfolding sread_def by blast
  show ?thesis
  proof (cases read)
    case (Inl e)
    then have "sres = Some (?answer (Inl e))"
      using read unfolding sres_def webSearch_text_def sread_def by simp
    with answer [of "Inl e"] Inl read show ?thesis by simp
  next
    case (Inr qn)
    obtain q nil where qn: "qn = (q, nil)" by (cases qn)
    let ?ends = "search_ends hostname compile visit c run (q\<lparr>sq_Recurse := True\<rparr>) nil d"
    have res: "sres = (case ?ends of None \<Rightarrow> None | Some (Panics msg) \<Rightarrow> Some (Panics msg)
        | Some (Returns _) \<Rightarrow> Some (?answer (Inr q)))"
      using read unfolding sres_def webSearch_text_def sread_def by (simp add: Inr qn)
    have "ends_as run (nil \<and> genGetReqpos compile d (sq_RepoKeys q) (sq_Meta q) (sq_MetaRegexpMatch q) \<noteq> []) ?ends"
      using search_ends_as [OF assms(1), of run nil compile d "q\<lparr>sq_Recurse := True\<rparr>"] by simp
    with answer [of "Inr q"] show ?thesis
      unfolding res read Inr qn ends_as_def by (cases nil; cases ?ends; cases "the ?ends") (auto split: if_splits)
  qed
qed

lemma find_ending:
  assumes "\<And>hosts. mset (visit hosts) = mset hosts"
    and fread_def: "fread = decode_query bad_syntax ''afind.FindQuery'' find_fields body (NewFindQuery, False)"
    and fres_def: "fres = webFind_text bad_syntax hostname compile visit c run body d"
  shows "if \<exists>q. fread = Some (Inr (q, True)) \<and> genGetReqpos compile d (fq_RepoKeys q) (fq_Meta q) (fq_MetaRegexpMatch q) \<noteq> []
      then fres = Some (Panics nil_map)
      else (\<exists>status t. fres = Some (Returns (status, t))) \<or>
        (\<exists>reqs. snd (run reqs) = None \<and> fres = None) \<or>
        (\<exists>reqs msg. snd (run reqs) = Some (Panics msg) \<and> fres = Some (Panics msg))"
proof -
  let ?answer = "\<lambda>read. map_outcome (apsnd (body_text encode_find_result))
    (webFind hostname compile visit c (fst \<circ> run) read d)"
  have answer: "\<exists>status t. ?answer read = Returns (status, t)" for read
    using web_returns(2) [of hostname compile visit c "fst \<circ> run" read d] by (auto simp: map_outcome_def)
  obtain read where read: "fread = Some read"
    using decode_query_some [OF tables_inside(3)] unfolding fread_def by blast
  show ?thesis
  proof (cases read)
    case (Inl e)
    then have "fres = Some (?answer (Inl e))"
      using read unfolding fres_def webFind_text_def fread_def by simp
    with answer [of "Inl e"] Inl read show ?thesis by simp
  next
    case (Inr qn)
    obtain q nil where qn: "qn = (q, nil)" by (cases qn)
    let ?ends = "find_ends hostname compile visit c run (q\<lparr>fq_Recurse := True\<rparr>) nil d"
    have res: "fres = (case ?ends of None \<Rightarrow> None | Some (Panics msg) \<Rightarrow> Some (Panics msg)
        | Some (Returns _) \<Rightarrow> Some (?answer (Inr q)))"
      using read unfolding fres_def webFind_text_def fread_def by (simp add: Inr qn)
    have "ends_as run (nil \<and> genGetReqpos compile d (fq_RepoKeys q) (fq_Meta q) (fq_MetaRegexpMatch q) \<noteq> []) ?ends"
      using find_ends_as [OF assms(1), of run nil compile d "q\<lparr>fq_Recurse := True\<rparr>"] by simp
    with answer [of "Inr q"] show ?thesis
      unfolding res read Inr qn ends_as_def by (cases nil; cases ?ends; cases "the ?ends") (auto split: if_splits)
  qed
qed


text \<open>Such a body: an expression and \<open>null\<close>, for any database with an available repository.\<close>

lemma null_metadata_body:
  "decode_query bad_syntax ''afind.SearchQuery'' search_fields (json_text (JObj [(''re'', JStr ''x''), (''meta'', JNull)]))
     (NewSearchQuery '''' '''' False [], False) = Some (Inr (NewSearchQuery ''x'' '''' False [], True))"
proof -
  have "json_read (json_text (JObj [(''re'', JStr ''x''), (''meta'', JNull)]))
      = Some (JObj [(''re'', JStr ''x''), (''meta'', JNull)])"
    using json_read_text [of "JObj [(''re'', JStr ''x''), (''meta'', JNull)]" "[]"] by (simp add: coerce_name)
  then show ?thesis
    by (simp add: decode_query_def decode_body_def decode_struct_def search_fields_def fold_byte_def field_of_def decode_string_def
        in_query_def meta_field_def decode_nil_meta_def NewSearchQuery_def)
qed


section \<open>Requests that clients write\<close>

definition encode_strings :: "string list \<Rightarrow> json" where
  "encode_strings ss = JArr (map JStr ss)"

definition encode_context :: "search_context \<Rightarrow> json" where
  "encode_context c = JObj [(''both'', JNum (Itoa (sc_Both c))), (''pre'', JNum (Itoa (sc_Pre c))),
     (''post'', JNum (Itoa (sc_Post c)))]"

definition encode_search_query :: "search_query \<Rightarrow> json" where
  "encode_search_query q = JObj (
     [(''re'', JStr (sq_Re q)), (''path_re'', JStr (sq_PathRe q)), (''i'', JBool (sq_IgnoreCase q)),
      (''repo_keys'', encode_strings (sq_RepoKeys q)), (''meta'', encode_meta (sq_Meta q))] @
     (if sq_MetaRegexpMatch q then [(''meta_use_regexp'', JBool True)] else []) @
     [(''MetaReplicaKey'', JStr (sq_MetaReplicaKey q)), (''MetaReplicaMax'', JNum (Itoa (sq_MetaReplicaMax q))),
      (''context'', encode_context (sq_Context q)), (''max_matches'', encode_uint64 (sq_MaxMatches q)),
      (''timeout'', encode_duration (sq_Timeout q))])"

definition encode_find_query :: "find_query \<Rightarrow> json" where
  "encode_find_query q = JObj (
     [(''path_re'', JStr (fq_PathRe q)), (''i'', JBool (fq_IgnoreCase q))] @
     (if fq_RepoKeys q = [] then [] else [(''repo_keys'', encode_strings (fq_RepoKeys q))]) @
     [(''meta'', encode_meta (fq_Meta q))] @
     (if fq_MetaRegexpMatch q then [(''meta_use_regexp'', JBool True)] else []) @
     [(''max_matches'', encode_uint64 (fq_MaxMatches q)), (''timeout'', encode_duration (fq_Timeout q))])"

definition encode_index_query :: "index_query \<Rightarrow> json" where
  "encode_index_query q = JObj [(''key'', JStr (iq_Key q)), (''root'', JStr (iq_Root q)),
     (''dirs'', encode_strings (iq_Dirs q)), (''Files'', encode_strings (iq_Files q)), (''meta'', encode_meta (iq_Meta q)),
     (''timeout'', encode_duration (iq_Timeout q))]"

definition int64 :: "int \<Rightarrow> bool" where
  "int64 i \<longleftrightarrow> - (2 ^ 63) \<le> i \<and> i < 2 ^ 63"

lemma elems_ok_map: "elems_ok (map f xs) = (\<forall>x \<in> set xs. json_ok (f x))"
  by (induction xs) auto

lemma coerce_elems_map: "coerce_elems vs = map coerce_json vs"
  by (induction vs) auto

lemma decode_elems_strings: "decode_elems (map (JStr \<circ> f) ss) err [] xs = Decoded (xs @ map f ss, []) err"
  by (induction ss arbitrary: xs) (auto simp: decode_string_def)

lemma decode_strings_encoded: "decode_strings (coerce_json (encode_strings ss)) err ([], []) = Decoded (map coerce ss, []) err"
  using decode_elems_strings [of coerce ss err "[]"]
  by (simp add: decode_strings_def encode_strings_def coerce_elems_map o_def)

lemma decode_nil_meta_encoded: "decode_nil_meta (coerce_json (encode_meta m)) err ([], b) = Decoded (coerce_meta m, False) err"
  using decode_meta_encoded [of m err] by (simp add: decode_nil_meta_def decode_meta_def encode_meta_def)

lemma decode_int_Itoa: "int64 i \<Longrightarrow> decode_int typ (JNum (Itoa i)) err old = Decoded i err"
  by (simp add: decode_int_def int64_def Atoi_Itoa)

lemma decode_duration_encoded: "decode_duration (encode_duration t) err old = Decoded t err"
  using sint_greater_eq [of t] sint_less [of t]
  by (simp add: decode_duration_def encode_duration_def decode_int_Itoa int64_def)

lemma decode_uint64_encoded: "decode_uint64 (encode_uint64 n) err old = Decoded n err"
proof -
  have "unat n < 2 ^ 64" using unsigned_less [where w = n and 'a = nat] by simp
  then show ?thesis
  by (simp add: decode_uint64_def encode_uint64_def Itoa_def Itoa_nat_digits digits_val_Itoa_nat)
qed

lemma json_ok_parts [simp]:
  "json_ok (encode_strings ss)" "json_ok (encode_meta m)" "json_ok (encode_context c)" "json_ok (encode_uint64 n)"
  "json_ok (encode_duration t)"
  by (auto simp: encode_strings_def elems_ok_map encode_meta_def encode_context_def encode_uint64_def encode_duration_def
      number_Itoa intro!: json_ok_members)

text \<open>A query as its text carries it: strings made valid UTF-8, no recursion.\<close>

definition sent_search :: "search_query \<Rightarrow> search_query" where
  "sent_search q = q\<lparr>sq_Re := coerce (sq_Re q), sq_PathRe := coerce (sq_PathRe q),
     sq_RepoKeys := map coerce (sq_RepoKeys q), sq_Meta := coerce_meta (sq_Meta q),
     sq_MetaReplicaKey := coerce (sq_MetaReplicaKey q), sq_Recurse := False\<rparr>"

definition sent_find :: "find_query \<Rightarrow> find_query" where
  "sent_find q = q\<lparr>fq_PathRe := coerce (fq_PathRe q), fq_RepoKeys := map coerce (fq_RepoKeys q),
     fq_Meta := coerce_meta (fq_Meta q), fq_Recurse := False\<rparr>"

definition sent_index :: "index_query \<Rightarrow> index_query" where
  "sent_index q = q\<lparr>iq_Key := coerce (iq_Key q), iq_Root := coerce (iq_Root q), iq_Dirs := map coerce (iq_Dirs q),
     iq_Files := map coerce (iq_Files q), iq_Meta := coerce_meta (iq_Meta q), iq_Recurse := False\<rparr>"

lemma coerce_numbers [simp]: "coerce_json (encode_uint64 n) = encode_uint64 n"
  "coerce_json (encode_duration t) = encode_duration t"
  by (simp_all add: encode_uint64_def encode_duration_def)

lemma decode_context_encoded:
  assumes "int64 (sc_Both c)" "int64 (sc_Pre c)" "int64 (sc_Post c)"
  shows "decode_struct typ context_fields (coerce_json (encode_context c)) err old = Decoded c err"
  using assms by (simp add: decode_struct_def encode_context_def context_fields_def coerce_name fold_byte_def field_of_def
      decode_int_Itoa)

lemma fold_name_lower:
  "list_all (\<lambda>c. byte c < 128 \<and> \<not> (65 \<le> byte c \<and> byte c \<le> 90)) s \<Longrightarrow> fold_name s = s"
  by (induction s) (auto simp: fold_byte_def)

lemma fold_names: "fold_name ''MetaReplicaKey'' = ''metareplicakey''" "fold_name ''MetaReplicaMax'' = ''metareplicamax''"
  "fold_name ''Files'' = ''files''"
  by code_simp+

lemma decode_body_text:
  assumes "json_ok v"
  shows "decode_body bad_syntax tn tags (json_text v @ [CHR 0x0A]) q =
    (case decode_struct tn tags (coerce_json v) None q of
       Decoded q None \<Rightarrow> Some (Inr q)
     | Decoded q (Some e) \<Rightarrow> Some (Inl e)
     | Aborted q e \<Rightarrow> Some (Inl e)
     | Outside \<Rightarrow> None)"
  using json_read_text [OF assms, of "[CHR 0x0A]"] by (simp add: decode_body_def)

lemma decode_struct_members: "decode_struct tn tags (JObj ms) err q = decode_members tags ms err q"
  by (simp add: decode_struct_def)

lemma none_left [simp]: "(\<lambda>_. [])(tag := []) = (\<lambda>_. [])"
  by (simp add: fun_eq_iff)

lemmas query_decoding = field_of_def list_field_def in_query_def of_query_def meta_field_def decode_string_def
  decode_bool_def decode_strings_encoded decode_nil_meta_encoded decode_int_Itoa decode_context_encoded
  decode_uint64_encoded decode_duration_encoded coerce_name number_Itoa fold_name_lower fold_names decode_struct_members

definition sendable :: "search_query \<Rightarrow> bool" where
  "sendable q \<longleftrightarrow> int64 (sq_MetaReplicaMax q) \<and> int64 (sc_Both (sq_Context q)) \<and> int64 (sc_Pre (sq_Context q)) \<and>
     int64 (sc_Post (sq_Context q))"

lemma search_read_back:
  assumes "sendable q"
  shows "decode_query bad_syntax tn search_fields (json_text (encode_search_query q) @ [CHR 0x0A])
      (NewSearchQuery '''' '''' False [], False) = Some (Inr (sent_search q, False))"
proof -
  have ok: "json_ok (encode_search_query q)" by (simp add: encode_search_query_def number_Itoa)
  have "decode_struct tn search_fields (coerce_json (encode_search_query q)) None (NewSearchQuery '''' '''' False [], False, \<lambda>_. [])
      = Decoded (sent_search q, False, \<lambda>_. []) None"
    using assms by (cases "sq_MetaRegexpMatch q") (simp_all add: search_fields_def encode_search_query_def query_decoding
      NewSearchQuery_def sent_search_def sendable_def del: fold_name.simps)
  then show ?thesis by (simp add: decode_query_def decode_body_text [OF ok])
qed

lemma find_read_back:
  "decode_query bad_syntax tn find_fields (json_text (encode_find_query q) @ [CHR 0x0A]) (NewFindQuery, False)
    = Some (Inr (sent_find q, False))"
proof -
  have ok: "json_ok (encode_find_query q)" by (simp add: encode_find_query_def number_Itoa)
  have "decode_struct tn find_fields (coerce_json (encode_find_query q)) None (NewFindQuery, False, \<lambda>_. [])
      = Decoded (sent_find q, False, \<lambda>_. []) None"
    by (cases "fq_MetaRegexpMatch q"; cases "fq_RepoKeys q = []") (simp_all add: find_fields_def encode_find_query_def
      query_decoding NewFindQuery_def sent_find_def del: fold_name.simps)
  then show ?thesis by (simp add: decode_query_def decode_body_text [OF ok])
qed

lemma index_read_back:
  "decode_query bad_syntax tn index_fields (json_text (encode_index_query q) @ [CHR 0x0A]) (NewIndexQuery '''', True)
    = Some (Inr (sent_index q, False))"
proof -
  have ok: "json_ok (encode_index_query q)" by (simp add: encode_index_query_def)
  have "decode_struct tn index_fields (coerce_json (encode_index_query q)) None (NewIndexQuery '''', True, \<lambda>_. [])
      = Decoded (sent_index q, False, \<lambda>_. []) None"
    by (simp add: index_fields_def encode_index_query_def query_decoding NewIndexQuery_def sent_index_def
      del: fold_name.simps)
  then show ?thesis by (simp add: decode_query_def decode_body_text [OF ok])
qed

text \<open>C15. A request that is written by the tags of its query is read back as that query, for every service:
  all its fields, strings with bytes that are not valid UTF-8 replaced, without its \<open>Recurse\<close>; and its
  metadata is not nil.\<close>

theorem requests_read_back:
  assumes "sendable sq"
  shows "decode_query bad_syntax tn search_fields (json_text (encode_search_query sq) @ [CHR 0x0A])
      (NewSearchQuery '''' '''' False [], False) = Some (Inr (sent_search sq, False)) \<and>
    decode_query bad_syntax tn find_fields (json_text (encode_find_query fq) @ [CHR 0x0A]) (NewFindQuery, False)
      = Some (Inr (sent_find fq, False)) \<and>
    decode_query bad_syntax tn index_fields (json_text (encode_index_query iq) @ [CHR 0x0A]) (NewIndexQuery '''', True)
      = Some (Inr (sent_index iq, False))"
  using search_read_back [OF assms] find_read_back index_read_back by blast

lemma requests_read_back_witness:
  "decode_query OtherError ''q'' find_fields (json_text (encode_find_query (NewFindQuery\<lparr>fq_PathRe := ''x'', fq_Recurse := True\<rparr>))
     @ [CHR 0x0A]) (NewFindQuery, False) = Some (Inr (NewFindQuery\<lparr>fq_PathRe := ''x''\<rparr>, False))"
proof -
  have "sent_find (NewFindQuery\<lparr>fq_PathRe := ''x'', fq_Recurse := True\<rparr>) = NewFindQuery\<lparr>fq_PathRe := ''x''\<rparr>"
    by (simp add: sent_find_def NewFindQuery_def coerce_name coerce_meta_def gm_copy_def)
  then show ?thesis
    using requests_read_back [of "NewSearchQuery '''' '''' False []" OtherError "''q''"
        "NewFindQuery\<lparr>fq_PathRe := ''x'', fq_Recurse := True\<rparr>"]
    by (simp add: NewSearchQuery_def sendable_def int64_def)
qed

section \<open>What a client reads\<close>

text \<open>The value at a path of member names.\<close>

fun json_at :: "json \<Rightarrow> string list \<Rightarrow> json option" where
  "json_at v [] = Some v"
| "json_at (JObj ms) (k # ks) = (case map_of ms k of None \<Rightarrow> None | Some v \<Rightarrow> json_at v ks)"
| "json_at v (k # ks) = None"

definition valid_matches :: "matchMap \<Rightarrow> bool" where
  "valid_matches m \<longleftrightarrow> (\<forall>(f, rs) \<in> set m. valid_utf8 f \<and> (\<forall>(k, ls) \<in> set rs. valid_utf8 k \<and> (\<forall>(l, v) \<in> set ls. valid_utf8 l)))"

lemma map_of_sorted: "gm_ok m \<Longrightarrow> map_of (sort_key fst m) = map_of m"
  by (intro ext option_eqI) (simp add: map_of_in_set gm_ok_sort)

lemma json_at_map:
  assumes "gm_ok m" "\<forall>(k, v) \<in> set m. valid_utf8 k"
  shows "json_at (coerce_json (encode_map enc m)) (k # ks) =
    (case map_of m k of None \<Rightarrow> None | Some v \<Rightarrow> json_at (coerce_json (enc v)) ks)"
proof -
  have "map (\<lambda>(k, v). (coerce k, coerce_json (enc v))) (sort_key fst m) = map (\<lambda>(k, v). (k, coerce_json (enc v))) (sort_key fst m)"
    using assms(2) by (auto simp: coerce_id)
  then have "coerce_json (encode_map enc m) = JObj (map (\<lambda>(k, v). (k, coerce_json (enc v))) (sort_key fst m))"
    by (simp add: encode_map_def coerce_members_map split_def)
  then show ?thesis
    using map_of_map [of "\<lambda>v. coerce_json (enc v)" "sort_key fst m"] map_of_sorted [OF assms(1)]
    by (simp split: option.split)
qed

lemma json_ok_map: "(\<And>k v. (k, v) \<in> set m \<Longrightarrow> json_ok (enc v)) \<Longrightarrow> json_ok (encode_map enc m)"
  by (auto simp: encode_map_def intro!: json_ok_members)

lemma json_ok_reply: "json_ok (encode_search_result ft r)"
proof -
  have "json_ok (encode_map (encode_map (encode_map JStr)) m)" for m by (intro json_ok_map) simp
  moreover have "json_ok (encode_error e)" for e by (simp add: encode_error_def)
  then have "json_ok (encode_map encode_error m)" for m by (intro json_ok_map)
  moreover have "json_ok (encode_map (encode_repo ft) m)" for m by (intro json_ok_map) (rule json_ok_repo)
  ultimately show ?thesis
    by (auto simp: encode_search_result_def encode_durations_def intro!: json_ok_members split: if_splits)
qed

lemma reply_lines:
  assumes "sr_ok sr" "valid_matches (sr_Matches sr)"
  shows "\<exists>v. json_read (body_text (encode_search_result ft) (Body sr)) = Some v \<and>
    (\<forall>f k l. json_at v [''matches'', f, k, l] = map_option (JStr \<circ> coerce) (match_at sr (f, k, l)))"
proof (intro exI conjI allI)
  let ?v = "coerce_json (encode_search_result ft sr)"
  show "json_read (body_text (encode_search_result ft) (Body sr)) = Some ?v"
    using json_read_text [OF json_ok_reply] by (simp add: body_text_def)
  have "matches_ok (sr_Matches sr)" using assms(1) by (simp add: sr_ok_def)
  then have ok: "gm_ok (sr_Matches sr)" "\<And>f rs. map_of (sr_Matches sr) f = Some rs \<Longrightarrow> gm_ok rs"
    "\<And>f rs k ls. map_of (sr_Matches sr) f = Some rs \<Longrightarrow> map_of rs k = Some ls \<Longrightarrow> gm_ok ls"
    by (auto simp: matches_ok_def dest!: map_of_SomeD)
  have valid: "\<forall>(f, rs) \<in> set (sr_Matches sr). valid_utf8 f"
    "\<And>f rs. map_of (sr_Matches sr) f = Some rs \<Longrightarrow> \<forall>(k, ls) \<in> set rs. valid_utf8 k"
    "\<And>f rs k ls. map_of (sr_Matches sr) f = Some rs \<Longrightarrow> map_of rs k = Some ls \<Longrightarrow> \<forall>(l, v) \<in> set ls. valid_utf8 l"
    using assms(2) by (fastforce simp: valid_matches_def dest!: map_of_SomeD)+
  fix f k l
  have "json_at ?v (''matches'' # ks) = json_at (coerce_json (encode_map (encode_map (encode_map JStr)) (sr_Matches sr))) ks" for ks
    by (simp add: encode_search_result_def coerce_name)
  then show "json_at ?v [''matches'', f, k, l] = map_option (JStr \<circ> coerce) (match_at sr (f, k, l))"
    using ok valid by (auto simp: json_at_map match_at_def gm_sub_def split: option.split)
qed

end
