(* ===== verification/End_to_End.thy ===== *)
theory End_to_End
  imports Pipeline Printing Endpoints Http_Json
begin

text \<open>
  From the command line to the files: \<open>afind search\<close> of \<open>cmd/afind/afind.go\<close>, the client's call to a
  daemon, the search service over several hosts and the searches of their index files, composed into
  one statement on what is printed.
\<close>

section \<open>Printing a result\<close>

lemma sorted_wrt_concat:
  "sorted_wrt (\<lambda>x y. \<forall>a \<in> set (g x). \<forall>b \<in> set (g y). R a b) xs \<Longrightarrow> \<forall>x \<in> set xs. sorted_wrt R (g x) \<Longrightarrow>
    sorted_wrt R (concat (map g xs))"
  by (induction xs) (auto simp: sorted_wrt_append)

lemma gm_ok_apart: "gm_ok m \<Longrightarrow> sorted_wrt (\<lambda>p q. fst p \<noteq> fst q) m"
  by (induction m) (auto simp: gm_ok_def)

text \<open>A line of an answer, by file, repository, number and text; those of one file are in the order
  of their numbers.\<close>

type_synonym answer_line = "string \<times> string \<times> int \<times> string"

definition numbers_rise :: "answer_line list \<Rightarrow> bool" where
  "numbers_rise = sorted_wrt (\<lambda>(f, k, n, v) (f', k', n', v'). f = f' \<and> k = k' \<longrightarrow> n < n')"

abbreviation show_line :: "answer_line \<Rightarrow> printed" where
  "show_line p \<equiv> (case p of (f, k, n, v) \<Rightarrow> print_line k f n v)"

definition file_answer :: "string \<Rightarrow> string \<Rightarrow> fileMap \<Rightarrow> answer_line list" where
  "file_answer f k ls = map (\<lambda>n. (f, k, n, the (map_of ls (Itoa n))))
     (sorted_list_of_set {n. map_of ls (Itoa n) \<noteq> None})"

lemma Itoa_finite: "finite {n. map_of ls (Itoa n) \<noteq> None}"
proof -
  have "inj Itoa" by (simp add: inj_def)
  moreover have "Itoa ` {n. map_of ls (Itoa n) \<noteq> None} \<subseteq> fst ` set ls"
    by (auto simp: map_of_eq_None_iff)
  ultimately show ?thesis by (meson finite_imageD finite_imageI finite_set finite_subset inj_on_subset subset_UNIV)
qed

lemma file_answer_lines:
  "(f', k', n, v) \<in> set (file_answer f k ls) \<longleftrightarrow> f' = f \<and> k' = k \<and> map_of ls (Itoa n) = Some v"
  "numbers_rise (file_answer f k ls)"
proof -
  show "(f', k', n, v) \<in> set (file_answer f k ls) \<longleftrightarrow> f' = f \<and> k' = k \<and> map_of ls (Itoa n) = Some v"
    using Itoa_finite [of ls] by (auto simp: file_answer_def)
  have "sorted_wrt (<) (sorted_list_of_set {n. map_of ls (Itoa n) \<noteq> None})" by simp
  then show "numbers_rise (file_answer f k ls)"
    unfolding numbers_rise_def file_answer_def sorted_wrt_map by (rule sorted_wrt_mono_rel [rotated]) simp
qed

lemma print_file_answer:
  assumes "gm_ok ls" "\<forall>l v. map_of ls l = Some v \<longrightarrow> (\<exists>n. l = Itoa n \<and> - (2 ^ 63) \<le> n \<and> n < 2 ^ 63)"
  shows "print_lines k f ls = map show_line (file_answer f k ls)"
proof -
  let ?N = "{n. map_of ls (Itoa n) \<noteq> None}"
  have "fst ` set ls = {l. map_of ls l \<noteq> None}" by (auto simp: map_of_eq_None_iff)
  also have "\<dots> = Itoa ` ?N" using assms(2) by fastforce
  finally have "fst ` set ls = Itoa ` ?N" .
  moreover have "?N \<subseteq> {- (2 ^ 63)..< 2 ^ 63}" using assms(2) by fastforce
  ultimately have "numbered ?N ls" using assms(1) by (simp add: numbered_def)
  from print_lines_numbered [OF this] show ?thesis by (simp add: file_answer_def)
qed

text \<open>The lines of a result, in the order in which they are printed.\<close>

definition answer :: "search_result \<Rightarrow> answer_line list" where
  "answer sr = concat (map (\<lambda>(f, rs). concat (map (\<lambda>(k, ls). file_answer f k ls) rs)) (sr_Matches sr))"

lemma printMatches_answer:
  assumes "sr_ok sr" "\<forall>f k l v. match_at sr (f, k, l) = Some v \<longrightarrow> (\<exists>n. l = Itoa n \<and> - (2 ^ 63) \<le> n \<and> n < 2 ^ 63)"
  shows "printMatches sr = map show_line (answer sr)"
    and "set (answer sr) = {(f, k, n, v). match_at sr (f, k, Itoa n) = Some v}" and "numbers_rise (answer sr)"
proof -
  have ok: "matches_ok (sr_Matches sr)" using assms(1) by (simp add: sr_ok_def)
  then have keys: "gm_ok (sr_Matches sr)" "\<And>f rs. (f, rs) \<in> set (sr_Matches sr) \<Longrightarrow> gm_ok rs"
    "\<And>f rs k ls. (f, rs) \<in> set (sr_Matches sr) \<Longrightarrow> (k, ls) \<in> set rs \<Longrightarrow> gm_ok ls"
    by (auto simp: matches_ok_def)
  have at: "match_at sr (f, k, l) = map_of ls l" if "(f, rs) \<in> set (sr_Matches sr)" "(k, ls) \<in> set rs" for f rs k ls l
    using that keys by (simp add: match_at_def gm_sub_def map_of_in_set [symmetric])
  have "print_lines k f ls = map show_line (file_answer f k ls)"
    if "(f, rs) \<in> set (sr_Matches sr)" "(k, ls) \<in> set rs" for f rs k ls
    using assms(2) unfolding at [OF that, symmetric] by (intro print_file_answer [OF keys(3) [OF that]]) (metis at [OF that])
  then show "printMatches sr = map show_line (answer sr)"
    by (auto simp: printMatches_def answer_def map_concat o_def intro!: arg_cong [of _ _ concat] map_cong)
  show "set (answer sr) = {(f, k, n, v). match_at sr (f, k, Itoa n) = Some v}"
  proof (intro set_eqI)
    fix p :: answer_line
    obtain f k n v where p: "p = (f, k, n, v)" by (cases p)
    have "p \<in> set (answer sr) \<longleftrightarrow> (\<exists>rs ls. (f, rs) \<in> set (sr_Matches sr) \<and> (k, ls) \<in> set rs \<and> map_of ls (Itoa n) = Some v)"
      by (auto simp: answer_def p file_answer_lines(1) split_def Bex_def split_paired_Ex)
    also have "\<dots> \<longleftrightarrow> match_at sr (f, k, Itoa n) = Some v"
    proof
      assume "match_at sr (f, k, Itoa n) = Some v"
      then show "\<exists>rs ls. (f, rs) \<in> set (sr_Matches sr) \<and> (k, ls) \<in> set rs \<and> map_of ls (Itoa n) = Some v"
        by (auto simp: match_at_def gm_sub_def split: option.splits dest!: map_of_SomeD [of _ f] map_of_SomeD [of _ k])
    qed (use at in auto)
    finally show "p \<in> set (answer sr) \<longleftrightarrow> p \<in> {(f, k, n, v). match_at sr (f, k, Itoa n) = Some v}" by (simp add: p)
  qed
  have inner: "numbers_rise (concat (map (\<lambda>(k, ls). file_answer f k ls) rs))" if "gm_ok rs" for f rs
    unfolding numbers_rise_def
  proof (rule sorted_wrt_concat)
    show "\<forall>x \<in> set rs. sorted_wrt (\<lambda>(f, k, n, v) (f', k', n', v'). f = f' \<and> k = k' \<longrightarrow> n < n')
        (case x of (k, ls) \<Rightarrow> file_answer f k ls)"
      using file_answer_lines(2) by (auto simp: numbers_rise_def)
  qed (rule sorted_wrt_mono_rel [OF _ gm_ok_apart [OF that]], auto simp: file_answer_lines(1))
  show "numbers_rise (answer sr)"
    unfolding numbers_rise_def answer_def
  proof (rule sorted_wrt_concat)
    show "\<forall>x \<in> set (sr_Matches sr). sorted_wrt (\<lambda>(f, k, n, v) (f', k', n', v'). f = f' \<and> k = k' \<longrightarrow> n < n')
        (case x of (f, rs) \<Rightarrow> concat (map (\<lambda>(k, ls). file_answer f k ls) rs))"
      using inner keys(2) by (auto simp: numbers_rise_def)
  qed (rule sorted_wrt_mono_rel [OF _ gm_ok_apart [OF keys(1)]], auto simp: file_answer_lines(1))
qed

section \<open>The search command\<close>

text \<open>What a transport of the answer keeps: the lines, in well-formed maps.\<close>

definition delivered :: "search_result \<Rightarrow> search_result \<Rightarrow> bool" where
  "delivered sr sr' \<longleftrightarrow> sr_ok sr' \<and> match_at sr' = match_at sr"

lemma main_search:
  assumes "Parse (flagGlobal env) argv default_flags = Parsed fl0 (''search'' # args)"
    and "Parse (flagSetSearch env) args fl0 = Parsed fl (w # ws)" "\<And>a. ce_dial env a = None"
    and "search env fl (Join '' '' (w # ws)) s = (err, out, s')"
  shows "main env argv s =
    (case err of None \<Rightarrow> (0, out, s') | Some e \<Rightarrow> (1, out @ [Stderr (''error: '' @ Error e @ [nl])], s'))"
proof -
  have "ToLower ''search'' = ''search''" by code_simp
  then show ?thesis
    using assms by (simp add: main_def doAfind_def connected_def setupContext_def finished_def split: option.split)
qed

lemma line_at_number:
  assumes "line_at ge rt P f l v" "int (length (file_lines ge rt f)) < 2 ^ 63"
  shows "\<exists>n. l = Itoa n \<and> - (2 ^ 63) \<le> n \<and> n < 2 ^ 63"
proof -
  obtain j where "j < length (file_lines ge rt f)" "l = Itoa (int j + 1)" using assms(1) by (auto simp: line_at_def)
  with assms(2) show ?thesis by (intro exI [of _ "int j + 1"]) simp
qed

lemma rising_distinct: "numbers_rise L \<Longrightarrow> distinct L"
  unfolding numbers_rise_def by (induction L) auto

lemma answer_length:
  assumes "set L = {(f, k, n, v). match_at sr (f, k, Itoa n) = Some v}" "numbers_rise L"
    and "\<forall>f k l v. match_at sr (f, k, l) = Some v \<longrightarrow> (\<exists>n. l = Itoa n \<and> - (2 ^ 63) \<le> n \<and> n < 2 ^ 63)"
  shows "length L = card (result_lines sr)"
proof -
  have "bij_betw (\<lambda>(f, k, n, v). (f, k, Itoa n, v)) (set L) (result_lines sr)"
    using assms(3) by (fastforce simp: bij_betw_def inj_on_def result_lines_def assms(1) image_iff Itoa_eq_iff)
  then show ?thesis using distinct_card [OF rising_distinct [OF assms(2)]] by (metis bij_betw_same_card)
qed

text \<open>C1. What \<open>afind search\<close> prints are the matching lines. A search command, asked of a daemon that reaches the
  owners of the repositories it selects, prints first lines on which the expression matches, in
  the files that the indices of these repositories were written with and whose names pass the
  path expression, on their owners' disks: none else, none twice, each headed by its repository, file
  and number, and those of a file in their order; and all of them, or, with a limit (\<open>-n\<close>, 100 if not
  given), no fewer than the limit. That holds through however many daemons the request is passed,
  and in whatever order hosts are asked, goroutines run, answers arrive and maps are visited. Errors
  and, if asked for, the repositories follow. No context lines are asked for (\<open>-A\<close>, \<open>-B\<close>, \<open>-C\<close>), with a
  limit no key is given twice, a daemon's limit on backend requests is no less than the number of
  hosts it knows of, the indexed files can be read to their end, and the code-search index names
  every one of them in which a line matches, and no other file.\<close>

theorem search_command_prints_matching_lines:
  assumes args: "Parse (flagGlobal env) argv default_flags = Parsed fl0 (''search'' # args)"
      "Parse (flagSetSearch env) args fl0 = Parsed fl (w # ws)" "\<And>a. ce_dial env a = None"
    and q: "q = search_request fl (Join '' '' (w # ws))" "SearchQuery_Normalize q = None"
      "fl_max fl = 0 \<or> distinct (sq_RepoKeys q)"
    and call: "ce_search env q s = (SearcherClient_Search (Reply sr None), s')"
      "\<And>sr'. serve_search n net nd q = Some sr' \<Longrightarrow> delivered sr' sr"
    and nodes: "searching_network ge posted files q re pathre P (insert nd (ran net))"
    and owners: "0 < n" "\<forall>r \<in> set (selected nd q). owner n net nd (r_Key r) = Some (own (r_Key r))"
    and short: "\<And>nd' rt f. int (length (file_lines (ge nd') rt f)) < 2 ^ 63"
    and expected: "expected = {(f, k, i, v). (f, k, Itoa i, v) \<in> disk_lines ge files pathre P own (r_Key ` set (selected nd q))}"
  shows "\<exists>L. set L \<subseteq> expected \<and> distinct L \<and> numbers_rise L \<and>
    (set L = expected \<or> 0 < fl_max fl \<and> unat (fl_max fl) \<le> length L) \<and>
    main env argv s =
      (if sr_Error sr = '''' then 0 else 1,
       map show_line L @ printErrors sr @ (if fl_verbose fl then printRepos env sr else []) @
         (if sr_Error sr = '''' then [] else [Stderr (''error: '' @ sr_Error sr @ [nl])]), s')"
proof -
  let ?lines = "disk_lines ge files pathre P own (r_Key ` set (selected nd q))"
  have max: "sq_MaxMatches q = fl_max fl" using q(1) by (simp add: search_request_def)
  have "sq_MaxMatches q = 0 \<or> distinct (sq_RepoKeys q)" using q(3) max by simp
  from network_answer [OF q(2) this nodes owners refl] obtain sr' where sr': "serve_search n net nd q = Some sr'"
    "result_lines sr' \<subseteq> ?lines" "result_lines sr' = ?lines \<or> 0 < fl_max fl \<and> unat (fl_max fl) \<le> card (result_lines sr')"
    unfolding max by blast
  have sr: "sr_ok sr" "match_at sr = match_at sr'" using call(2) [OF sr'(1)] by (simp_all add: delivered_def)
  then have same: "result_lines sr' = result_lines sr" by (simp add: result_lines_def)
  have "line_at g rt P f l v \<Longrightarrow> (\<exists>nd'. g = ge nd') \<Longrightarrow> \<exists>n. l = Itoa n \<and> - (2 ^ 63) \<le> n \<and> n < 2 ^ 63" for g rt f l v
    using line_at_number short by blast
  then have numbers: "\<forall>f k l v. match_at sr (f, k, l) = Some v \<longrightarrow> (\<exists>n. l = Itoa n \<and> - (2 ^ 63) \<le> n \<and> n < 2 ^ 63)"
    using sr'(2) unfolding same by (fastforce simp: result_lines_def disk_lines_def)
  note printed = printMatches_answer [OF sr(1) numbers]
  have "search env fl (Join '' '' (w # ws)) s =
      (if sr_Error sr = '''' then None else Some (OtherError (sr_Error sr)),
       printMatches sr @ printErrors sr @ (if fl_verbose fl then printRepos env sr else []), s')"
    using call(1) unfolding q(1) by (simp add: search_def SearcherClient_Search_def)
  from main_search [OF args this] have run: "main env argv s =
      (if sr_Error sr = '''' then 0 else 1,
       map show_line (answer sr) @ printErrors sr @ (if fl_verbose fl then printRepos env sr else []) @
         (if sr_Error sr = '''' then [] else [Stderr (''error: '' @ sr_Error sr @ [nl])]), s')"
    by (simp add: printed(1))
  have set: "set (answer sr) = {(f, k, i, v). (f, k, Itoa i, v) \<in> result_lines sr}"
    by (simp add: printed(2) result_lines_def)
  have "set (answer sr) \<subseteq> expected" using sr'(2) unfolding same set expected by blast
  moreover have "set (answer sr) = expected \<or> 0 < fl_max fl \<and> unat (fl_max fl) \<le> length (answer sr)"
    using sr'(3) unfolding same answer_length [OF printed(2,3) numbers] set expected by blast
  ultimately show ?thesis
    using run printed(3) rising_distinct [OF printed(3)] by (intro exI [of _ "answer sr"]) simp
qed

section \<open>The search handler of HTTP\<close>

text \<open>A result that was merged has no empty maps inside, whatever was merged into it.\<close>

definition no_empty :: "matchMap \<Rightarrow> bool" where
  "no_empty m \<longleftrightarrow> (\<forall>(f, rs) \<in> set m. rs \<noteq> [] \<and> (\<forall>(k, ls) \<in> set rs. ls \<noteq> []))"

lemma set_gm_put_sub: "set (gm_put k v m) \<subseteq> insert (k, v) (set m)"
  unfolding gm_put_def by (induction m) auto

lemma gm_put_Cons: "gm_put k v m \<noteq> []"
  unfolding gm_put_def by (cases m) auto

lemma gm_copy_Cons: "other \<noteq> [] \<Longrightarrow> gm_copy other m \<noteq> []"
proof (induction other arbitrary: m)
  case (Cons p other)
  then show ?case using gm_put_Cons [of "fst p" "snd p" m] by (cases "other = []") (auto simp: gm_copy_def split_def)
qed simp

lemma no_empty_Add: "no_empty (sr_Matches r) \<Longrightarrow> no_empty (sr_Matches (AddFileRepoMatches f k ls r))"
proof -
  assume r: "no_empty (sr_Matches r)"
  let ?rs = "gm_sub (sr_Matches r) f"
  have rs: "ls' \<noteq> []" if in_rs: "(k', ls') \<in> set ?rs" for k' ls'
  proof -
    obtain rs where "map_of (sr_Matches r) f = Some rs" "(k', ls') \<in> set rs"
      using in_rs by (cases "map_of (sr_Matches r) f") (auto simp: gm_sub_def)
    then show ?thesis using r map_of_SomeD [of "sr_Matches r" f rs] by (auto simp: no_empty_def)
  qed
  let ?new = "gm_put k (gm_copy ls (gm_sub ?rs k)) ?rs"
  have new: "ls' \<noteq> []" if "ls \<noteq> []" "(k', ls') \<in> set ?new" for k' ls'
    using subsetD [OF set_gm_put_sub that(2)] rs [of k' ls'] gm_copy_Cons [OF that(1), of "gm_sub ?rs k"] by auto
  show ?thesis
  proof (cases "ls = []")
    case False
    have put: "p = (f, ?new) \<or> p \<in> set (sr_Matches r)" if "p \<in> set (gm_put f ?new (sr_Matches r))" for p
      using subsetD [OF set_gm_put_sub that] by simp
    have "no_empty (gm_put f ?new (sr_Matches r))"
      unfolding no_empty_def
    proof (intro ballI)
      fix p assume "p \<in> set (gm_put f ?new (sr_Matches r))"
      from put [OF this] show "case p of (f, rs) \<Rightarrow> rs \<noteq> [] \<and> (\<forall>(k, ls) \<in> set rs. ls \<noteq> [])"
        using r new [OF False] gm_put_Cons [of k "gm_copy ls (gm_sub ?rs k)" ?rs] by (auto simp: no_empty_def)
    qed
    with False show ?thesis by (simp add: AddFileRepoMatches_def Let_def)
  qed (use r in \<open>simp add: AddFileRepoMatches_def\<close>)
qed

lemma no_empty_Update: "no_empty (sr_Matches r) \<Longrightarrow> no_empty (sr_Matches (SearchResult_Update other r))"
proof -
  have inner: "no_empty (sr_Matches r) \<Longrightarrow> no_empty (sr_Matches (fold (\<lambda>(repo, matches). AddFileRepoMatches f repo matches) rs r))"
    for f rs r by (induction rs arbitrary: r) (auto simp: no_empty_Add)
  have "no_empty (sr_Matches r) \<Longrightarrow> no_empty (sr_Matches
      (fold (\<lambda>(file, rmatches). fold (\<lambda>(repo, matches). AddFileRepoMatches file repo matches) rmatches) m r))" for m r
    by (induction m arbitrary: r) (auto simp: inner)
  then show "no_empty (sr_Matches r) \<Longrightarrow> ?thesis" by (simp add: SearchResult_Update_def Let_def)
qed

lemma no_empty_merge: "no_empty (sr_Matches r) \<Longrightarrow> no_empty (sr_Matches (fst (search_merge xs r u)))"
  by (induction xs arbitrary: r u) (auto simp: Let_def no_empty_Update)

lemma valid_Itoa: "valid_utf8 (Itoa i)"
proof -
  have "is_digit c \<Longrightarrow> byte c < 128" for c by (auto simp: is_digit_def less_eq_char_def)
  then show ?thesis
    using Itoa_nat_digits by (intro valid_ascii) (auto simp: Itoa_def list_all_iff)
qed

lemma no_empty_valid:
  assumes "sr_ok sr" "no_empty (sr_Matches sr)"
    and "\<And>f k l v. match_at sr (f, k, l) = Some v \<Longrightarrow> valid_utf8 f \<and> valid_utf8 k \<and> valid_utf8 l"
  shows "valid_matches (sr_Matches sr)"
proof -
  have ok: "gm_ok (sr_Matches sr)" "\<And>f rs. (f, rs) \<in> set (sr_Matches sr) \<Longrightarrow> gm_ok rs"
    "\<And>f rs k ls. (f, rs) \<in> set (sr_Matches sr) \<Longrightarrow> (k, ls) \<in> set rs \<Longrightarrow> gm_ok ls"
    using assms(1) by (auto simp: sr_ok_def matches_ok_def)
  have at: "valid_utf8 f \<and> valid_utf8 k \<and> valid_utf8 l"
    if "(f, rs) \<in> set (sr_Matches sr)" "(k, ls) \<in> set rs" "(l, v) \<in> set ls" for f rs k ls l v
  proof -
    have "match_at sr (f, k, l) = Some v"
      using that ok by (simp add: match_at_def gm_sub_def map_of_in_set [symmetric])
    then show ?thesis by (rule assms(3))
  qed
  have some: "\<exists>k ls l v. (k, ls) \<in> set rs \<and> (l, v) \<in> set ls" if "(f, rs) \<in> set (sr_Matches sr)" for f rs
    using assms(2) that by (cases rs) (fastforce simp: no_empty_def neq_Nil_conv)+
  have inner: "\<exists>l v. (l, v) \<in> set ls" if "(f, rs) \<in> set (sr_Matches sr)" "(k, ls) \<in> set rs" for f rs k ls
    using assms(2) that by (cases ls) (auto simp: no_empty_def)
  show ?thesis
    unfolding valid_matches_def using at some inner by (auto split: prod.splits) (meson at some inner)+
qed

lemma search_reply_result:
  assumes "node_reply nd results q = Some sr" "SearchQuery_Normalize q = None"
  shows "\<exists>d'. doSearch (nd_hostname nd) (nd_compile nd) (nd_visit nd) (nd_cfg nd) (nd_env nd)
      (\<lambda>_. nd_arrive nd results) (nd_elapsed nd) q (nd_db nd) = Returns (sr, None, d')"
    and "no_empty (sr_Matches sr)"
proof -
  obtain reqs where reqs: "node_requests nd q = Returns reqs"
    using assms by (auto simp: node_reply_def doSearch_def node_requests_def Let_def split: outcome.splits)
  let ?m = "search_merge (nd_arrive nd results) (NewSearchResult\<lparr>sr_MaxMatches := sq_MaxMatches q\<rparr>) []"
  let ?sr = "(fst ?m)\<lparr>sr_Durations := (sr_Durations (fst ?m))\<lparr>sd_Search := nd_elapsed nd\<rparr>\<rparr>"
  have run: "doSearch (nd_hostname nd) (nd_compile nd) (nd_visit nd) (nd_cfg nd) (nd_env nd)
      (\<lambda>_. nd_arrive nd results) (nd_elapsed nd) q (nd_db nd)
      = Returns (?sr, None, fold (update_repo (nd_cfg nd) (nd_env nd)) (snd ?m) (nd_db nd))"
    using assms(2) reqs by (simp add: doSearch_def node_requests_def Let_def split_def)
  then have sr: "sr = ?sr" using assms(1) by (simp add: node_reply_def rpc_Search_def)
  with run show "\<exists>d'. doSearch (nd_hostname nd) (nd_compile nd) (nd_visit nd) (nd_cfg nd) (nd_env nd)
      (\<lambda>_. nd_arrive nd results) (nd_elapsed nd) q (nd_db nd) = Returns (sr, None, d')" by blast
  have "no_empty (sr_Matches (NewSearchResult\<lparr>sr_MaxMatches := sq_MaxMatches q\<rparr>))"
    by (simp add: NewSearchResult_def no_empty_def)
  from no_empty_merge [OF this] show "no_empty (sr_Matches sr)" by (simp add: sr)
qed

text \<open>What the handler of a daemon of a network answers to a body, \<open>results\<close> being what its requests send
  before their channel is closed.\<close>

definition node_web ::
  "(string \<Rightarrow> go_error) \<Rightarrow> (int \<Rightarrow> string) \<Rightarrow> 'c node \<Rightarrow> search_result list \<Rightarrow> string \<Rightarrow>
   ((int \<times> string) \<times> 'c db) outcome option" where
  "node_web bad_syntax ft nd results body =
     webSearch_text bad_syntax ft (nd_hostname nd) (nd_compile nd) (nd_visit nd) (nd_cfg nd) (nd_env nd)
       (\<lambda>_. (nd_arrive nd results, Some (Returns ()))) (nd_elapsed nd) body (nd_db nd)"

text \<open>C4. A search over HTTP answers with the matching lines. A body that is decoded into a valid query is
  answered, by a daemon that reaches the owners of the repositories it selects, with status 200 and a
  JSON text that has, under file, repository and number, lines on which the expression matches, in
  the files that the indices of these repositories were written with and whose names pass the
  path expression, on their owners' disks: none else, and all of them, or, with a limit on matches, no
  fewer than the limit; bytes of a line that are not valid UTF-8 are replaced. The query asks
  for no context lines, with a limit it has no key twice, it or the daemon sets a timeout (as \<open>afindd\<close>
  does), the requests end in time, a daemon's limit on backend requests is no less than the number of
  hosts it knows of, keys and names are valid UTF-8, the indexed files can be read to their end, and
  the code-search index names every one of them in which a line matches, and no other file.\<close>

theorem http_search_is_exact:
  assumes body: "decode_query bad_syntax ''afind.SearchQuery'' search_fields body
      (NewSearchQuery '''' '''' False [], False) = Some (Inr (q', False))"
    and q: "q = q'\<lparr>sq_Recurse := True\<rparr>" "SearchQuery_Normalize q = None"
      "sq_MaxMatches q = 0 \<or> distinct (sq_RepoKeys q)" "sq_Timeout q \<noteq> 0 \<or> c_TimeoutSearch (nd_cfg nd) \<noteq> 0"
    and nodes: "searching_network ge posted files q re pathre P (insert nd (ran net))"
    and owners: "\<forall>r \<in> set (selected nd q). owner (Suc n) net nd (r_Key r) = Some (own (r_Key r))"
    and expected: "expected = disk_lines ge files pathre P own (r_Key ` set (selected nd q))"
    and names: "\<forall>(f, k, l, v) \<in> expected. valid_utf8 k \<and> valid_utf8 f"
  shows "\<exists>reqs results t d' j. node_requests nd q = Returns reqs \<and>
    those (map (send_request (serve_search n net) net nd) reqs) = Some results \<and>
    node_web bad_syntax ft nd results body = Some (Returns ((200, t), d')) \<and> json_read t = Some j \<and>
    (\<forall>f k l x. json_at j [''matches'', f, k, l] = Some x \<longrightarrow> (\<exists>v. (f, k, l, v) \<in> expected \<and> x = JStr (coerce v))) \<and>
    ((\<forall>(f, k, l, v) \<in> expected. json_at j [''matches'', f, k, l] = Some (JStr (coerce v))) \<or>
     0 < sq_MaxMatches q \<and> unat (sq_MaxMatches q) \<le> card {(f, k, l). json_at j [''matches'', f, k, l] \<noteq> None})"
proof -
  from network_answer [OF q(2,3) nodes zero_less_Suc owners expected] obtain sr where
    sr: "serve_search (Suc n) net nd q = Some sr" "sr_ok sr" "result_lines sr \<subseteq> expected"
      "result_lines sr = expected \<or> 0 < sq_MaxMatches q \<and> unat (sq_MaxMatches q) \<le> card (result_lines sr)" by blast
  then obtain reqs results where reqs: "node_requests nd q = Returns reqs"
    "those (map (send_request (serve_search n net) net nd) reqs) = Some results" "node_reply nd results q = Some sr"
    using q(2) by (auto split: outcome.splits option.splits)
  obtain d' where run: "doSearch (nd_hostname nd) (nd_compile nd) (nd_visit nd) (nd_cfg nd) (nd_env nd)
      (\<lambda>_. nd_arrive nd results) (nd_elapsed nd) q (nd_db nd) = Returns (sr, None, d')"
    using search_reply_result(1) [OF reqs(3) q(2)] by blast
  have cfg: "snd (timeoutSearch q (nd_cfg nd)) = nd_cfg nd"
    using q(4) by (auto simp: timeoutSearch_def GetTimeoutSearch_def Let_def)
  then have "webSearch (nd_hostname nd) (nd_compile nd) (nd_visit nd) (nd_cfg nd) (nd_env nd)
      (\<lambda>_. nd_arrive nd results) (nd_elapsed nd) (Inr q') (nd_db nd) = Returns ((200, Body sr), d')"
    using run by (simp add: webSearch_def split_def Let_def webSearch_reply_def flip: q(1))
  moreover have "search_ends (nd_hostname nd) (nd_compile nd) (nd_visit nd) (nd_cfg nd)
      (\<lambda>_. (nd_arrive nd results, Some (Returns ()))) q False (nd_db nd) = Some (Returns ())"
    using cfg q(2) reqs(1) by (simp add: search_ends_def split_def Let_def node_requests_def)
  ultimately have web: "node_web bad_syntax ft nd results body
      = Some (Returns ((200, body_text (encode_search_result ft) (Body sr)), d'))"
    by (simp add: node_web_def webSearch_text_def body map_outcome_def o_def flip: q(1))
  have "line_at g rt P f l v \<Longrightarrow> valid_utf8 l" for g :: "('re, 'ix) grep_env" and rt f l v
    by (auto simp: line_at_def valid_Itoa)
  then have "(f, k, l, v) \<in> expected \<Longrightarrow> valid_utf8 l" for f k l v
    by (auto simp: expected disk_lines_def)
  then have valid: "match_at sr (f, k, l) = Some v \<Longrightarrow> valid_utf8 f \<and> valid_utf8 k \<and> valid_utf8 l" for f k l v
    using names sr(3) unfolding result_lines_def by blast
  have "valid_matches (sr_Matches sr)"
    by (rule no_empty_valid [OF sr(2) search_reply_result(2) [OF reqs(3) q(2)]]) (rule valid)
  from reply_lines [OF sr(2) this, of ft] obtain j where
    j: "json_read (body_text (encode_search_result ft) (Body sr)) = Some j"
    "\<And>f k l. json_at j [''matches'', f, k, l] = map_option (JStr \<circ> coerce) (match_at sr (f, k, l))" by blast
  have "{(f, k, l). json_at j [''matches'', f, k, l] \<noteq> None} = dom (match_at sr)" by (auto simp: j(2))
  then have "card {(f, k, l). json_at j [''matches'', f, k, l] \<noteq> None} = card (result_lines sr)"
    by (simp add: card_result_lines)
  moreover have "\<exists>v. (f, k, l, v) \<in> expected \<and> x = JStr (coerce v)" if "json_at j [''matches'', f, k, l] = Some x" for f k l x
    using that sr(3) by (auto simp: j(2) result_lines_def)
  moreover have "json_at j [''matches'', f, k, l] = Some (JStr (coerce v))"
    if "result_lines sr = expected" "(f, k, l, v) \<in> expected" for f k l v
    using that(2) unfolding that(1) [symmetric] by (simp add: j(2) result_lines_def)
  ultimately show ?thesis using reqs(1,2) web j(1) sr(4) by fastforce
qed

section \<open>Instances\<close>

text \<open>A client of the daemon \<open>a\<close>, which has to ask \<open>b\<close>, with the default limit on matches.\<close>

definition asking_env :: "search_result \<Rightarrow> unit client_env" where
  "asking_env sr = \<lparr>ce_server = '''', ce_dial = \<lambda>_. None,
     ce_search = \<lambda>_ s. (SearcherClient_Search (Reply sr None), s), ce_index = \<lambda>_ s. ((NewIndexResult, None), s),
     ce_get = \<lambda>_ _. ([], None), ce_getall = \<lambda>_. ([], None), ce_delete = \<lambda>_ s. (None, s), ce_lstat = \<lambda>_. None,
     ce_int = Atoi, ce_uint = \<lambda>v. map_option word_of_int (Atoi v), ce_duration = \<lambda>_. None, ce_show_time = Itoa,
     ce_show_duration = \<lambda>_. ''0''\<rparr>"

abbreviation abc_argv :: "string list" where
  "abc_argv \<equiv> [''search'', ''-key'', ''k'', ''abc'']"

definition abc_flags :: client_flags where
  "abc_flags = default_flags\<lparr>fl_keys := [''k'']\<rparr>"

lemma abc_parse:
  "Parse (flagGlobal (asking_env sr)) abc_argv default_flags = Parsed default_flags abc_argv"
  "Parse (flagSetSearch (asking_env sr)) (tl abc_argv) default_flags = Parsed abc_flags [''abc'']"
proof -
  have k: "StringSlice_Set ''k'' [] = [''k'']" by code_simp
  show "Parse (flagGlobal (asking_env sr)) abc_argv default_flags = Parsed default_flags abc_argv"
    by (simp add: is_flag_def)
  have f: "is_flag ''-key''" "\<not> is_flag ''abc''" "flag_name ''-key'' = ''key''"
    "flag_value ''key'' = (''key'', None)"
    by (simp_all add: is_flag_def flag_name_def flag_value_def)
  show "Parse (flagSetSearch (asking_env sr)) (tl abc_argv) default_flags = Parsed abc_flags [''abc'']"
    by (simp add: f k flagSetSearch_def set_flag_def asking_env_def abc_flags_def default_flags_def)
qed

lemma two_env_short: "int (length (file_lines two_env rt f)) < 2 ^ 63"
  by (cases "f = ''a''") (simp_all add: two_env_lines, simp add: file_lines_def tiny_env_def)

lemma search_command_prints_matching_lines_witness:
  "\<exists>sr rest code. main (asking_env sr) abc_argv () = (code, show_line (''a'', ''k'', 2, ''abc'') # rest, ()) \<and>
    fl_max abc_flags = 100"
proof -
  let ?q = "search_request abc_flags ''abc''"
  have max: "fl_max abc_flags = 100" by (simp add: abc_flags_def default_flags_def)
  have q: "SearchQuery_Normalize ?q = None" "sq_MaxMatches ?q = 0 \<or> distinct (sq_RepoKeys ?q)" "sq_RepoKeys ?q = [''k'']"
    "fl_max abc_flags = 0 \<or> distinct (sq_RepoKeys ?q)"
    by (simp_all add: SearchQuery_Normalize_def search_request_def abc_flags_def)
  have "runnable two_env ?q ''(?m)abc'' None has_abc"
    using two_env_query(2) by (simp add: runnable_def search_request_def abc_flags_def default_flags_def
        getSearchContext_def buildRegexps_def tiny_env_def)
  from disk_network [OF this q(3)] obtain ans where net: "disk_network ans ?q" by blast
  note parts = net [unfolded disk_network_def Let_def, THEN conjunct1]
    net [unfolded disk_network_def Let_def, THEN conjunct2, THEN conjunct1]
    net [unfolded disk_network_def Let_def, THEN conjunct2, THEN conjunct2]
  let ?b = "disk_node ''b'' '''' ans" and ?a = "disk_node ''a'' ''b'' ans"
  let ?net = "\<lambda>_ :: string. Some ?b"
  obtain sr where sr: "serve_search 2 ?net ?a ?q = Some sr" "sr_ok sr"
    using network_answer [OF q(1,2) parts(1) zero_less_numeral parts(3) refl] by blast
  have "delivered sr sr" using sr(2) by (simp add: delivered_def)
  then have call: "ce_search (asking_env sr) ?q () = (SearcherClient_Search (Reply sr None), ())"
    "\<And>sr'. serve_search 2 ?net ?a ?q = Some sr' \<Longrightarrow> delivered sr' sr"
    using sr(1) by (simp_all add: asking_env_def)
  have join: "?q = search_request abc_flags (Join '' '' [''abc''])" by simp
  have dial: "ce_dial (asking_env sr) addr = None" for addr by (simp add: asking_env_def)
  have args: "Parse (flagGlobal (asking_env sr)) abc_argv default_flags = Parsed default_flags (''search'' # tl abc_argv)"
    using abc_parse(1) by simp
  have "Itoa 2 = ''2''" by code_simp
  then have expected: "{(f, k, i, v). (f, k, Itoa i, v) \<in> {(''a'', ''k'', ''2'', ''abc'')}} = {(''a'', ''k'', 2, ''abc'')}"
    using Itoa_eq_iff [of _ 2] by auto
  obtain L where L: "set L \<subseteq> {(''a'', ''k'', 2, ''abc'')}" "distinct L"
    "set L = {(''a'', ''k'', 2, ''abc'')} \<or> unat (fl_max abc_flags) \<le> length L"
    "\<exists>code rest. main (asking_env sr) abc_argv () = (code, map show_line L @ rest, ())"
    using search_command_prints_matching_lines [OF args abc_parse(2) dial join q(1,4) call parts(1)
        zero_less_numeral parts(3) two_env_short refl]
    unfolding parts(2) disk_expected expected by (metis (no_types, lifting))
  have "length L \<le> 1" using card_mono [OF _ L(1)] distinct_card [OF L(2)] by simp
  with L(3) have "set L = {(''a'', ''k'', 2, ''abc'')}" by (simp add: max)
  with \<open>length L \<le> 1\<close> have "L = [(''a'', ''k'', 2, ''abc'')]" by (cases L) auto
  with L(4) max show ?thesis by auto
qed

text \<open>A client that writes the same query to the HTTP port of \<open>a\<close>.\<close>

definition posted_query :: search_query where
  "posted_query = (NewSearchQuery ''abc'' '''' False [''k''])\<lparr>sq_Timeout := 1\<rparr>"

lemma http_search_is_exact_witness:
  "\<exists>(a :: (string, repo) gomap node) results t d' j.
    node_web OtherError Itoa a results (json_text (encode_search_query posted_query) @ [CHR 0x0A]) = Some (Returns ((200, t), d')) \<and>
    json_read t = Some j \<and> json_at j [''matches'', ''a'', ''k'', ''2''] = Some (JStr ''abc'')"
proof -
  let ?q = "posted_query\<lparr>sq_Recurse := True\<rparr>"
  have "sent_search posted_query = posted_query"
    by (simp add: sent_search_def posted_query_def NewSearchQuery_def coerce_name coerce_meta_def gm_copy_def)
  then have body: "decode_query OtherError ''afind.SearchQuery'' search_fields
      (json_text (encode_search_query posted_query) @ [CHR 0x0A]) (NewSearchQuery '''' '''' False [], False)
      = Some (Inr (posted_query, False))"
    using search_read_back [of posted_query] by (simp add: sendable_def int64_def posted_query_def NewSearchQuery_def)
  have q: "SearchQuery_Normalize ?q = None" "sq_MaxMatches ?q = 0 \<or> distinct (sq_RepoKeys ?q)"
    "sq_Timeout ?q \<noteq> 0 \<or> c_TimeoutSearch (nd_cfg a) \<noteq> 0" "sq_RepoKeys ?q = [''k'']" "sq_MaxMatches ?q = 0"
    for a :: "(string, repo) gomap node"
    by (simp_all add: posted_query_def NewSearchQuery_def SearchQuery_Normalize_def)
  have "runnable two_env ?q ''(?m)abc'' None has_abc"
    using two_env_query(2) by (simp add: runnable_def posted_query_def NewSearchQuery_def buildRegexps_def tiny_env_def)
  from disk_network [OF this q(4)] obtain ans where net: "disk_network ans ?q" by blast
  note parts = net [unfolded disk_network_def Let_def, THEN conjunct1]
    net [unfolded disk_network_def Let_def, THEN conjunct2, THEN conjunct1]
    net [unfolded disk_network_def Let_def, THEN conjunct2, THEN conjunct2, unfolded numeral_2_eq_2]
  let ?b = "disk_node ''b'' '''' ans" and ?a = "disk_node ''a'' ''b'' ans"
  have "valid_utf8 ''k''" "valid_utf8 ''a''" by (intro valid_ascii; simp)+
  then have names: "\<forall>(f, k, l, v) \<in> {(''a'', ''k'', ''2'', ''abc'')}. valid_utf8 k \<and> valid_utf8 f" by simp
  obtain results t d' j where web: "node_web OtherError Itoa ?a results (json_text (encode_search_query posted_query) @ [CHR 0x0A])
      = Some (Returns ((200, t), d'))" "json_read t = Some j"
    "(\<forall>(f, k, l, v) \<in> {(''a'', ''k'', ''2'', ''abc'')}. json_at j [''matches'', f, k, l] = Some (JStr (coerce v))) \<or>
     0 < sq_MaxMatches ?q \<and> unat (sq_MaxMatches ?q) \<le> card {(f, k, l). json_at j [''matches'', f, k, l] \<noteq> None}"
    using http_search_is_exact [where ft = Itoa, OF body refl q(1-3) parts(1,3) refl, unfolded parts(2) disk_expected, OF names]
    by (elim exE conjE) (rule that)
  from web(3) have "json_at j [''matches'', ''a'', ''k'', ''2''] = Some (JStr ''abc'')" by (simp add: q(5) coerce_name)
  with web(1,2) show ?thesis by blast
qed

end
