(* ===== verification/Startup.thy ===== *)
theory Startup
  imports Repos_Client Daemon
begin

text \<open>
  What both programs do before their work: \<open>utils/logging.go\<close> and \<open>setupLogging\<close> of \<open>cmd/afind/afind.go\<close> and
  \<open>cmd/afindd/afindd.go\<close>; and the listeners of \<open>afind/config.go\<close> that the daemon's servers accept on.

  The logging library is a parameter: its levels, of any type, and how it reads their names. So are the
  opening of a file and of a socket.
\<close>

section \<open>Logging\<close>

record 'l log_lib =
  ll_LogLevel :: "string \<Rightarrow> 'l option"
  ll_DEBUG :: 'l
  ll_INFO :: 'l

datatype log_dest = LogStdout | LogFile string

text \<open>The variable \<open>level\<close>, the format of the lines, and the backend with the level of its module.\<close>

record 'l log_state =
  lg_level :: 'l
  lg_format :: string
  lg_backend :: "(log_dest \<times> string \<times> 'l) option"

text \<open>The two \<open>init\<close> functions, in their order.\<close>

definition utils_setupLogging :: "'l log_state \<Rightarrow> 'l log_state" where
  "utils_setupLogging st = st\<lparr>lg_format := ''%{level:.1s}%{time:0102 15:04:05.999999} '' @
     ''%{pid} %{shortfunc} %{shortfile}] %{message}''\<rparr>"

definition utils_init :: "'l log_lib \<Rightarrow> 'l log_state" where
  "utils_init lib = utils_setupLogging \<lparr>lg_level = ll_DEBUG lib, lg_format = '''', lg_backend = None\<rparr>"

definition SetLevel :: "'l log_lib \<Rightarrow> string \<Rightarrow> 'l log_state \<Rightarrow> 'l log_state" where
  "SetLevel lib newlevel st =
     st\<lparr>lg_level := (case ll_LogLevel lib newlevel of Some l \<Rightarrow> l | None \<Rightarrow> ll_INFO lib)\<rparr>"

definition LogToFile ::
  "(string \<Rightarrow> go_error option) \<Rightarrow> string \<Rightarrow> string \<Rightarrow> 'l log_state \<Rightarrow> 'l log_state outcome" where
  "LogToFile open_append modname path st =
     (let use = (\<lambda>f. Returns (st\<lparr>lg_backend := Some (f, modname, lg_level st)\<rparr>))
      in if path = ''-'' then use LogStdout
         else (let path = (if path = '''' then ''/dev/null'' else path)
               in case open_append path of
                    Some err \<Rightarrow> Panics (''cannot write log file: '' @ Error err)
                  | None \<Rightarrow> use (LogFile path)))"

definition setupLogging ::
  "'l log_lib \<Rightarrow> (string \<Rightarrow> go_error option) \<Rightarrow> bool \<Rightarrow> string \<Rightarrow> 'l log_state \<Rightarrow> 'l log_state outcome" where
  "setupLogging lib open_append verbose path st =
     (let st = SetLevel lib ''INFO'' st;
          st = (if verbose then SetLevel lib ''DEBUG'' st else st)
      in LogToFile open_append ''afind'' path st)"

text \<open>The programs with their logging: the command line is read first, and the log opened before
  anything else is done.\<close>

definition run_daemon ::
  "'l log_lib \<Rightarrow> (string \<Rightarrow> go_error option) \<Rightarrow> daemon_env \<Rightarrow> flag_readers \<Rightarrow> 'c fs_env \<Rightarrow> (string \<Rightarrow> 'c option) \<Rightarrow>
   string list \<Rightarrow> ((service list \<times> config \<times> 'c db) option \<times> 'l log_state) outcome" where
  "run_daemon lib open_append env rd fenv files argv =
     (case Parse (daemon_flag_set rd) argv default_daemon_flags of
        Parsed fl _ \<Rightarrow>
          (case setupLogging lib open_append (df_verbose fl) (df_log fl) (utils_init lib) of
             Panics msg \<Rightarrow> Panics msg
           | Returns lg \<Rightarrow> Returns (Daemon.main env rd fenv files argv, lg))
      | _ \<Rightarrow> Returns (None, utils_init lib))"

definition run_client ::
  "'l log_lib \<Rightarrow> (string \<Rightarrow> go_error option) \<Rightarrow> 's client_env \<Rightarrow> string list \<Rightarrow> 's \<Rightarrow>
   ((nat \<times> printed list \<times> 's) \<times> 'l log_state) outcome" where
  "run_client lib open_append env argv s =
     (case Parse (flagGlobal env) argv default_flags of
        Parsed fl _ \<Rightarrow>
          (case setupLogging lib open_append (fl_verbose fl) (fl_log fl) (utils_init lib) of
             Panics msg \<Rightarrow> Panics msg
           | Returns lg \<Rightarrow> Returns (Client.main env argv s, lg))
      | _ \<Rightarrow> Returns (Client.main env argv s, utils_init lib))"

text \<open>Where the log goes.\<close>

definition log_dest :: "string \<Rightarrow> log_dest" where
  "log_dest path = (if path = ''-'' then LogStdout else LogFile (if path = '''' then ''/dev/null'' else path))"

lemma setupLogging_cases:
  "setupLogging lib open_append verbose path st =
    (case log_dest path of
       LogFile p \<Rightarrow> (case open_append p of
           Some err \<Rightarrow> Panics (''cannot write log file: '' @ Error err)
         | None \<Rightarrow> LogToFile (\<lambda>_. None) ''afind'' path (SetLevel lib (if verbose then ''DEBUG'' else ''INFO'') st))
     | LogStdout \<Rightarrow> LogToFile (\<lambda>_. None) ''afind'' path (SetLevel lib (if verbose then ''DEBUG'' else ''INFO'') st))"
  by (simp add: setupLogging_def LogToFile_def log_dest_def SetLevel_def Let_def split: option.split)

text \<open>A log that can not be opened keeps a program from doing anything: with a command line that can be
  read, the daemon and the client end in a panic that names the error, before a socket is opened,
  the database read or a daemon called; otherwise they do what they do, and log to the file that
  was asked for (nowhere, if none was) messages of the level \<open>INFO\<close> and above, or of \<open>DEBUG\<close> when \<open>-v\<close> was
  given.\<close>

theorem log_is_opened_first:
  assumes "ll_LogLevel lib ''INFO'' = Some (ll_INFO lib)" "ll_LogLevel lib ''DEBUG'' = Some (ll_DEBUG lib)"
    and "Parse (daemon_flag_set rd) argv default_daemon_flags = Parsed dfl dargs"
    and "Parse (flagGlobal cenv) cargv default_flags = Parsed cfl cargs"
  shows "(case log_dest (df_log dfl) of
      LogFile p \<Rightarrow> open_append p \<noteq> None \<longrightarrow>
        run_daemon lib open_append denv rd fenv files argv = Panics (''cannot write log file: '' @ Error (the (open_append p)))
    | LogStdout \<Rightarrow> True) \<and>
    ((\<forall>p. log_dest (df_log dfl) = LogFile p \<longrightarrow> open_append p = None) \<longrightarrow>
      (\<exists>lg. run_daemon lib open_append denv rd fenv files argv = Returns (Daemon.main denv rd fenv files argv, lg) \<and>
        lg_backend lg = Some (log_dest (df_log dfl), ''afind'', if df_verbose dfl then ll_DEBUG lib else ll_INFO lib))) \<and>
    (case log_dest (fl_log cfl) of
      LogFile p \<Rightarrow> open_append p \<noteq> None \<longrightarrow>
        run_client lib open_append cenv cargv s = Panics (''cannot write log file: '' @ Error (the (open_append p)))
    | LogStdout \<Rightarrow> True) \<and>
    ((\<forall>p. log_dest (fl_log cfl) = LogFile p \<longrightarrow> open_append p = None) \<longrightarrow>
      (\<exists>lg. run_client lib open_append cenv cargv s = Returns (Client.main cenv cargv s, lg) \<and>
        lg_backend lg = Some (log_dest (fl_log cfl), ''afind'', if fl_verbose cfl then ll_DEBUG lib else ll_INFO lib)))"
proof -
  have level: "lg_level (SetLevel lib (if v then ''DEBUG'' else ''INFO'') st) = (if v then ll_DEBUG lib else ll_INFO lib)" for v st
    using assms(1,2) by (simp add: SetLevel_def)
  have fails: "setupLogging lib open_append v path st = Panics (''cannot write log file: '' @ Error (the (open_append p)))"
    if "log_dest path = LogFile p" "open_append p \<noteq> None" for v path st p
    using that by (auto simp: setupLogging_cases)
  have opens: "\<exists>lg. setupLogging lib open_append v path st = Returns lg \<and>
      lg_backend lg = Some (log_dest path, ''afind'', if v then ll_DEBUG lib else ll_INFO lib)"
    if "\<forall>p. log_dest path = LogFile p \<longrightarrow> open_append p = None" for v path st
    using that level [of v st] by (auto simp: setupLogging_cases LogToFile_def log_dest_def Let_def split: if_splits)
  show ?thesis
    using fails opens [of "df_log dfl" "df_verbose dfl" "utils_init lib"] opens [of "fl_log cfl" "fl_verbose cfl" "utils_init lib"]
    by (auto simp: run_daemon_def run_client_def assms(3,4) split: log_dest.split)
qed

section \<open>Listeners\<close>

text \<open>What the standard library offers: listening, accepting, and the two settings of a connection, whose
  errors \<open>Accept\<close> ignores.\<close>

record ('l, 'c) tcp =
  tcp_Listen :: "string \<Rightarrow> go_error + 'l"
  tcp_Accept :: "'l \<Rightarrow> go_error + 'c"
  tcp_SetKeepAlive :: "bool \<Rightarrow> 'c \<Rightarrow> go_error option \<times> 'c"
  tcp_SetKeepAlivePeriod :: "duration \<Rightarrow> 'c \<Rightarrow> go_error option \<times> 'c"

record 'l tcpKeepAliveListener =
  ka_TCPListener :: 'l
  ka_timeout :: duration

definition newTcpKeepAliveListener :: "'l \<Rightarrow> duration \<Rightarrow> 'l tcpKeepAliveListener" where
  "newTcpKeepAliveListener l t = \<lparr>ka_TCPListener = l, ka_timeout = t\<rparr>"

definition ListenerRpc :: "('l, 'c) tcp \<Rightarrow> config \<Rightarrow> go_error + 'l" where
  "ListenerRpc net c = tcp_Listen net (c_RPCBind c)"

definition ListenerTcpWithTimeout ::
  "('l, 'c) tcp \<Rightarrow> string \<Rightarrow> duration \<Rightarrow> go_error + 'l tcpKeepAliveListener" where
  "ListenerTcpWithTimeout net addr timeout =
     (case tcp_Listen net addr of
        Inr l \<Rightarrow> Inr (newTcpKeepAliveListener l timeout)
      | Inl err \<Rightarrow> Inl err)"

definition Accept :: "('l, 'c) tcp \<Rightarrow> 'l tcpKeepAliveListener \<Rightarrow> go_error + 'c" where
  "Accept net lsn =
     (case tcp_Accept net (ka_TCPListener lsn) of
        Inl err \<Rightarrow> Inl err
      | Inr tc \<Rightarrow>
          (let tc = snd (tcp_SetKeepAlive net True tc);
               tc = snd (tcp_SetKeepAlivePeriod net (ka_timeout lsn) tc)
           in Inr tc))"

text \<open>The sockets \<open>main\<close> listens on are those of \<open>ListenerTcpWithTimeout\<close>.\<close>

definition net_env :: "('l, 'c) tcp \<Rightarrow> daemon_env \<Rightarrow> daemon_env" where
  "net_env net env = env\<lparr>de_listen := \<lambda>addr timeout.
     case ListenerTcpWithTimeout net addr timeout of Inl err \<Rightarrow> Some err | Inr _ \<Rightarrow> None\<rparr>"

definition serving_listener :: "('l, 'c) tcp \<Rightarrow> service \<Rightarrow> (go_error + 'l tcpKeepAliveListener) option" where
  "serving_listener net s =
     (case s of
        RpcServing addr timeout \<Rightarrow> Some (ListenerTcpWithTimeout net addr timeout)
      | HttpServing addr timeout \<Rightarrow> Some (ListenerTcpWithTimeout net addr timeout)
      | _ \<Rightarrow> None)"

lemma start_rpc_services:
  "s \<in> set (fst (start_rpc (net_env net env) cfg)) \<Longrightarrow> (\<exists>err. s = Critical err) \<or>
    (\<exists>l. serving_listener net s = Some (Inr \<lparr>ka_TCPListener = l, ka_timeout = fst (GetTimeoutTcpKeepAlive cfg)\<rparr>))"
  by (auto simp: start_rpc_def net_env_def serving_listener_def ListenerTcpWithTimeout_def newTcpKeepAliveListener_def
      split: if_splits prod.splits sum.splits option.splits)

lemma start_http_services:
  "s \<in> set (fst (start_http (net_env net env) cfg)) \<Longrightarrow> (\<exists>err. s = Critical err) \<or>
    (\<exists>l. serving_listener net s = Some (Inr \<lparr>ka_TCPListener = l, ka_timeout = fst (GetTimeoutTcpKeepAlive cfg)\<rparr>))"
  by (auto simp: start_http_def net_env_def serving_listener_def ListenerTcpWithTimeout_def newTcpKeepAliveListener_def
      split: if_splits prod.splits sum.splits option.splits)

lemma start_rpc_keeps_timeout:
  "fst (GetTimeoutTcpKeepAlive (snd (start_rpc env cfg))) = fst (GetTimeoutTcpKeepAlive cfg)"
  by (auto simp: start_rpc_def GetTimeoutTcpKeepAlive_def Let_def defaultTimeoutTcpKeepAlive_def split: option.split)

text \<open>Every connection the daemon accepts on its RPC and HTTP sockets is set to be probed, and with the
  period of \<open>-timeout_tcp_keepalive\<close>, or of three minutes when that is zero, so that abandoned
  clients are noticed; where a setting fails the connection is served all the same.\<close>

lemma accepted_connections_are_probed:
  assumes "s \<in> set (start_services (net_env net env) cfg)" "serving_listener net s = Some (Inr lsn)"
  shows "Accept net lsn = map_sum id (snd \<circ>
    tcp_SetKeepAlivePeriod net (if c_TimeoutTcpKeepAlive cfg = 0 then 3 * 60 * 1000000000 else c_TimeoutTcpKeepAlive cfg) \<circ>
    (snd \<circ> tcp_SetKeepAlive net True)) (tcp_Accept net (ka_TCPListener lsn))"
proof -
  have "s \<noteq> HttpsServing a b c" "s \<noteq> Critical e" for a b c e
    using assms(2) by (auto simp: serving_listener_def)
  then have "s \<in> set (fst (start_rpc (net_env net env) cfg)) \<or>
      s \<in> set (fst (start_http (net_env net env) (snd (start_rpc (net_env net env) cfg))))"
    using assms(1) by (auto simp: start_services_def start_https_def case_prod_beta split: if_splits option.splits)
  then have "ka_timeout lsn = fst (GetTimeoutTcpKeepAlive cfg)"
    using assms(2) start_rpc_services [of s net env cfg]
      start_http_services [of s net env "snd (start_rpc (net_env net env) cfg)"]
    by (auto simp: start_rpc_keeps_timeout serving_listener_def)
  then have "ka_timeout lsn = (if c_TimeoutTcpKeepAlive cfg = 0 then 3 * 60 * 1000000000 else c_TimeoutTcpKeepAlive cfg)"
    by (simp add: GetTimeoutTcpKeepAlive_def defaultTimeoutTcpKeepAlive_def Let_def)
  then show ?thesis
    by (simp add: Accept_def Let_def split: sum.split)
qed

definition toy_log_lib :: "nat log_lib" where
  "toy_log_lib = \<lparr>ll_LogLevel = map_of [(''INFO'', 4), (''DEBUG'', 5)], ll_DEBUG = 5, ll_INFO = 4\<rparr>"

lemma log_is_opened_first_witness:
  "run_daemon toy_log_lib (\<lambda>_. Some (OtherError ''read-only'')) toy_daemon_env toy_readers plain_env (\<lambda>_. None) []
    = Panics ''cannot write log file: read-only'' \<and>
   (\<exists>lg. run_client toy_log_lib (\<lambda>_. None) idle_env [] (newDb (\<lambda>_. None :: unit option), None)
       = Returns (Client.main idle_env [] (newDb (\<lambda>_. None), None), lg) \<and>
      lg_backend lg = Some (LogFile ''/dev/null'', ''afind'', 4))"
proof -
  let ?s = "(newDb (\<lambda>_. None :: unit option), None :: conn)"
  have lib: "ll_LogLevel toy_log_lib ''INFO'' = Some (ll_INFO toy_log_lib)"
    "ll_LogLevel toy_log_lib ''DEBUG'' = Some (ll_DEBUG toy_log_lib)"
    by (simp_all add: toy_log_lib_def)
  have args: "Parse (daemon_flag_set toy_readers) [] default_daemon_flags = Parsed default_daemon_flags []"
    "Parse (flagGlobal idle_env) [] default_flags = Parsed default_flags []" by simp_all
  note first = log_is_opened_first [OF lib args, where s = ?s]
  note defaults = log_dest_def default_daemon_flags_def default_flags_def
  have "run_daemon toy_log_lib (\<lambda>_. Some (OtherError ''read-only'')) toy_daemon_env toy_readers plain_env (\<lambda>_. None) []
      = Panics ''cannot write log file: read-only''"
    using first [of "\<lambda>_. Some (OtherError ''read-only'')" toy_daemon_env plain_env "\<lambda>_. None"]
    by (simp add: defaults)
  moreover have "\<exists>lg. run_client toy_log_lib (\<lambda>_. None) idle_env [] ?s = Returns (Client.main idle_env [] ?s, lg) \<and>
      lg_backend lg = Some (LogFile ''/dev/null'', ''afind'', ll_INFO toy_log_lib)"
    using first [of "\<lambda>_. None" toy_daemon_env plain_env "\<lambda>_. None"]
    by (simp add: defaults)
  ultimately show ?thesis by (simp add: toy_log_lib_def)
qed

end
