(* ===== verification/Spec2Isabelle.thy ===== *)
theory Spec2Isabelle
  imports Endpoints Closing Counters Daemon Printing Stopwatch Contexts Index_Races Find_Network
    Repos_Client Http_Json End_to_End Startup
begin

text \<open>
  afind is a distributed text indexer and searcher. Every machine runs a daemon, \<open>afindd\<close>, that
  keeps a database of repositories, indexes directory trees into index files (shards), and serves
  three services over RPC and HTTP: index, search and find. A daemon asked about repositories of
  another host forwards the request to that host's daemon and merges the answer. This development
  models that program from its source and proves what makes it correct.

  How the parts interact. A client request (\<open>IndexQuery\<close>, \<open>SearchQuery\<close>, \<open>FindQuery\<close>) reaches an
  endpoint of \<open>afind/api\<close>. The index service normalises the request, leaves a marker in the
  database so that a second request for the same key is turned away, runs the indexer, and replaces
  or removes the marker. The indexer scans the virtual file system for directories and files that
  are not excluded, deals the names out to the shards and records the repository. The search
  service selects the repositories a request names (by key or by metadata), makes one request per
  local repository and one per remote host, runs them, merges the answers as they arrive until
  enough lines are found, and notes in the database which repositories failed. A local search reads
  every shard of its repository at once and merges what they report before its deadline. A shard is
  searched by asking the index for candidate files and scanning each with the text scanner, which
  reads a file through a growing buffer and reports matching lines with their numbers and context.
  Find works like search, on file names.

  The theories, from the bottom up (code under \<open>src/\<close>):

  Prelude: outcomes of calls that may panic, Go maps as association lists with distinct keys, the
  locale \<open>keyed_store\<close> (lookup after insert and delete) with its client lemmas, and the collections
  of simplification rules. Interpreted as \<open>gomap\<close> on Go maps and as \<open>db\<close> on the database.

  Go\_Strings: the functions of \<open>strings\<close>, \<open>bytes\<close>, \<open>strconv\<close> and \<open>path\<close> that the program calls.

  Errs: the package \<open>errs\<close>. The error kinds, their messages, \<open>NewStructError\<close> and the \<open>Is\<close>
  predicates by which callers classify an error.

  Repo: \<open>afind/repo.go\<close>. The record \<open>Repo\<close>, \<open>Meta\<close> with its exact and regular-expression filters,
  layering of metadata, shard names.

  Config: \<open>afind/config.go\<close> and \<open>utils\<close>. Default metadata, the local-host test, ports and
  addresses, limits.

  Db: \<open>afind/db.go\<close>. The repository store and the JSON file it is written out to after every
  change; opening, storing, deleting, selecting.

  Json\_Text, Repo\_Json: the text of that file. Json\_Text has what \<open>encoding/json\<close> writes and reads, down to
  the bytes, and that reading gives back what was written, strings made valid UTF-8; Repo\_Json the form
  of \<open>Repo\<close> by its tags, \<open>UnmarshalJSON\<close>, what a restart keeps, and what it does to a damaged file.

  Grepper, Grepper\_Lines, Grepper\_Correct: the text scanner of \<open>afind/grepper.go\<close>. Grepper holds the
  code (newline counting, context before and after a match, scanning a chunk, the read loop);
  Grepper\_Lines the specification over the lines of a text; Grepper\_Correct the proof that the
  two agree for every capacity of the buffer, and exactly when the scanner returns.

  Merge: the locale \<open>result_merge\<close>, the contract that the merge of search results and of find
  results share (a merge overrides entries), and when the order of merging is immaterial.
  Interpreted on the matches, errors and repositories of search results, and on the errors and names of
  find results.

  Search: \<open>afind/search.go\<close> without its goroutines. Queries and their normalisation, results and
  their merge, \<open>grep_search\<close> over the candidate files of a shard.

  Searcher: \<open>searcher.Search\<close>. The goroutines and the collecting loop as the inductive step relation
  \<open>search_step\<close> on \<open>search_state\<close>; runs are its reflexive transitive closure from \<open>Search_start\<close>.

  Find: \<open>afind/find.go\<close>. The shard queue bounded by \<open>chQuery_cap\<close>, name matching, counting.

  Walk: \<open>walkablefs/walker.go\<close> and the path matcher of \<open>afind/index.go\<close>. The walk is directed by what
  the visiting function returns (go on, skip this directory, stop).

  Index: \<open>afind/index.go\<close>. \<open>IndexQuery_Normalize\<close>, the scanner, the sharder, \<open>Index\<close> itself.

  Api\_Index, Dispatch, Api\_Search, Api\_Find, Servers: \<open>afind/api\<close>. Api\_Index holds the index service
  (marker, RPC and HTTP endpoints, forwarding); Dispatch what search and find share (selecting
  repositories, one request per host, the limit on backends); Api\_Search and Api\_Find the two
  services; Servers the repository service and the accept loop with its backing off.

  Index\_Races: the index requests of a daemon as tasks that interleave, with each other and with
  what searches and clients do to the database, at its single accesses (\<open>service_step\<close>). A task run
  alone is \<open>doIndex\<close>; two for one key can lose a repository.

  Forward: what search and find share when daemons ask each other. A daemon of a network (\<open>node\<close>), the
  owner of a repository, and the locale \<open>forwarding\<close>, the contract of a service that splits a request by
  host and merges the replies, with the proof that a request ends at the owners, if there are any, also when
  a limit on matches lets the replies leave results out. A daemon's limit on backend requests only has to
  cover the hosts it knows of (\<open>few_hosts\<close>). Interpreted as \<open>searching\<close> and as \<open>finding\<close>.

  Network: the search service composed with itself. \<open>serve_search\<close> asks the daemons at other addresses,
  which serve the request the same way; \<open>NumMatches\<close> counts the lines that are merged, so that an answer that
  stops early has no fewer lines than the limit.

  Pipeline: the scanner, the search of a shard and of a repository, the search over several hosts and the
  indexer, composed: what was indexed is found, and an answer holds the matching lines of the indexed files
  on the owners' disks (\<open>disk_lines\<close>) and nothing else, all of them unless a limit on matches was reached. It
  rests on the code-search index naming every file it was written with in which a line matches (\<open>index_reads\<close>);
  \<open>Index_repo_indexed\<close> shows that what the indexer makes is such a repository (\<open>repo_indexed\<close>).

  Find\_Network: the find service composed with itself (\<open>serve_find\<close>), with the finder on each host: an
  answer lists the names in the owners' index files on which the expression matches.

  Endpoints: what \<open>afind/api\<close> registers with the RPC server and the HTTP router, and the outcome of the
  RPC clients' calls.

  Closing: \<open>Quit\<close> of \<open>afind/api/server.go\<close>, \<open>Close\<close> and the accept loop of \<open>afind/api/rpc_server.go\<close> as
  a step relation over the \<open>quit\<close> channel.

  Index\_Writers: the locale \<open>index_writer\<close>, what the indexer relies on of the writers of its shards, with
  the indexer's lemmas proved in it, interpreted on the counting writer of \<open>afind/index_mock.go\<close>.
  Contexts: the writers and the file system that the indexer finds in a context in place of the local ones,
  which only changes its environment (\<open>in_context\<close>).

  Counters: \<open>counters/counters.go\<close>. The goroutine that owns the counters and the callers, as labelled
  steps \<open>ctr_step\<close>; \<open>run\<close> collects the labels of a run; \<open>perform_all\<close> executes a schedule.

  Stopwatch, Bytesize, Flags: the packages \<open>stopwatch\<close> and \<open>flags\<close> and \<open>afind/bytesize.go\<close>. Flags also has
  the part of Go's \<open>flag\<close> package that reads a command line.

  Client: \<open>cmd/afind/afind.go\<close>. The flags, the commands \<open>index\<close>, \<open>search\<close> and \<open>repos\<close> and what they print,
  over a daemon with any state. Printing: from the scanner's map of lines to the printed lines.
  Repos\_Client: the command \<open>repos\<close> over \<open>ReposClient\<close> of \<open>afind/api/repos.go\<close> and the daemon's repository
  service; a deletion breaks the connection it is sent on.

  Http\_Json: the handlers of HTTP as functions from the text of a body to a status and a text. The tags of
  the queries and of the results, what reading a body does with each, the query that clients write and
  the handlers read back, and the body that ends a daemon. A backend is partial there (\<open>run\<close>): it gives the
  results that arrive and whether their channel is closed, never closed, or a goroutine panics.

  End\_to\_End: the command, the transport, the network of daemons, the repositories and the scanner composed:
  what \<open>afind search\<close> prints, and what a search over HTTP answers, are the matching lines on the owners' disks,
  up to the limit on matches; the default command (\<open>-n 100\<close>) and the default limit of \<open>afindd\<close> on backend
  requests (300) are covered, context lines (\<open>-A\<close>, \<open>-B\<close>, \<open>-C\<close>) are not.

  Daemon: \<open>cmd/afindd/afindd.go\<close>. The flags, the configuration made from them, and the servers started.
  Startup: the log of both programs (\<open>utils/logging.go\<close>), opened before anything else is done, and the
  listeners of \<open>afind/config.go\<close>, whose connections are probed.

  This theory: the composition of indexing and searching.

  What the groups of lemmas show. Each operation has lemmas for its branches, errors and panics
  included. The well-formedness of Go maps (\<open>gm_ok\<close>) and of the database is preserved by every
  operation. The read loop is proved equal to a function over lines. The concurrent search is
  proved to return exactly the merge of its shards' answers in every schedule before the deadline,
  and its behaviour past the deadline is proved too. The database is proved to be recovered from
  its file. The services are proved to ask each repository once, to stop merging when enough was
  found, and to keep the database's states current. The counters are proved linear (a read is the sum
  of what was accepted before it) and live. The printed output of a search is proved to be the
  matching lines in order.

  Errors and panics. A Go call that returns \<open>(value, error)\<close> is a pair or an option of an error
  value; a call that can panic (nil dereference, invalid expression, index out of range) has the
  type \<open>outcome\<close> of the prelude with the constructor for a panic, so a panic is a
  branch of the model like any other.

  Bounds and fuel. The scanner's read loop is a \<open>partial_function (option)\<close>, since a line longer than
  the buffer makes the code loop for ever; \<open>Grepper_Correct.reader_returns_iff_lines_fit\<close> says when
  it returns for the code's buffer of 2 to the power 20 bytes. The walk takes fuel, a bound on
  the depth of the tree; the statements hold for any fuel above the depth. \<open>serve_search\<close> and
  \<open>serve_find\<close> take the number of daemons that a request may pass through; a repository's owner being nearer is enough,
  and without an owner no number is. \<open>rpc_Call\<close> takes the number \<open>late\<close> of calls that still go out on a broken
  connection, any number. The queue of \<open>Find\<close>
  is bounded by 100 requests, and a caller that fills it before a reader exists never returns,
  which \<open>Find.Find_returns_iff_shards_fit\<close> states. The accept loop is a fold over the results of its
  listener.

  Parameters. What is not in the repository is an argument of the definitions: the compiled regular
  expression (a function from a text to the position of its first match), the code-search index
  (posting queries, the writer), the file system, the text of a time, the clock and
  the schedule of goroutines, the network (the answer of a remote daemon). The theorems that rely on
  documented behaviour of these state it as a hypothesis, and have a witness at concrete functions. The
  reader of a database file says \<open>Outside\<close> for what only another program writes (nil maps and repositories, sizes
  that are no whole number); every body of a request is read.

  Sizes are rational numbers, which the finite floats are; their formatting rounds as \<open>fmt\<close> does. The
  buffers of the counters' channels hold 100 requests; the senders beyond block and are kept in the
  same queue, and closing a channel with blocked senders ends the program.

  Not modelled: the messages logged, the usage texts, the transport of RPC (the command line's theorem only
  asks that it keeps the lines of an answer) and of HTTP, signals, sockets beyond what listening and accepting
  return, and the mock file system of tests. These are input and output or third-party code.
  The network of daemons answers without expiry and from databases that a search does not change.
\<close>

section \<open>Indexing, then searching\<close>

text \<open>C10. What has been indexed can be searched. When a valid request for a new key of this host is indexed
  in time and the shards share out the scanned names, the database holds the repository under its
  key; and a search of that key then starts one goroutine for each of the shard files the indexer
  created, and for no other, with the repository that names the indexed root.\<close>

theorem indexed_repository_is_searched:
  assumes "db_Get d (iq_Key q) = None" "IndexQuery_Normalize order q = Inr q'"
    and "fst (isLocal hostname c (Meta_Host (iq_Meta q)))" "\<not> ic_expired ch" "\<not> ic_timeout ch"
    and "req = q'\<lparr>iq_Recurse := False\<rparr>"
    and "Index cfg ienv order fuel sched None elapsed now req = Some (Returns (ib_index be req))"
    and "IndexQuery_Normalize order req = Inr req'" "getRoot cfg req' = (rt, gq)"
    and "0 \<le> c_NumShards cfg" "n = nat (if c_NumShards cfg = 0 then 1 else min (c_NumShards cfg) 32)"
    and "files = map (\<lambda>i. path_Join [rt, shardName (iq_Key req) (int i)]) [0..<n]"
    and "create_shards ienv files = Inr writers"
    and "scanner fuel (ie_walkfs ienv rt) (ie_art ienv) gq = Some (names, scanerr)" "fair sched n names"
    and "firstKey sq = iq_Key q"
  shows "\<exists>repo d'. doIndex hostname order c env be ch q d
      = Returns (\<lparr>ir_Repo = Some repo, ir_Error = None\<rparr>, NilStructError, d') \<and>
    db_Get d' = (db_Get d)(iq_Key q \<mapsto> repo) \<and> r_Root repo = TrimSuffix (iq_Root q) ''/'' \<and>
    (\<exists>s. Search_start scfg env sq d' = Returns (Running s) \<and>
      ss_todo s = files \<and> ss_waiting s = length files \<and> ss_repo s = repo \<and> ss_db s = d')"
proof -
  have q': "iq_Key q' = iq_Key q" "iq_Root q' = iq_Root q" "iq_Key q \<noteq> []"
    using assms(2) by (auto simp: IndexQuery_Normalize_def split: if_splits sum.splits)
  obtain repo where repo: "ib_index be req = (\<lparr>ir_Repo = Some repo, ir_Error = None\<rparr>, None)"
    "r_State repo = st_OK" "r_Key repo = iq_Key req" "r_Root repo = TrimSuffix (iq_Root req) ''/''"
    "Shards repo = Returns files"
    using Index_built [OF assms(8-15), of elapsed now] assms(7) by auto
  let ?d = "fst (db_Set env (iq_Key q) (Some repo) (fst (db_Set env (iq_Key q) (Some (marker_repo q')) d)))"
  have "doIndex hostname order c env be ch q d
      = Returns (\<lparr>ir_Repo = Some repo, ir_Error = None\<rparr>, NilStructError, ?d)"
    using repo assms(1-6) q'(1) by (intro doIndex_success) simp_all
  moreover have get: "db_Get ?d = (db_Get d)(iq_Key q \<mapsto> repo)" by simp
  moreover have "\<exists>s. Search_start scfg env sq ?d = Returns (Running s) \<and> ss_todo s = files \<and>
      ss_waiting s = length files \<and> ss_repo s = repo \<and> ss_db s = ?d"
    using repo(2,5) q'(3) by (simp add: Search_start_def assms(16) get Let_def)
  ultimately show ?thesis using repo(4) q'(2) assms(6) by auto
qed

lemma indexed_repository_is_searched_witness:
  "\<exists>be repo d' s. doIndex None (\<lambda>xs. xs) zero_config plain_env be in_time tiny_index_request no_repos
      = Returns (\<lparr>ir_Repo = Some repo, ir_Error = None\<rparr>, NilStructError, d') \<and>
    r_Root repo = ''/src'' \<and>
    Search_start zero_config plain_env (NewSearchQuery ''abc'' '''' False [''k'']) d' = Returns (Running s) \<and>
    ss_waiting s = 1"
proof -
  let ?run = "Index in_repo_config tiny_index_env (\<lambda>xs. xs) 2 one_shard None 0 0 tiny_index_request"
  let ?be = "(tiny_backend st_OK)\<lparr>ib_index := \<lambda>q. case ?run of Some (Returns res) \<Rightarrow> res\<rparr>"
  let ?sq = "NewSearchQuery ''abc'' '''' False [''k'']"
  have req: "tiny_index_request = tiny_index_request\<lparr>iq_Recurse := False\<rparr>"
    by (simp add: tiny_index_request_def NewIndexQuery_def)
  have local: "fst (isLocal None zero_config (Meta_Host (iq_Meta tiny_index_request)))"
    by (simp add: isLocal_def tiny_index_request_def NewIndexQuery_def Meta_Host_def localHostnames_def)
  have key: "firstKey ?sq = iq_Key tiny_index_request"
    by (simp add: firstKey_def NewSearchQuery_def tiny_index_request_def NewIndexQuery_def)
  have run: "?run = Some (Returns (ib_index ?be tiny_index_request))"
    using Index_built [OF tiny_index_ready(1-4) refl tiny_index_ready(5-7), of 0 0] by auto
  have time: "\<not> ic_expired in_time" "\<not> ic_timeout in_time" by (simp_all add: in_time_def)
  from indexed_repository_is_searched [OF no_repos_Get tiny_index_ready(1) local time req run
      tiny_index_ready(1-4) refl tiny_index_ready(5-7) key, of plain_env zero_config]
  show ?thesis by (auto simp: tiny_index_request_def NewIndexQuery_def tiny_trim)
qed

end
